(* ===== verification/Prelude.thy ===== *)
theory Prelude
  imports Main "HOL-Library.Word" "HOL-Library.Signed_Division"
begin

text \<open>
  Shared ground of the development: the linear search every table of the kernel uses, the
  outcome type of a kernel call that may switch context in the middle, the reading of C
  strings and of 32-bit cells in byte memory, and generic facts about lists.

  Addresses are \<open>nat\<close> (0 is the null pointer), C \<open>int\<close> values are \<open>int\<close>, bytes are
  \<open>8 word\<close>. A C string is the list of its bytes without the terminator.
\<close>

type_synonym addr = nat
type_synonym byte = "8 word"
type_synonym cstring = "8 word list"

definition NULL :: addr where
  [simp]: "NULL = 0"

named_theorems frame \<open>what an operation leaves unchanged\<close>
named_theorems inv_pres \<open>an operation keeps its component's invariant\<close>

section \<open>Linear search\<close>

text \<open>
  The loop \<open>for (i = 0; i < n; i++) if (P a[i]) return i;\<close> which the mutex table, the
  semaphore table, the wait queues, the pipe table and the thread array all repeat.
\<close>

fun find_from :: "('a \<Rightarrow> bool) \<Rightarrow> 'a list \<Rightarrow> nat \<Rightarrow> nat option" where
  "find_from P [] i = None"
| "find_from P (x # xs) i = (if P x then Some i else find_from P xs (Suc i))"

definition first_index :: "('a \<Rightarrow> bool) \<Rightarrow> 'a list \<Rightarrow> nat option" where
  "first_index P xs = find_from P xs 0"

lemma ex_Suc_nat: "(\<exists>j. Q j) \<longleftrightarrow> Q 0 \<or> (\<exists>j. Q (Suc j))"
  by (metis not0_implies_Suc)

lemma all_less_Suc_shift: "(\<forall>m < Suc j. Q m) \<longleftrightarrow> Q 0 \<and> (\<forall>m < j. Q (Suc m))"
  by (metis Suc_less_eq not0_implies_Suc zero_less_Suc)

lemma find_from_Some:
  "find_from P xs k = Some i \<longleftrightarrow>
     (\<exists>j. i = k + j \<and> j < length xs \<and> P (xs ! j) \<and> (\<forall>m < j. \<not> P (xs ! m)))"
proof (induction xs arbitrary: k)
  case Nil
  then show ?case by simp
next
  case (Cons x xs)
  show ?case
    by (subst ex_Suc_nat) (auto simp: Cons.IH all_less_Suc_shift)
qed

lemma find_from_None: "find_from P xs k = None \<longleftrightarrow> (\<forall>x \<in> set xs. \<not> P x)"
  by (induction xs arbitrary: k) auto

lemma first_index_Some:
  "first_index P xs = Some i \<longleftrightarrow> i < length xs \<and> P (xs ! i) \<and> (\<forall>m < i. \<not> P (xs ! m))"
  by (auto simp: first_index_def find_from_Some)

lemma first_index_None: "first_index P xs = None \<longleftrightarrow> (\<forall>x \<in> set xs. \<not> P x)"
  by (simp add: first_index_def find_from_None)

lemma first_index_None_nth: "first_index P xs = None \<longleftrightarrow> (\<forall>i < length xs. \<not> P (xs ! i))"
  by (auto simp: first_index_None all_set_conv_all_nth)

lemma find_from_shift: "find_from P xs (Suc k) = map_option Suc (find_from P xs k)"
  by (induction xs arbitrary: k) auto

lemma first_index_Cons:
  "first_index P (x # xs) = (if P x then Some 0 else map_option Suc (first_index P xs))"
  by (simp add: first_index_def find_from_shift)

lemma first_index_replicate [simp]:
  "0 < n \<Longrightarrow> P x \<Longrightarrow> first_index P (replicate n x) = Some 0"
  by (cases n) (simp_all add: first_index_def)

section \<open>Calls that may switch context\<close>

text \<open>
  A kernel call runs to its end, or it reaches \<open>_yield\<close>, which puts another process on
  the processor: then the call is suspended in the state after the switch, and the rest
  of its code is a function of the state in which it is resumed. An access outside an
  array of the kernel, or a loop that the hardware never leaves, is a \<open>Fault\<close>.
\<close>

datatype (dead 's, 'a) exec =
    Done 's 'a
  | Yielded 's "'s \<Rightarrow> ('s, 'a) exec"
  | Fault

primrec bind_exec :: "('s, 'a) exec \<Rightarrow> ('s \<Rightarrow> 'a \<Rightarrow> ('s, 'b) exec) \<Rightarrow> ('s, 'b) exec" where
  "bind_exec (Done s a) f = f s a"
| "bind_exec (Yielded s k) f = Yielded s (\<lambda>s'. bind_exec (k s') f)"
| "bind_exec Fault f = Fault"

definition of_option :: "('s \<times> 'a) option \<Rightarrow> ('s, 'a) exec" where
  "of_option r = (case r of None \<Rightarrow> Fault | Some (s, a) \<Rightarrow> Done s a)"

lemma of_option_simps [simp]:
  "of_option None = Fault"
  "of_option (Some (s, a)) = Done s a"
  by (simp_all add: of_option_def)

lemma bind_exec_Done_right: "bind_exec m Done = m"
  by (induction m) auto

lemma bind_exec_assoc:
  "bind_exec (bind_exec m f) g = bind_exec m (\<lambda>s a. bind_exec (f s a) g)"
  by (induction m) auto

section \<open>Lists\<close>

lemma set_update_distinct_iff:
  "i < length xs \<Longrightarrow> set (xs[i := x]) = insert x {xs ! j | j. j < length xs \<and> j \<noteq> i}"
  by (fastforce simp: set_conv_nth nth_list_update)

text \<open>How many entries of a table satisfy a predicate, and what one update does to it.\<close>

definition count_where :: "('a \<Rightarrow> bool) \<Rightarrow> 'a list \<Rightarrow> nat" where
  "count_where P xs = length (filter P xs)"

lemma count_where_simps [simp]:
  "count_where P [] = 0"
  "count_where P (x # xs) = (if P x then Suc (count_where P xs) else count_where P xs)"
  by (simp_all add: count_where_def)

lemma count_where_le: "count_where P xs \<le> length xs"
  by (simp add: count_where_def)

lemma count_where_replicate: "count_where P (replicate n x) = (if P x then n else 0)"
  by (induction n) auto

lemma count_where_add:
  "i < length xs \<Longrightarrow> \<not> P (xs ! i) \<Longrightarrow> P x \<Longrightarrow> count_where P (xs[i := x]) = Suc (count_where P xs)"
  by (induction xs arbitrary: i) (auto split: nat.splits)

lemma count_where_del:
  "i < length xs \<Longrightarrow> P (xs ! i) \<Longrightarrow> \<not> P x \<Longrightarrow> Suc (count_where P (xs[i := x])) = count_where P xs"
  by (induction xs arbitrary: i) (auto split: nat.splits)

lemma count_where_pos: "0 < count_where P xs \<longleftrightarrow> (\<exists>x \<in> set xs. P x)"
  by (induction xs) auto

lemma count_where_full: "count_where P xs = length xs \<longleftrightarrow> (\<forall>x \<in> set xs. P x)"
  by (induction xs) (auto simp: le_imp_less_Suc [OF count_where_le] nat_neq_iff)

end
