(* ===== verification/Memory.thy ===== *)
theory Memory
  imports Prelude
begin

text \<open>
  Byte memory: the 32-bit little-endian cells in which the C code keeps its \<open>int\<close> arrays,
  and pointer arithmetic at the width of the machine. A store is read back, and a store
  leaves every cell that does not overlap it alone.
\<close>

type_synonym memory = "addr \<Rightarrow> byte"

definition ptr_sub :: "addr \<Rightarrow> nat \<Rightarrow> addr" where
  "ptr_sub a n = nat ((int a - int n) mod 2 ^ 64)"

definition ld32 :: "memory \<Rightarrow> addr \<Rightarrow> int" where
  "ld32 m a =
     (let u = uint (m a) + 256 * uint (m (a + 1)) + 65536 * uint (m (a + 2)) + 16777216 * uint (m (a + 3))
      in if 2 ^ 31 \<le> u then u - 2 ^ 32 else u)"

definition st32 :: "addr \<Rightarrow> int \<Rightarrow> memory \<Rightarrow> memory" where
  "st32 a v m = m(a := word_of_int v, a + 1 := word_of_int (v div 256),
     a + 2 := word_of_int (v div 65536), a + 3 := word_of_int (v div 16777216))"

lemma ld32_st32:
  assumes "- (2 ^ 31) \<le> v" "v < 2 ^ 31"
  shows "ld32 (st32 a v m) a = v"
proof -
  have b: "uint (word_of_int x :: byte) = x mod 256" for x
    by (simp add: unsigned_of_int take_bit_eq_mod)
  define r0 r1 r2 r3 q where "r0 = v mod 256" "r1 = v div 256 mod 256" "r2 = v div 65536 mod 256"
    "r3 = v div 16777216 mod 256" "q = v div 4294967296"
  have d: "v div 256 div 256 = v div 65536" "v div 65536 div 256 = v div 16777216"
    "v div 16777216 div 256 = v div 4294967296"
    by (simp_all add: zdiv_zmult2_eq [symmetric])
  have "v = 256 * (v div 256) + r0" "v div 256 = 256 * (v div 65536) + r1"
    "v div 65536 = 256 * (v div 16777216) + r2" "v div 16777216 = 256 * q + r3"
    using d by (simp_all add: r0_r1_r2_r3_q_def flip: d)
  then have v: "v = r0 + 256 * r1 + 65536 * r2 + 16777216 * r3 + 4294967296 * q" by linarith
  have r: "0 \<le> r0" "r0 < 256" "0 \<le> r1" "r1 < 256" "0 \<le> r2" "r2 < 256" "0 \<le> r3" "r3 < 256"
    by (simp_all add: r0_r1_r2_r3_q_def)
  have "q = 0 \<or> q = -1" using v r assms by auto
  moreover have "ld32 (st32 a v m) a =
      (let u = r0 + 256 * r1 + 65536 * r2 + 16777216 * r3 in if 2 ^ 31 \<le> u then u - 2 ^ 32 else u)"
    by (simp add: ld32_def st32_def b r0_r1_r2_r3_q_def)
  ultimately show ?thesis using v r assms by (auto simp: Let_def)
qed

lemma ld32_st32_other:
  "a + 4 \<le> c \<or> c + 4 \<le> a \<Longrightarrow> ld32 (st32 a v m) c = ld32 m c"
  by (auto simp: ld32_def st32_def)

lemma st32_byte_other:
  "c < a \<or> a + 4 \<le> c \<Longrightarrow> st32 a v m c = m c"
  by (auto simp: st32_def)

section \<open>Runs of bytes\<close>

text \<open>The bytes that lie at an address.\<close>

definition bytes_at :: "memory \<Rightarrow> addr \<Rightarrow> nat \<Rightarrow> byte list" where
  "bytes_at m a n = map (\<lambda>j. m (a + j)) [0..<n]"

lemma bytes_at_snoc: "bytes_at (m(a + n := c)) a (Suc n) = bytes_at m a n @ [c]"
  by (auto simp: bytes_at_def)

lemma length_bytes_at [simp]: "length (bytes_at m a n) = n"
  by (simp add: bytes_at_def)

lemma nth_bytes_at [simp]: "i < n \<Longrightarrow> bytes_at m a n ! i = m (a + i)"
  by (simp add: bytes_at_def)

lemma bytes_at_0 [simp]: "bytes_at m a 0 = []"
  by (simp add: bytes_at_def)

lemma bytes_at_Suc: "bytes_at m a (Suc n) = m a # bytes_at m (a + 1) n"
  by (rule nth_equalityI) (auto simp: nth_Cons split: nat.splits)

lemma bytes_at_add: "bytes_at m a (n + k) = bytes_at m a n @ bytes_at m (a + n) k"
  by (rule nth_equalityI) (auto simp: nth_append)

lemma bytes_at_cong: "(\<And>i. i < n \<Longrightarrow> m (a + i) = m' (a + i)) \<Longrightarrow> bytes_at m a n = bytes_at m' a n"
  by (rule nth_equalityI) auto

end
