(* ===== verification/Cstring.thy ===== *)
theory Cstring
  imports Memory
begin

text \<open>
  C strings: reading one from memory, and the comparisons of \<open>Kernel/stdio.c\<close>. A string is
  the list of its bytes up to the terminator; \<open>char\<close> is signed on this machine, so that two
  bytes are compared as signed numbers.
\<close>

text \<open>The characters of a literal of the program as bytes.\<close>

definition lit :: "string \<Rightarrow> cstring" where
  "lit s = map of_char s"

text \<open>The bytes before the first zero among the next \<open>n\<close>; \<open>None\<close> when there is none.\<close>

fun cstr :: "nat \<Rightarrow> memory \<Rightarrow> addr \<Rightarrow> cstring option" where
  "cstr 0 m a = None"
| "cstr (Suc n) m a = (if m a = 0 then Some [] else map_option ((#) (m a)) (cstr n m (a + 1)))"

text \<open>Writing a string with its terminator.\<close>

fun put_cstr :: "addr \<Rightarrow> cstring \<Rightarrow> memory \<Rightarrow> memory" where
  "put_cstr a [] m = m(a := 0)"
| "put_cstr a (c # cs) m = put_cstr (a + 1) cs (m(a := c))"

lemma put_cstr_below: "x < a \<Longrightarrow> put_cstr a cs m x = m x"
  by (induction cs arbitrary: a m) auto

lemma cstr_put_cstr: "0 \<notin> set cs \<Longrightarrow> length cs < n \<Longrightarrow> cstr n (put_cstr a cs m) a = Some cs"
proof (induction cs arbitrary: a m n)
  case Nil
  then show ?case by (cases n) auto
next
  case (Cons c cs)
  then show ?case by (cases n) (auto simp: put_cstr_below)
qed

fun strcmp :: "cstring \<Rightarrow> cstring \<Rightarrow> int" where
  "strcmp [] [] = 0"
| "strcmp [] (b # bs) = - 1"
| "strcmp (a # as) [] = 1"
| "strcmp (a # as) (b # bs) =
     (if sint a - sint b > 0 then 1 else if sint a - sint b < 0 then - 1 else strcmp as bs)"

fun strcmpN :: "cstring \<Rightarrow> cstring \<Rightarrow> int \<Rightarrow> int" where
  "strcmpN (a # as) (b # bs) n =
     (if n = 0 then 0
      else if sint a - sint b > 0 then 1 else if sint a - sint b < 0 then - 1
      else strcmpN as bs (n - 1))"
| "strcmpN [] bs n = (if n = 0 then 0 else if bs = [] then 0 else - 1)"
| "strcmpN (a # as) [] n = (if n = 0 then 0 else 1)"

lemma strcmp_eq_0 [simp]: "strcmp as bs = 0 \<longleftrightarrow> as = bs"
  by (induction as bs rule: strcmp.induct) (auto simp: not_less intro: signed_word_eqI)

lemma strcmp_range: "strcmp as bs \<in> {- 1, 0, 1}"
  by (induction as bs rule: strcmp.induct) auto

lemma strcmp_swap: "strcmp bs as = - strcmp as bs"
  by (induction as bs rule: strcmp.induct) auto

lemma strcmpN_take: "strcmpN as bs (int n) = strcmp (take n as) (take n bs)"
proof (induction n arbitrary: as bs)
  case 0
  then show ?case by (cases as; cases bs) auto
next
  case (Suc n)
  then show ?case by (cases as; cases bs) auto
qed

lemma cstr_mono: "cstr n m a = Some str \<Longrightarrow> n \<le> k \<Longrightarrow> cstr k m a = Some str"
proof (induction n arbitrary: a k str)
  case (Suc n)
  then obtain k' where k: "k = Suc k'" "n \<le> k'" by (cases k) auto
  show ?case
  proof (cases "m a = 0")
    case False
    then obtain rest where "cstr n m (a + 1) = Some rest" "str = m a # rest" using Suc.prems(1) by auto
    with Suc.IH [OF this(1) k(2)] False k(1) show ?thesis by simp
  qed (use Suc.prems(1) k(1) in simp)
qed simp

lemma cstr_Cons: "cstr n m a = Some (c # str) \<Longrightarrow> m a = c \<and> cstr n m (a + 1) = Some str"
  using cstr_mono [of "n - 1" m "a + 1" str n] by (cases n) (auto split: if_splits)

lemma cstr_drop: "cstr n m a = Some str \<Longrightarrow> k \<le> length str \<Longrightarrow> cstr n m (a + k) = Some (drop k str)"
proof (induction k arbitrary: a str)
  case (Suc k)
  then obtain c rest where str: "str = c # rest" by (cases str) auto
  with cstr_Cons Suc.prems(1) have "cstr n m (a + 1) = Some rest" by blast
  from Suc.IH [OF this] Suc.prems(2) str show ?case by simp
qed simp

lemma cstr_nth: "cstr n m a = Some str \<Longrightarrow> i < length str \<Longrightarrow> m (a + i) = str ! i"
proof (induction i arbitrary: a str)
  case 0
  then obtain c rest where "str = c # rest" by (cases str) auto
  with cstr_Cons 0 show ?case by auto
next
  case (Suc i)
  then obtain c rest where str: "str = c # rest" by (cases str) auto
  with cstr_Cons Suc.prems(1) have "cstr n m (a + 1) = Some rest" by blast
  from Suc.IH [OF this] Suc.prems(2) str show ?case by simp
qed

end
