(* ===== verification/Lib.thy ===== *)
theory Lib
  imports Cstring
begin

unbundle bit_operations_syntax

text \<open>
  The small library of the kernel: \<open>memset\<close>, \<open>memcpy\<close> and \<open>intToString\<close> (\<open>Kernel/lib.c\<close>),
  the ports of the machine (\<open>inputb\<close> and \<open>outputb\<close> of \<open>asm/libasm.asm\<close>), and the clock
  (\<open>Kernel/rtc.c\<close>). The lemmas show what the copies leave in memory and that the clock is
  printed as the digits its registers hold.
\<close>

section \<open>Memory\<close>

text \<open>The loop \<open>while (length--)\<close> fills from the end.\<close>

fun memset_loop :: "nat \<Rightarrow> addr \<Rightarrow> byte \<Rightarrow> memory \<Rightarrow> memory" where
  "memset_loop 0 dst chr m = m"
| "memset_loop (Suc n) dst chr m = memset_loop n dst chr (m(dst + n := chr))"

definition memset :: "addr \<Rightarrow> 32 word \<Rightarrow> 64 word \<Rightarrow> memory \<Rightarrow> memory" where
  "memset destination c n m = memset_loop (unat n) destination (ucast c) m"

text \<open>The two loops of \<open>memcpy\<close>, by words and by bytes, over the rounds that are left.\<close>

fun memcpy_words :: "nat \<Rightarrow> nat \<Rightarrow> addr \<Rightarrow> addr \<Rightarrow> memory \<Rightarrow> memory" where
  "memcpy_words 0 i d s m = m"
| "memcpy_words (Suc left) i d s m = memcpy_words left (i + 1) d s (st32 (d + 4 * i) (ld32 m (s + 4 * i)) m)"

fun memcpy_bytes :: "nat \<Rightarrow> nat \<Rightarrow> addr \<Rightarrow> addr \<Rightarrow> memory \<Rightarrow> memory" where
  "memcpy_bytes 0 i d s m = m"
| "memcpy_bytes (Suc left) i d s m = memcpy_bytes left (i + 1) d s (m(d + i := m (s + i)))"

definition memcpy :: "addr \<Rightarrow> addr \<Rightarrow> 64 word \<Rightarrow> memory \<Rightarrow> memory" where
  "memcpy destination source n m =
     (if destination mod 4 = 0 \<and> source mod 4 = 0 \<and> n mod 4 = 0
      then memcpy_words (unat (n div 4)) 0 destination source m
      else memcpy_bytes (unat n) 0 destination source m)"

lemma memset_spec:
  "memset a c n m x = (if a \<le> x \<and> x < a + unat n then ucast c else m x)"
proof -
  have "memset_loop k a chr m x = (if a \<le> x \<and> x < a + k then chr else m x)" for k chr
    by (induction k a chr m rule: memset_loop.induct) (auto simp: fun_upd_def)
  then show ?thesis by (simp add: memset_def)
qed

lemma word_of_int_byte: "word_of_int (uint w + 256 * k) = (w :: byte)"
proof -
  have "(256 :: byte) = 0" by simp
  then have "word_of_int (256 * k) = (0 :: byte)" by (simp only: of_int_mult of_int_numeral mult_zero_left)
  then show ?thesis by simp
qed

lemma uint_byte: "0 \<le> uint (w :: byte) \<and> uint w < 256"
  using uint_bounded [of w] by simp

lemma st32_ld32_byte:
  "st32 d (ld32 m s) m' x = (if d \<le> x \<and> x < d + 4 then m (s + (x - d)) else m' x)"
proof -
  define b0 b1 b2 b3 where "b0 = uint (m s)" "b1 = uint (m (s + 1))" "b2 = uint (m (s + 2))" "b3 = uint (m (s + 3))"
  have r: "0 \<le> b0" "b0 < 256" "0 \<le> b1" "b1 < 256" "0 \<le> b2" "b2 < 256" "0 \<le> b3" "b3 < 256"
    using uint_byte [of "m s"] uint_byte [of "m (s + 1)"] uint_byte [of "m (s + 2)"] uint_byte [of "m (s + 3)"]
    by (simp_all add: b0_b1_b2_b3_def)
  define q where "q = (if 2 ^ 31 \<le> b0 + 256 * b1 + 65536 * b2 + 16777216 * b3 then - 1 else 0 :: int)"
  have v: "ld32 m s = b0 + 256 * (b1 + 256 * (b2 + 256 * (b3 + 256 * q)))"
    by (simp add: ld32_def Let_def q_def b0_b1_b2_b3_def)
  have d: "ld32 m s div 256 = b1 + 256 * (b2 + 256 * (b3 + 256 * q))"
    "ld32 m s div 65536 = b2 + 256 * (b3 + 256 * q)" "ld32 m s div 16777216 = b3 + 256 * q"
    unfolding v using r by auto
  have w: "word_of_int (ld32 m s) = m s" "word_of_int (ld32 m s div 256) = m (s + 1)"
    "word_of_int (ld32 m s div 65536) = m (s + 2)" "word_of_int (ld32 m s div 16777216) = m (s + 3)"
    unfolding d unfolding v b0_b1_b2_b3_def by (rule word_of_int_byte)+
  have "x = d \<or> x = d + 1 \<or> x = d + 2 \<or> x = d + 3 \<or> x < d \<or> d + 4 \<le> x" by linarith
  then show ?thesis using w by (auto simp: st32_def)
qed

text \<open>Copying forwards between places that do not overlap moves the bytes, by words or one by one.\<close>

lemma memcpy_bytes_spec:
  assumes "d + i + left \<le> s \<or> s + i + left \<le> d"
  shows "memcpy_bytes left i d s m x = (if d + i \<le> x \<and> x < d + i + left then m (s + (x - d)) else m x)"
  using assms
proof (induction left arbitrary: i m)
  case 0
  then show ?case by auto
next
  case (Suc left)
  have "d + Suc i + left \<le> s \<or> s + Suc i + left \<le> d" using Suc.prems by linarith
  from Suc.IH [OF this, of "m(d + i := m (s + i))"]
  have step: "memcpy_bytes (Suc left) i d s m x = (if d + Suc i \<le> x \<and> x < d + Suc i + left
      then (m(d + i := m (s + i))) (s + (x - d)) else (m(d + i := m (s + i))) x)"
    by (simp only: memcpy_bytes.simps One_nat_def add_Suc_right add_0_right)
  have "d + Suc i \<le> x \<and> x < d + Suc i + left \<Longrightarrow> s + (x - d) \<noteq> d + i" using Suc.prems by linarith
  then show ?case unfolding step by auto
qed

lemma memcpy_words_spec:
  assumes "d + 4 * (i + left) \<le> s \<or> s + 4 * (i + left) \<le> d"
  shows "memcpy_words left i d s m x = (if d + 4 * i \<le> x \<and> x < d + 4 * (i + left) then m (s + (x - d)) else m x)"
  using assms
proof (induction left arbitrary: i m)
  case 0
  then show ?case by auto
next
  case (Suc left)
  have "d + 4 * (Suc i + left) \<le> s \<or> s + 4 * (Suc i + left) \<le> d" using Suc.prems by simp
  from Suc.IH [OF this, of "st32 (d + 4 * i) (ld32 m (s + 4 * i)) m"]
  have step: "memcpy_words (Suc left) i d s m x = (if d + 4 * Suc i \<le> x \<and> x < d + 4 * (Suc i + left)
      then st32 (d + 4 * i) (ld32 m (s + 4 * i)) m (s + (x - d)) else st32 (d + 4 * i) (ld32 m (s + 4 * i)) m x)"
    by (simp only: memcpy_words.simps One_nat_def add_Suc_right add_0_right)
  let ?m = "st32 (d + 4 * i) (ld32 m (s + 4 * i)) m"
  have other: "?m (s + (x - d)) = m (s + (x - d))" if "d + 4 * Suc i \<le> x \<and> x < d + 4 * (Suc i + left)"
  proof -
    have "s + (x - d) < d + 4 * i \<or> d + 4 * i + 4 \<le> s + (x - d)" using Suc.prems that by auto
    then show ?thesis by (rule st32_byte_other)
  qed
  have here: "?m x = m (s + (x - d))" if "d + 4 * i \<le> x \<and> x < d + 4 * i + 4"
  proof -
    have "s + 4 * i + (x - (d + 4 * i)) = s + (x - d)" using that by linarith
    then show ?thesis using that by (simp add: st32_ld32_byte)
  qed
  have out: "?m x = m x" if "x < d + 4 * i \<or> d + 4 * i + 4 \<le> x" using that by (rule st32_byte_other)
  show ?case unfolding step using here other out by auto
qed

lemma memcpy_spec:
  assumes "d + unat n \<le> s \<or> s + unat n \<le> d"
  shows "memcpy d s n m x = (if d \<le> x \<and> x < d + unat n then m (s + (x - d)) else m x)"
proof (cases "d mod 4 = 0 \<and> s mod 4 = 0 \<and> n mod 4 = 0")
  case True
  have n: "4 * unat (n div 4) = unat n"
  proof -
    have "unat (n mod 4) = unat (0 :: 64 word)" using True by simp
    then have "unat n mod 4 = 0" by (simp add: unat_mod)
    then have "4 * (unat n div 4) = unat n" by presburger
    then show ?thesis by (simp add: unat_div)
  qed
  show ?thesis
    using memcpy_words_spec [of d 0 "unat (n div 4)" s m x] assms True by (simp add: memcpy_def n)
next
  case False
  then have "memcpy d s n m = memcpy_bytes (unat n) 0 d s m" by (simp only: memcpy_def if_False)
  then show ?thesis using memcpy_bytes_spec [of d 0 "unat n" s m x] assms by simp
qed

lemma memcpy_bytes_at:
  "d + unat n \<le> s \<or> s + unat n \<le> d \<Longrightarrow> bytes_at (memcpy d s n m) d (unat n) = bytes_at m s (unat n)"
  by (rule nth_equalityI) (simp_all add: memcpy_spec)

lemma cstr_bytes:
  assumes "bytes_at m a k = cs" "length cs = k" "m (a + k) = 0" "0 \<notin> set cs" "k < n"
  shows "cstr n m a = Some cs"
  using assms
proof (induction k arbitrary: a n cs)
  case 0
  then show ?case by (cases n) auto
next
  case (Suc k)
  then show ?case by (cases n) (auto simp: bytes_at_Suc)
qed

section \<open>Ports\<close>

text \<open>
  A device of the machine, as what reading a port returns and what writing one does to its
  state \<open>'d\<close>. The devices are hardware: they are an argument of the code that uses them.
\<close>

record 'd device =
  dev_in :: "nat \<Rightarrow> 'd \<Rightarrow> byte \<times> 'd"
  dev_out :: "nat \<Rightarrow> byte \<Rightarrow> 'd \<Rightarrow> 'd"

definition inputb :: "('d, 'b) device_scheme \<Rightarrow> nat \<Rightarrow> 'd \<Rightarrow> byte \<times> 'd" where
  "inputb dev port d = dev_in dev port d"

definition outputb :: "('d, 'b) device_scheme \<Rightarrow> nat \<Rightarrow> byte \<Rightarrow> 'd \<Rightarrow> 'd" where
  "outputb dev port v d = dev_out dev port v d"

section \<open>The clock\<close>

definition intToString :: "int \<Rightarrow> addr \<Rightarrow> int \<Rightarrow> memory \<Rightarrow> memory" where
  "intToString n buffer digits m =
     m(buffer := word_of_int ((n sdiv 10) smod 10 + 48), buffer + 1 := word_of_int (n smod 10 + 48), buffer + 2 := 0)"

text \<open>What \<open>getTime\<close> computes from the register of the hours, and from the other two.\<close>

definition from_bcd_hour :: "byte \<Rightarrow> byte" where
  "from_bcd_hour h = word_of_int
     (((sint h AND 0x0F) + (((sint h AND 0x70) sdiv 16) * 10)) OR (sint h AND 0x80))"

definition from_bcd :: "byte \<Rightarrow> byte" where
  "from_bcd x = word_of_int ((sint x AND 0x0F) + ((sint x sdiv 16) * 10))"

definition getTime :: "('d, 'b) device_scheme \<Rightarrow> addr \<Rightarrow> memory \<Rightarrow> 'd \<Rightarrow> memory \<times> 'd" where
  "getTime dev buffer m d =
     (let (rh, d1) = inputb dev 0x71 (outputb dev 0x70 0x04 d);
          h = from_bcd_hour rh;
          (rm, d2) = inputb dev 0x71 (outputb dev 0x70 0x02 d1);
          mi = from_bcd rm;
          (rs, d3) = inputb dev 0x71 (outputb dev 0x70 0x00 d2);
          sec = from_bcd rs;
          m1 = intToString (sint h) buffer 2 m;
          m2 = m1(buffer + 2 := 58);
          m3 = intToString (sint mi) (buffer + 3) 2 m2;
          m4 = m3(buffer + 5 := 58)
      in (intToString (sint sec) (buffer + 6) 2 m4, d3))"

text \<open>A number below 100 in binary coded decimal, and its two digits as characters.\<close>

definition bcd :: "nat \<Rightarrow> byte" where
  "bcd n = of_nat (16 * (n div 10) + n mod 10)"

definition two_digits :: "nat \<Rightarrow> byte list" where
  "two_digits n = [of_nat (n div 10) + 48, of_nat (n mod 10) + 48]"

lemma bcd_word: "n < 80 \<Longrightarrow> uint (bcd n) = 16 * int (n div 10) + int (n mod 10) \<and> sint (bcd n) = 16 * int (n div 10) + int (n mod 10)"
proof -
  assume n: "n < 80"
  have "n div 10 < 8" "n mod 10 < 10" using n by simp_all
  then have b: "16 * (n div 10) + n mod 10 < 128" by linarith
  have u: "unat (bcd n) = 16 * (n div 10) + n mod 10"
    unfolding bcd_def unsigned_of_nat using b by (simp only: of_nat_id) (simp add: take_bit_nat_eq_self)
  have "uint (bcd n) = int (unat (bcd n))" by simp
  then have i: "uint (bcd n) = 16 * int (n div 10) + int (n mod 10)" using u by simp
  moreover have "sint (bcd n) = uint (bcd n)"
    using b unfolding sint_uint i by (simp add: signed_take_bit_int_eq_self)
  ultimately show ?thesis by simp
qed

lemma bcd_parts:
  assumes "(0 :: int) \<le> t" "t < 8" "0 \<le> u" "u < 10"
  shows "(16 * t + u) AND 15 = u" "((16 * t + u) AND 112) sdiv 16 = t" "(10 * t + u) AND 128 = 0"
    "(16 * t + u) AND 128 = 0"
proof -
  have "t \<in> {0, 1, 2, 3, 4, 5, 6, 7}" "u \<in> {0, 1, 2, 3, 4, 5, 6, 7, 8, 9}" using assms by (auto; presburger)+
  then show "(16 * t + u) AND 15 = u" "((16 * t + u) AND 112) sdiv 16 = t" "(10 * t + u) AND 128 = 0"
    "(16 * t + u) AND 128 = 0"
    by (elim insertE emptyE; simp)+
qed

lemma from_bcd_table:
  assumes "n < 80"
  shows "sint (from_bcd (bcd n)) = int n" "sint (from_bcd_hour (bcd n)) = int n"
proof -
  let ?t = "int (n div 10)" and ?u = "int (n mod 10)"
  note p = bcd_parts [of ?t ?u]
  have r: "0 \<le> ?t" "?t < 8" "0 \<le> ?u" "?u < 10" using assms by auto
  have n: "?u + 10 * ?t = int n" by presburger
  have s: "sint (word_of_int (int n) :: byte) = int n"
    using assms by (simp only: signed_of_int) (simp add: signed_take_bit_int_eq_self)
  have q: "(16 * ?t + ?u) sdiv 16 = ?t" using r by (simp add: signed_divide_int_def sgn_if)
  show "sint (from_bcd (bcd n)) = int n"
    using bcd_word [OF assms] p(1) [OF r] q n s by (simp add: from_bcd_def algebra_simps)
  show "sint (from_bcd_hour (bcd n)) = int n"
    using bcd_word [OF assms] p [OF r] n s by (simp add: from_bcd_hour_def algebra_simps)
qed

lemma intToString_digits:
  assumes "n < 100"
  shows "intToString (int n) a k m = m(a := two_digits n ! 0, a + 1 := two_digits n ! 1, a + 2 := 0)"
proof -
  have "(int n sdiv 10) smod 10 = int (n div 10)" "int n smod 10 = int (n mod 10)"
    using assms by (simp_all add: signed_divide_int_def signed_modulo_int_def sgn_if zdiv_int zmod_int)
  then show ?thesis by (simp add: intToString_def two_digits_def)
qed

text \<open>A clock that holds binary coded decimal in the registers 4, 2 and 0.\<close>

definition clock_reads :: "('d, 'b) device_scheme \<Rightarrow> nat \<Rightarrow> nat \<Rightarrow> nat \<Rightarrow> bool" where
  "clock_reads dev h m s \<longleftrightarrow>
     (\<forall>d. fst (inputb dev 0x71 (outputb dev 0x70 0x04 d)) = bcd h \<and>
          fst (inputb dev 0x71 (outputb dev 0x70 0x02 d)) = bcd m \<and>
          fst (inputb dev 0x71 (outputb dev 0x70 0x00 d)) = bcd s)"

text \<open>
  With a clock that holds binary coded decimal, \<open>getTime\<close> writes the time of day as
  \<open>hh:mm:ss\<close>, with its terminator the nine bytes of the buffer of its caller, for every time of a day.
\<close>

theorem getTime_shows_clock:
  assumes "clock_reads dev h mi sec" "h < 24" "mi < 60" "sec < 60"
  shows "cstr 9 (fst (getTime dev a m d)) a = Some (two_digits h @ [58] @ two_digits mi @ [58] @ two_digits sec)"
proof -
  have char: "(of_nat k + 48 :: byte) \<noteq> 0" if "k < 10" for k
  proof -
    have "unat (of_nat (k + 48) :: byte) = k + 48" using that by (simp only: unsigned_of_nat of_nat_id) (simp add: take_bit_nat_eq_self)
    then show ?thesis by (metis add_is_0 of_nat_add of_nat_numeral unat_0 zero_neq_numeral)
  qed
  note c = char [of "h div 10"] char [of "h mod 10"] char [of "mi div 10"] char [of "mi mod 10"]
    char [of "sec div 10"] char [of "sec mod 10"]
  have i: "h < 100" "mi < 100" "sec < 100" "h < 80" "mi < 80" "sec < 80" using assms by auto
  let ?m = "m(a := two_digits h ! 0, a + 1 := two_digits h ! 1, a + 2 := 58, a + 3 := two_digits mi ! 0,
     a + 4 := two_digits mi ! 1, a + 5 := 58, a + 6 := two_digits sec ! 0, a + 7 := two_digits sec ! 1, a + 8 := 0)"
  have "fst (getTime dev a m d) = ?m"
    using assms(1) i
    by (simp add: getTime_def split_beta clock_reads_def Let_def from_bcd_table intToString_digits ac_simps)
  moreover have "cstr 9 ?m a = Some [?m a, ?m (a + 1), ?m (a + 2), ?m (a + 3), ?m (a + 4), ?m (a + 5), ?m (a + 6), ?m (a + 7)]"
  proof (rule cstr_bytes)
    show "bytes_at ?m a 8 = [?m a, ?m (a + 1), ?m (a + 2), ?m (a + 3), ?m (a + 4), ?m (a + 5), ?m (a + 6), ?m (a + 7)]"
      by (simp add: bytes_at_def upt_rec)
  qed (use c i in \<open>simp_all add: two_digits_def\<close>)
  ultimately show ?thesis by (simp add: two_digits_def)
qed

text \<open>A clock that stands at 23:59:07; its state is the register that is selected.\<close>

definition ex_clock :: "byte device" where
  "ex_clock = \<lparr>dev_in = (\<lambda>port r. (bcd (if r = 4 then 23 else if r = 2 then 59 else 7), r)), dev_out = (\<lambda>port v r. v)\<rparr>"

theorem getTime_shows_clock_witness:
  "cstr 9 (fst (getTime ex_clock 100 (\<lambda>_. 255) 0)) 100 = Some [50, 51, 58, 53, 57, 58, 48, 55]"
  using getTime_shows_clock [of ex_clock 23 59 7 100 "\<lambda>_. 255" 0]
  by (simp add: clock_reads_def ex_clock_def inputb_def outputb_def two_digits_def)

text \<open>A word is copied like its four bytes, because two aligned words are equal or apart.\<close>

lemma copy_word:
  assumes "d mod 4 = 0" "s mod 4 = (0 :: nat)"
  shows "memcpy_bytes (Suc (Suc (Suc (Suc n)))) i d s m = memcpy_bytes n (i + 4) d s (st32 (d + i) (ld32 m (s + i)) m)"
proof -
  have apart: "s + (i + k) \<noteq> d + (i + j)" if "k < 4" "j < k" for j k using assms that by presburger
  note a = apart [of 1 0] apart [of 2 0] apart [of 2 1] apart [of 3 0] apart [of 3 1] apart [of 3 2]
  let ?m = "m(d + i := m (s + i), d + (i + 1) := m (s + (i + 1)), d + (i + 2) := m (s + (i + 2)), d + (i + 3) := m (s + (i + 3)))"
  have "memcpy_bytes (Suc (Suc (Suc (Suc n)))) i d s m = memcpy_bytes n (i + 4) d s ?m"
    using a by (simp add: numeral_eq_Suc fun_upd_twist)
  also have "?m = st32 (d + i) (ld32 m (s + i)) m"
  proof
    fix x
    have "x = d + i \<or> x = d + (i + 1) \<or> x = d + (i + 2) \<or> x = d + (i + 3) \<or> x < d + i \<or> d + i + 4 \<le> x" by linarith
    then show "?m x = st32 (d + i) (ld32 m (s + i)) m x" unfolding st32_ld32_byte by (auto simp: add.assoc)
  qed
  finally show ?thesis .
qed

lemma memcpy_words_bytes:
  assumes "d mod 4 = 0" "s mod 4 = (0 :: nat)"
  shows "memcpy_words left i d s m = memcpy_bytes (4 * left) (4 * i) d s m"
proof (induction left arbitrary: i m)
  case (Suc left)
  have "memcpy_words (Suc left) i d s m = memcpy_bytes (4 * left) (4 * i + 4) d s (st32 (d + 4 * i) (ld32 m (s + 4 * i)) m)"
    using Suc.IH [of "i + 1"] by (simp add: add.commute)
  then show ?case using copy_word [OF assms, of "4 * left" "4 * i" m] by (simp add: numeral_eq_Suc)
qed simp

text \<open>
  C20: \<open>memcpy\<close> does the same as the plain loop over the bytes, for every length and all
  addresses: the copy by words that it takes when both addresses and the length are
  multiples of four changes nothing, not even between places that overlap.
\<close>

theorem memcpy_is_bytewise:
  "memcpy destination source n m = memcpy_bytes (unat n) 0 destination source m"
proof (cases "destination mod 4 = 0 \<and> source mod 4 = 0 \<and> n mod 4 = 0")
  case True
  have "unat (n mod 4) = unat (0 :: 64 word)" using True by simp
  then have "unat n mod 4 = 0" by (simp add: unat_mod)
  then have "4 * unat (n div 4) = unat n" by (simp add: unat_div) presburger
  then show ?thesis using True memcpy_words_bytes [of destination source "unat (n div 4)" 0 m] by (simp add: memcpy_def)
next
  case False
  then show ?thesis unfolding memcpy_def by (simp only: if_False)
qed

end
