(* ===== verification/Video.thy ===== *)
theory Video
  imports Cstring
begin

text \<open>
  The text screen: \<open>Kernel/video.c\<close>. Two arrays of 25 rows and 80 columns hold characters and
  attributes and are copied to the memory of the screen; a cursor moves over them and the
  rows scroll. The lemmas show that the cursor stays on the screen, that a line jump ends,
  and that the screen shows what was printed.
\<close>

section \<open>State\<close>

definition SCREEN :: addr where "SCREEN = 0xB8000"
definition DEFAULT :: byte where "DEFAULT = 0x0F"
definition WIDTH :: int where "WIDTH = 80"
definition HEIGHT :: int where "HEIGHT = 25"

lemma screen_consts [simp]: "WIDTH = 80" "HEIGHT = 25"
  by (simp_all add: WIDTH_def HEIGHT_def)

text \<open>The arrays are functions of row and column; \<open>cur_i\<close> is the column, \<open>cur_j\<close> the row.\<close>

record vstate =
  video :: "int \<Rightarrow> int \<Rightarrow> byte"
  attributes :: "int \<Rightarrow> int \<Rightarrow> byte"
  cur_i :: int
  cur_j :: int
  mouseSelect :: "int \<Rightarrow> byte"
  select_size :: int
  iStartModule :: int
  jStartModule :: int
  stopBackWards :: int
  screen :: memory

definition upd2 :: "int \<Rightarrow> int \<Rightarrow> 'b \<Rightarrow> (int \<Rightarrow> int \<Rightarrow> 'b) \<Rightarrow> int \<Rightarrow> int \<Rightarrow> 'b" where
  "upd2 f c x g = g(f := (g f)(c := x))"

section \<open>Operations\<close>

definition validPosition :: "int \<Rightarrow> int \<Rightarrow> bool" where
  "validPosition f c \<longleftrightarrow> \<not> (f \<ge> HEIGHT \<or> c \<ge> WIDTH \<or> f < 0 \<or> c < 0)"

definition changeStartModule :: "int \<Rightarrow> int \<Rightarrow> 'a vstate_scheme \<Rightarrow> 'a vstate_scheme" where
  "changeStartModule f c s =
     (if f < 0 \<or> f > WIDTH \<or> c < 3 \<or> c > HEIGHT then s
      else s\<lparr>jStartModule := c, iStartModule := f, cur_i := f\<rparr>)"

definition changeStopBackwards :: "int \<Rightarrow> 'a vstate_scheme \<Rightarrow> 'a vstate_scheme" where
  "changeStopBackwards from_col s = s\<lparr>stopBackWards := from_col\<rparr>"

definition isBackwardsOn :: "'a vstate_scheme \<Rightarrow> bool" where
  "isBackwardsOn s \<longleftrightarrow> (if stopBackWards s = - 1 then True else stopBackWards s \<le> cur_i s)"

definition setCursor :: "int \<Rightarrow> int \<Rightarrow> 'a vstate_scheme \<Rightarrow> 'a vstate_scheme" where
  "setCursor f c s = (if \<not> validPosition f c then s else s\<lparr>cur_i := c, cur_j := f\<rparr>)"

definition screen_cell :: "int \<Rightarrow> int \<Rightarrow> addr" where
  "screen_cell f c = SCREEN + nat (f * WIDTH * 2 + c * 2)"

definition updateScreen :: "'a vstate_scheme \<Rightarrow> 'a vstate_scheme" where
  "updateScreen s =
     fold (\<lambda>c. fold (\<lambda>f s. s\<lparr>screen := (screen s)
            (screen_cell f c := video s f c, screen_cell f c + 1 := attributes s f c)\<rparr>) [0..HEIGHT - 1])
       [0..WIDTH - 1] s"

definition getScreen :: "int \<Rightarrow> int \<Rightarrow> 'a vstate_scheme \<Rightarrow> int" where
  "getScreen f c s = (if \<not> validPosition f c then - 1 else sint (video s f c))"

definition clearPosition :: "int \<Rightarrow> int \<Rightarrow> 'a vstate_scheme \<Rightarrow> 'a vstate_scheme" where
  "clearPosition f c s = (if \<not> validPosition f c then s else s\<lparr>video := upd2 f c 32 (video s)\<rparr>)"

definition clearRow :: "int \<Rightarrow> 'a vstate_scheme \<Rightarrow> 'a vstate_scheme" where
  "clearRow f s = fold (\<lambda>k. clearPosition f k) [0..WIDTH - 1] s"

definition copyRow :: "int \<Rightarrow> int \<Rightarrow> 'a vstate_scheme \<Rightarrow> 'a vstate_scheme" where
  "copyRow from_row to_row s =
     fold (\<lambda>k s. clearPosition from_row k (s\<lparr>video := upd2 to_row k (video s from_row k) (video s)\<rparr>)) [0..WIDTH - 1] s"

definition scroll :: "'a vstate_scheme \<Rightarrow> 'a vstate_scheme" where
  "scroll s =
     (let s1 = fold (\<lambda>auxf. copyRow auxf (auxf - 1)) [jStartModule s + 1..HEIGHT - 1] s;
          s2 = clearRow (HEIGHT - 1) s1
      in s2\<lparr>cur_j := HEIGHT - 1, cur_i := iStartModule s2\<rparr>)"

definition forwardCursor :: "'a vstate_scheme \<Rightarrow> 'a vstate_scheme" where
  "forwardCursor s =
     (if cur_i s = WIDTH - 1 then
        if cur_j s = HEIGHT - 1 then updateScreen (scroll s)
        else s\<lparr>cur_j := cur_j s + 1, cur_i := iStartModule s\<rparr>
      else s\<lparr>cur_i := cur_i s + 1\<rparr>)"

text \<open>The loop of \<open>lineJump\<close>; \<open>None\<close> when the cursor never reaches the next row.\<close>

partial_function (option) lineJump_loop :: "int \<Rightarrow> 'a vstate_scheme \<Rightarrow> 'a vstate_scheme option" where
  "lineJump_loop aux s = (if cur_j s \<noteq> aux then lineJump_loop aux (forwardCursor s) else Some s)"

definition lineJump :: "'a vstate_scheme \<Rightarrow> 'a vstate_scheme option" where
  "lineJump s =
     (if cur_j s = HEIGHT - 1 then Some (scroll s) else lineJump_loop (cur_j s + 1) s)"

definition backwardCursor :: "'a vstate_scheme \<Rightarrow> 'a vstate_scheme" where
  "backwardCursor s =
     (if cur_i s = iStartModule s then
        if cur_j s \<noteq> jStartModule s then s\<lparr>cur_j := cur_j s - 1, cur_i := WIDTH - 1\<rparr> else s
      else s\<lparr>cur_i := cur_i s - 1\<rparr>)"

definition backInLine :: "'a vstate_scheme \<Rightarrow> 'a vstate_scheme" where
  "backInLine s = (if cur_i s = iStartModule s then s else s\<lparr>cur_i := cur_i s - 1\<rparr>)"

definition printChar :: "int \<Rightarrow> int \<Rightarrow> byte \<Rightarrow> byte \<Rightarrow> 'a vstate_scheme \<Rightarrow> 'a vstate_scheme" where
  "printChar f c a color s =
     (if \<not> validPosition f c then s else updateScreen (s\<lparr>video := upd2 f c a (video s)\<rparr>))"

definition putChar :: "byte \<Rightarrow> 'a vstate_scheme \<Rightarrow> 'a vstate_scheme" where
  "putChar a s = forwardCursor (printChar (cur_j s) (cur_i s) a DEFAULT s)"

fun printMsg_loop :: "int \<Rightarrow> cstring \<Rightarrow> 'a vstate_scheme \<Rightarrow> 'a vstate_scheme" where
  "printMsg_loop i [] s = s"
| "printMsg_loop i (a # msg) s =
     (if \<not> validPosition (i sdiv WIDTH) (i smod WIDTH) then s
      else printMsg_loop (i + 1) msg (printChar (i sdiv WIDTH) (i smod WIDTH) a 0x20 s))"

definition printMsg :: "int \<Rightarrow> int \<Rightarrow> cstring \<Rightarrow> byte \<Rightarrow> 'a vstate_scheme \<Rightarrow> 'a vstate_scheme" where
  "printMsg f c msg color s = (if \<not> validPosition f c then s else printMsg_loop (f * WIDTH + c) msg s)"

definition printMsgCursor :: "cstring \<Rightarrow> 'a vstate_scheme \<Rightarrow> 'a vstate_scheme" where
  "printMsgCursor msg s = fold putChar msg s"

definition clear :: "'a vstate_scheme \<Rightarrow> 'a vstate_scheme" where
  "clear s =
     updateScreen (fold (\<lambda>f. fold (\<lambda>c s. s\<lparr>video := upd2 f c 32 (video s), attributes := upd2 f c DEFAULT (attributes s)\<rparr>)
       [0..WIDTH - 1]) [0..HEIGHT - 1] s)"

section \<open>Selection with the mouse\<close>

definition changeColor :: "int \<Rightarrow> int \<Rightarrow> byte \<Rightarrow> 'a vstate_scheme \<Rightarrow> 'a vstate_scheme" where
  "changeColor f c color s = s\<lparr>screen := (screen s)(screen_cell f c + 1 := color)\<rparr>"

definition drawMouse :: "int \<Rightarrow> int \<Rightarrow> 'a vstate_scheme \<Rightarrow> 'a vstate_scheme" where
  "drawMouse f c s = (if \<not> validPosition f c then s else s\<lparr>attributes := upd2 f c 0x30 (attributes s)\<rparr>)"

definition udrawMouse :: "int \<Rightarrow> int \<Rightarrow> 'a vstate_scheme \<Rightarrow> 'a vstate_scheme" where
  "udrawMouse f c s = (if \<not> validPosition f c then s else s\<lparr>attributes := upd2 f c DEFAULT (attributes s)\<rparr>)"

definition copyMouse :: "int \<Rightarrow> int \<Rightarrow> 'a vstate_scheme \<Rightarrow> 'a vstate_scheme" where
  "copyMouse initial end s =
     (let n = end - initial + 1 in
      fold (\<lambda>h s. let c = getScreen ((h + initial) sdiv WIDTH) ((h + initial) smod WIDTH) s;
                      a = word_of_int c :: byte
                  in s\<lparr>mouseSelect := (mouseSelect s)(h := if a = 0 then 32 else a)\<rparr>)
        [0..n - 1] (s\<lparr>select_size := n\<rparr>))"

text \<open>The loops of \<open>selection\<close> and \<open>undoSelection\<close> over the iterations that are left.\<close>

fun mark_loop :: "(int \<Rightarrow> int \<Rightarrow> 'a vstate_scheme \<Rightarrow> 'a vstate_scheme) \<Rightarrow> nat \<Rightarrow> int \<Rightarrow> 'a vstate_scheme \<Rightarrow> 'a vstate_scheme" where
  "mark_loop draw 0 i s = s"
| "mark_loop draw (Suc left) i s =
     (if validPosition (i sdiv WIDTH) (i smod WIDTH)
      then mark_loop draw left (i + 1) (draw (i sdiv WIDTH) (i smod WIDTH) s) else s)"

definition selection :: "int \<Rightarrow> int \<Rightarrow> int \<Rightarrow> int \<Rightarrow> 'a vstate_scheme \<Rightarrow> 'a vstate_scheme" where
  "selection finit cinit ffin cfin s =
     (let i = finit * WIDTH + cinit; fin = ffin * WIDTH + cfin
      in mark_loop drawMouse (nat (fin - i + 1)) i (copyMouse i fin s))"

definition undoSelection :: "int \<Rightarrow> int \<Rightarrow> int \<Rightarrow> int \<Rightarrow> 'a vstate_scheme \<Rightarrow> 'a vstate_scheme" where
  "undoSelection finit cinit ffin cfin s =
     (let i = finit * WIDTH + cinit; fin = ffin * WIDTH + cfin
      in mark_loop udrawMouse (nat (fin - i + 1)) i s)"

section \<open>The cursor\<close>

definition cursor_ok :: "'a vstate_scheme \<Rightarrow> bool" where
  "cursor_ok s \<longleftrightarrow> 0 \<le> cur_i s \<and> cur_i s < 80 \<and> 0 \<le> cur_j s \<and> cur_j s < 25 \<and>
     0 \<le> iStartModule s \<and> iStartModule s < 80 \<and> 3 \<le> jStartModule s"

text \<open>What only writes to the arrays and to the screen.\<close>

definition same_cursor :: "'a vstate_scheme \<Rightarrow> 'a vstate_scheme \<Rightarrow> bool" where
  "same_cursor s t \<longleftrightarrow> cur_i t = cur_i s \<and> cur_j t = cur_j s \<and> iStartModule t = iStartModule s \<and>
     jStartModule t = jStartModule s \<and> vstate.more t = vstate.more s"

lemma same_cursor_refl [simp]: "same_cursor s s"
  by (simp add: same_cursor_def)

lemma same_cursor_trans: "same_cursor s t \<Longrightarrow> same_cursor t u \<Longrightarrow> same_cursor s u"
  by (simp add: same_cursor_def)

lemma fold_same_cursor: "(\<And>x s. same_cursor s (g x s)) \<Longrightarrow> same_cursor s (fold g xs s)"
proof (induction xs arbitrary: s)
  case (Cons x xs)
  then show ?case using same_cursor_trans [of s "g x s"] by simp
qed simp

lemma same_cursor_writes [simp]:
  "same_cursor s (updateScreen s)" "same_cursor s (clearPosition f c s)" "same_cursor s (clearRow f s)"
  "same_cursor s (copyRow f f' s)" "same_cursor s (printChar f c a color s)"
proof -
  show u: "same_cursor s (updateScreen s)" for s :: "'a vstate_scheme"
    unfolding updateScreen_def by (intro fold_same_cursor) (simp add: same_cursor_def)
  show p: "same_cursor s (clearPosition f c s)" for f c and s :: "'a vstate_scheme"
    by (simp add: clearPosition_def same_cursor_def)
  show "same_cursor s (clearRow f s)" unfolding clearRow_def by (intro fold_same_cursor p)
  show "same_cursor s (copyRow f f' s)" unfolding copyRow_def
  proof (intro fold_same_cursor)
    fix k and s :: "'a vstate_scheme"
    have "same_cursor s (s\<lparr>video := upd2 f' k (video s f k) (video s)\<rparr>)" by (simp add: same_cursor_def)
    then show "same_cursor s (clearPosition f k (s\<lparr>video := upd2 f' k (video s f k) (video s)\<rparr>))"
      using same_cursor_trans p by blast
  qed
  show "same_cursor s (printChar f c a color s)"
    using u [of "s\<lparr>video := upd2 f c a (video s)\<rparr>"] by (simp add: printChar_def same_cursor_def)
qed

lemma scroll_cursor:
  "cur_j (scroll s) = 24 \<and> cur_i (scroll s) = iStartModule s \<and> iStartModule (scroll s) = iStartModule s \<and>
   jStartModule (scroll s) = jStartModule s \<and> vstate.more (scroll s) = vstate.more s"
proof -
  define t where "t = clearRow (HEIGHT - 1) (fold (\<lambda>auxf. copyRow auxf (auxf - 1)) [jStartModule s + 1..HEIGHT - 1] s)"
  have "same_cursor s t" unfolding t_def
    by (rule same_cursor_trans [OF fold_same_cursor same_cursor_writes(3)]) simp
  moreover have "scroll s = t\<lparr>cur_j := HEIGHT - 1, cur_i := iStartModule t\<rparr>" by (simp add: scroll_def t_def Let_def)
  ultimately show ?thesis by (simp add: same_cursor_def)
qed

lemma forwardCursor_effect:
  "cur_i (forwardCursor s) = (if cur_i s = 79 then iStartModule s else cur_i s + 1)"
  "cur_j (forwardCursor s) = (if cur_i s = 79 \<and> cur_j s \<noteq> 24 then cur_j s + 1 else cur_j s)"
  "iStartModule (forwardCursor s) = iStartModule s" "jStartModule (forwardCursor s) = jStartModule s"
  "vstate.more (forwardCursor s) = vstate.more s"
  using scroll_cursor [of s] same_cursor_writes(1) [of "scroll s"]
  by (auto simp: forwardCursor_def same_cursor_def)

lemma cursor_ok_forward [inv_pres]: "cursor_ok s \<Longrightarrow> cursor_ok (forwardCursor s)"
  by (auto simp: cursor_ok_def forwardCursor_effect)

lemma lineJump_loop_ends:
  "cursor_ok s \<Longrightarrow> cur_j s < 24 \<Longrightarrow> nat (79 - cur_i s) = n \<Longrightarrow>
   \<exists>t. lineJump_loop (cur_j s + 1) s = Some t \<and> cur_j t = cur_j s + 1 \<and> cur_i t = iStartModule s \<and>
     iStartModule t = iStartModule s \<and> jStartModule t = jStartModule s \<and> vstate.more t = vstate.more s"
proof (induction n arbitrary: s)
  case 0
  then have i: "cur_i s = 79" by (simp add: cursor_ok_def)
  let ?t = "forwardCursor s"
  have "cur_j ?t = cur_j s + 1" using i 0 by (simp add: forwardCursor_effect)
  then have "lineJump_loop (cur_j s + 1) s = Some ?t"
    by (subst lineJump_loop.simps) (simp add: lineJump_loop.simps [of _ ?t])
  then show ?case using i 0 by (simp add: forwardCursor_effect)
next
  case (Suc n)
  let ?t = "forwardCursor s"
  have i: "cur_i s < 79" using Suc.prems(3) by simp
  have t: "cur_j ?t = cur_j s" "cur_i ?t = cur_i s + 1" using i by (simp_all add: forwardCursor_effect)
  have "lineJump_loop (cur_j s + 1) s = lineJump_loop (cur_j ?t + 1) ?t"
    using t by (subst lineJump_loop.simps) simp
  moreover have "nat (79 - cur_i ?t) = n" using Suc.prems(3) t by simp
  ultimately show ?case
    using Suc.IH [of ?t] cursor_ok_forward [OF Suc.prems(1)] Suc.prems(2) t by (simp add: forwardCursor_effect)
qed

section \<open>What the screen shows\<close>

lemma screen_cell_int: "0 \<le> f \<Longrightarrow> 0 \<le> c \<Longrightarrow> int (screen_cell f c) = 0xB8000 + 160 * f + 2 * c"
  by (simp add: screen_cell_def SCREEN_def)

lemma screen_cell_eq:
  assumes "0 \<le> f" "f < 25" "0 \<le> c" "c < 80" "0 \<le> f'" "f' < 25" "0 \<le> c'" "c' < 80"
  shows "screen_cell f c = screen_cell f' c' \<longleftrightarrow> f = f' \<and> c = c'"
    "screen_cell f c \<noteq> screen_cell f' c' + 1" "screen_cell f c + 1 \<noteq> screen_cell f' c'"
proof -
  note i = screen_cell_int [OF assms(1,3)] screen_cell_int [OF assms(5,7)]
  have "screen_cell f c = screen_cell f' c' \<longleftrightarrow> 160 * f + 2 * c = 160 * f' + 2 * c'" using i by linarith
  also have "\<dots> \<longleftrightarrow> f = f' \<and> c = c'"
  proof
    assume "160 * f + 2 * c = 160 * f' + 2 * c'"
    then have e: "80 * f + c = 80 * f' + c'" by simp
    have "(80 * f + c) div 80 = f" "(80 * f' + c') div 80 = f'" using assms by simp_all
    then have "f = f'" using e by simp
    then show "f = f' \<and> c = c'" using e by simp
  qed simp
  finally show "screen_cell f c = screen_cell f' c' \<longleftrightarrow> f = f' \<and> c = c'" .
  have odd: "2 * x \<noteq> 2 * y + 1" for x y :: int by presburger
  show "screen_cell f c \<noteq> screen_cell f' c' + 1"
  proof
    assume "screen_cell f c = screen_cell f' c' + 1"
    then have "int (screen_cell f c) = int (screen_cell f' c') + 1" by simp
    then have "2 * (80 * f + c) = 2 * (80 * f' + c') + 1" unfolding i by simp
    with odd show False by blast
  qed
  show "screen_cell f c + 1 \<noteq> screen_cell f' c'"
  proof
    assume "screen_cell f c + 1 = screen_cell f' c'"
    then have "int (screen_cell f' c') = int (screen_cell f c) + 1" by simp
    then have "2 * (80 * f' + c') = 2 * (80 * f + c) + 1" unfolding i by simp
    with odd show False by blast
  qed
qed

text \<open>The cells of one column that \<open>updateScreen\<close> writes.\<close>

definition write_cell :: "int \<Rightarrow> int \<Rightarrow> 'a vstate_scheme \<Rightarrow> 'a vstate_scheme" where
  "write_cell c f s = s\<lparr>screen := (screen s)
     (screen_cell f c := video s f c, screen_cell f c + 1 := attributes s f c)\<rparr>"

definition shows_at :: "'a vstate_scheme \<Rightarrow> int \<Rightarrow> int \<Rightarrow> bool" where
  "shows_at s f c \<longleftrightarrow> screen s (screen_cell f c) = video s f c \<and> screen s (screen_cell f c + 1) = attributes s f c"

lemma write_cell_shows:
  assumes "0 \<le> f" "f < 25" "0 \<le> c" "c < 80" "0 \<le> f'" "f' < 25" "0 \<le> c'" "c' < 80"
  shows "shows_at (write_cell c f s) f' c' \<longleftrightarrow> f = f' \<and> c = c' \<or> shows_at s f' c'"
  using screen_cell_eq [OF assms] screen_cell_eq [OF assms(5-8,1-4)]
  by (auto simp: write_cell_def shows_at_def)

lemma column_shows:
  "(\<forall>f \<in> set fs. 0 \<le> f \<and> f < 25) \<Longrightarrow> 0 \<le> c \<Longrightarrow> c < 80 \<Longrightarrow> 0 \<le> f' \<Longrightarrow> f' < 25 \<Longrightarrow> 0 \<le> c' \<Longrightarrow> c' < 80 \<Longrightarrow>
   shows_at (fold (write_cell c) fs s) f' c' \<longleftrightarrow> f' \<in> set fs \<and> c = c' \<or> shows_at s f' c'"
  by (induction fs arbitrary: s) (auto simp: write_cell_shows)

lemma columns_show:
  "(\<forall>c \<in> set cs. 0 \<le> c \<and> c < 80) \<Longrightarrow> 0 \<le> f' \<Longrightarrow> f' < 25 \<Longrightarrow> 0 \<le> c' \<Longrightarrow> c' < 80 \<Longrightarrow>
   shows_at (fold (\<lambda>c. fold (write_cell c) [0..24]) cs s) f' c' \<longleftrightarrow> c' \<in> set cs \<or> shows_at s f' c'"
  by (induction cs arbitrary: s) (auto simp: column_shows)

lemma fold_keeps:
  "(\<And>x s. P s = P (g x s)) \<Longrightarrow> P (fold g xs s) = P s"
  by (induction xs arbitrary: s) auto

lemma updateScreen_alt: "updateScreen s = fold (\<lambda>c. fold (write_cell c) [0..24]) [0..79] s"
  by (simp add: updateScreen_def write_cell_def [abs_def])

lemma updateScreen_keeps [simp]:
  "video (updateScreen s) = video s" "attributes (updateScreen s) = attributes s"
  unfolding updateScreen_alt by (rule fold_keeps, rule sym, rule fold_keeps, simp add: write_cell_def)+

lemma updateScreen_shows: "validPosition f c \<Longrightarrow> shows_at (updateScreen s) f c"
  unfolding updateScreen_alt by (subst columns_show) (auto simp: validPosition_def)

section \<open>An example state\<close>

definition ex_vstate :: vstate where
  "ex_vstate = \<lparr>video = (\<lambda>_ _. 32), attributes = (\<lambda>_ _. DEFAULT), cur_i = 5, cur_j = 4, mouseSelect = (\<lambda>_. 0),
     select_size = 0, iStartModule = 0, jStartModule = 3, stopBackWards = - 1, screen = (\<lambda>_. 0)\<rparr>"

lemma cursor_ok_ex: "cursor_ok ex_vstate"
  by (simp add: cursor_ok_def ex_vstate_def)

section \<open>Properties\<close>

text \<open>
  C18: as long as the cursor and the left margin are on the screen a line jump ends: the
  cursor is at the left margin of the next row, or of the last row after the screen
  scrolled, and it stays on the screen.
\<close>

theorem lineJump_reaches_next_row:
  assumes "cursor_ok s"
  shows "\<exists>t. lineJump s = Some t \<and> cursor_ok t \<and> cur_i t = iStartModule s \<and>
    cur_j t = (if cur_j s = HEIGHT - 1 then HEIGHT - 1 else cur_j s + 1)"
proof (cases "cur_j s = 24")
  case True
  then show ?thesis
    using scroll_cursor [of s] assms by (auto simp: lineJump_def cursor_ok_def)
next
  case False
  then have "cur_j s < 24" using assms by (simp add: cursor_ok_def)
  then show ?thesis
    using lineJump_loop_ends [OF assms _ refl] False assms by (auto simp: lineJump_def cursor_ok_def)
qed

theorem lineJump_reaches_next_row_witness:
  "\<exists>t. lineJump ex_vstate = Some t \<and> cur_i t = 0 \<and> cur_j t = 5"
  using lineJump_reaches_next_row [OF cursor_ok_ex] by (auto simp: ex_vstate_def)

text \<open>
  \<open>putChar\<close> puts the character where the cursor is: unless the screen scrolls, the memory
  of the screen shows it there, every other position keeps its character, and the cursor
  moves to the next position and stays on the screen.
\<close>

theorem putChar_shows_and_advances:
  assumes "cursor_ok s"
  shows "cursor_ok (putChar a s) \<and>
    (\<not> (cur_i s = WIDTH - 1 \<and> cur_j s = HEIGHT - 1) \<longrightarrow>
       screen (putChar a s) (screen_cell (cur_j s) (cur_i s)) = a \<and>
       video (putChar a s) = upd2 (cur_j s) (cur_i s) a (video s) \<and>
       (if cur_i s = WIDTH - 1 then cur_i (putChar a s) = iStartModule s \<and> cur_j (putChar a s) = cur_j s + 1
        else cur_i (putChar a s) = cur_i s + 1 \<and> cur_j (putChar a s) = cur_j s))"
proof -
  let ?p = "printChar (cur_j s) (cur_i s) a DEFAULT s"
  have v: "validPosition (cur_j s) (cur_i s)" using assms by (simp add: cursor_ok_def validPosition_def)
  have sc: "same_cursor s ?p" by simp
  have ok: "cursor_ok ?p" using sc assms by (simp add: same_cursor_def cursor_ok_def)
  have p: "video ?p = upd2 (cur_j s) (cur_i s) a (video s)" "screen ?p (screen_cell (cur_j s) (cur_i s)) = a"
    using v updateScreen_shows [OF v, of "s\<lparr>video := upd2 (cur_j s) (cur_i s) a (video s)\<rparr>"]
    by (simp_all add: printChar_def shows_at_def upd2_def)
  have f: "video (forwardCursor ?p) = video ?p \<and> screen (forwardCursor ?p) = screen ?p"
    if "\<not> (cur_i s = 79 \<and> cur_j s = 24)"
    using that sc by (auto simp: forwardCursor_def same_cursor_def)
  show ?thesis
    using cursor_ok_forward [OF ok] p f sc
    by (auto simp: putChar_def forwardCursor_effect same_cursor_def)
qed

theorem putChar_shows_and_advances_witness:
  "screen (putChar 65 ex_vstate) (screen_cell 4 5) = 65 \<and> cur_i (putChar 65 ex_vstate) = 6"
  using putChar_shows_and_advances [OF cursor_ok_ex, of 65] by (simp add: ex_vstate_def)

end
