(* ===== verification/Ring.thy ===== *)
theory Ring
  imports Memory
begin

text \<open>
  Bytes in a circular buffer: the pipes and the terminal keep a first position and a count
  or a last position in an array of fixed length. \<open>ring_bytes m base len pos n\<close> are the \<open>n\<close>
  bytes from position \<open>pos\<close> on. The interface says what a buffer of bytes promises, first
  in, first out; what follows from it for whole strings is proved once.
\<close>

definition ring_bytes :: "memory \<Rightarrow> addr \<Rightarrow> nat \<Rightarrow> nat \<Rightarrow> nat \<Rightarrow> byte list" where
  "ring_bytes m base len pos n = map (\<lambda>k. m (base + (pos + k) mod len)) [0..<n]"

lemma length_ring_bytes [simp]: "length (ring_bytes m base len pos n) = n"
  by (simp add: ring_bytes_def)

lemma ring_bytes_0 [simp]: "ring_bytes m base len pos 0 = []"
  by (simp add: ring_bytes_def)

lemma ring_slot_neq:
  assumes "k < n" "n < (len::nat)"
  shows "(pos + k) mod len \<noteq> (pos + n) mod len"
proof
  assume "(pos + k) mod len = (pos + n) mod len"
  then have "len dvd (pos + n) - (pos + k)" using assms by (intro mod_eq_dvd_iff_nat [THEN iffD1]) auto
  then have "len dvd n - k" by simp
  with assms show False by (auto dest: dvd_imp_le)
qed

lemma ring_bytes_put:
  assumes "n < len"
  shows "ring_bytes (m(base + (pos + n) mod len := c)) base len pos (Suc n) = ring_bytes m base len pos n @ [c]"
  using ring_slot_neq [OF _ assms, of _ pos] by (auto simp: ring_bytes_def intro!: map_cong)

lemma ring_bytes_get:
  assumes "pos < len"
  shows "ring_bytes m base len pos (Suc n) = m (base + pos) # ring_bytes m base len (Suc pos mod len) n"
proof -
  have "[0..<Suc n] = 0 # map Suc [0..<n]" by (metis map_Suc_upt upt_conv_Cons zero_less_Suc)
  then show ?thesis using assms by (simp add: ring_bytes_def mod_add_left_eq o_def)
qed

lemma ring_bytes_other:
  assumes "0 < len" "a < base \<or> base + len \<le> a"
  shows "ring_bytes (m(a := c)) base len pos n = ring_bytes m base len pos n"
proof -
  have "base + (pos + k) mod len \<noteq> a" for k using assms mod_less_divisor [OF assms(1), of "pos + k"] by linarith
  then show ?thesis by (simp add: ring_bytes_def)
qed

section \<open>The interface\<close>

locale byte_fifo =
  fixes put :: "byte \<Rightarrow> 's \<Rightarrow> 's"
    and get :: "'s \<Rightarrow> byte \<times> 's"
    and content :: "'s \<Rightarrow> byte list"
    and ok :: "'s \<Rightarrow> bool"
    and capacity :: nat
  assumes put_appends: "ok s \<Longrightarrow> length (content s) < capacity \<Longrightarrow> ok (put c s) \<and> content (put c s) = content s @ [c]"
    and get_pops: "ok s \<Longrightarrow> content s \<noteq> [] \<Longrightarrow> ok (snd (get s)) \<and> fst (get s) # content (snd (get s)) = content s"
begin

fun put_all :: "byte list \<Rightarrow> 's \<Rightarrow> 's" where
  "put_all [] s = s"
| "put_all (c # cs) s = put_all cs (put c s)"

fun get_n :: "nat \<Rightarrow> 's \<Rightarrow> byte list \<times> 's" where
  "get_n 0 s = ([], s)"
| "get_n (Suc n) s = (let (c, s1) = get s; (cs, s2) = get_n n s1 in (c # cs, s2))"

lemma put_all_appends:
  "ok s \<Longrightarrow> length (content s) + length cs \<le> capacity \<Longrightarrow>
   ok (put_all cs s) \<and> content (put_all cs s) = content s @ cs"
proof (induction cs arbitrary: s)
  case Nil
  then show ?case by simp
next
  case (Cons c cs)
  then show ?case using put_appends [OF Cons.prems(1), of c] by simp
qed

lemma get_n_pops:
  "ok s \<Longrightarrow> n \<le> length (content s) \<Longrightarrow>
   ok (snd (get_n n s)) \<and> fst (get_n n s) = take n (content s) \<and> content (snd (get_n n s)) = drop n (content s)"
proof (induction n arbitrary: s)
  case 0
  then show ?case by simp
next
  case (Suc n)
  then have ne: "content s \<noteq> []" by auto
  have g: "ok (snd (get s))" "content s = fst (get s) # content (snd (get s))"
    using get_pops [OF Suc.prems(1) ne] by simp_all
  then have "n \<le> length (content (snd (get s)))" using Suc.prems(2) by (metis length_Cons Suc_le_mono)
  from Suc.IH [OF g(1) this] show ?case
    by (subst (1 2) g(2)) (simp add: split_beta)
qed

text \<open>Nothing is lost, repeated or reordered between the two ends.\<close>

lemma first_in_first_out:
  assumes "ok s" "length (content s) + length cs \<le> capacity"
  shows "fst (get_n (length (content s) + length cs) (put_all cs s)) = content s @ cs"
  using put_all_appends [OF assms] get_n_pops [of "put_all cs s" "length (content s) + length cs"] by simp

end

section \<open>The circular buffer provides it\<close>

text \<open>A buffer as memory, first position and count.\<close>

record ring_buf =
  rb_mem :: memory
  rb_pos :: nat
  rb_count :: nat

definition rb_put :: "addr \<Rightarrow> nat \<Rightarrow> byte \<Rightarrow> ring_buf \<Rightarrow> ring_buf" where
  "rb_put base len c r = r\<lparr>rb_mem := (rb_mem r)(base + (rb_pos r + rb_count r) mod len := c),
     rb_count := rb_count r + 1\<rparr>"

definition rb_get :: "addr \<Rightarrow> nat \<Rightarrow> ring_buf \<Rightarrow> byte \<times> ring_buf" where
  "rb_get base len r = (rb_mem r (base + rb_pos r),
     r\<lparr>rb_pos := Suc (rb_pos r) mod len, rb_count := rb_count r - 1\<rparr>)"

definition rb_bytes :: "addr \<Rightarrow> nat \<Rightarrow> ring_buf \<Rightarrow> byte list" where
  "rb_bytes base len r = ring_bytes (rb_mem r) base len (rb_pos r) (rb_count r)"

definition rb_ok :: "nat \<Rightarrow> ring_buf \<Rightarrow> bool" where
  "rb_ok len r \<longleftrightarrow> rb_pos r < len \<and> rb_count r \<le> len"

interpretation rb: byte_fifo "rb_put base len" "rb_get base len" "rb_bytes base len" "rb_ok len" len
  for base len
proof
  fix s c
  assume "rb_ok len s" "length (rb_bytes base len s) < len"
  then show "rb_ok len (rb_put base len c s) \<and> rb_bytes base len (rb_put base len c s) = rb_bytes base len s @ [c]"
    using ring_bytes_put [of "rb_count s" len] by (simp add: rb_ok_def rb_bytes_def rb_put_def)
next
  fix s
  assume ok: "rb_ok len s" and ne: "rb_bytes base len s \<noteq> []"
  then obtain n where n: "rb_count s = Suc n" by (cases "rb_count s") (auto simp: rb_bytes_def)
  have "0 < len" using ok by (simp add: rb_ok_def)
  then show "rb_ok len (snd (rb_get base len s)) \<and>
      fst (rb_get base len s) # rb_bytes base len (snd (rb_get base len s)) = rb_bytes base len s"
    using ok n ring_bytes_get [of "rb_pos s" len] by (simp add: rb_ok_def rb_bytes_def rb_get_def)
qed

lemma put_all_pos:
  "rb_pos (rb.put_all base len cs r) = rb_pos r \<and> rb_count (rb.put_all base len cs r) = rb_count r + length cs"
  by (induction cs arbitrary: r) (simp_all add: rb_put_def)

end
