(* ===== verification/Terminal.thy ===== *)
theory Terminal
  imports Video Ring
begin

text \<open>
  The input buffer between keyboard and programs, \<open>Kernel/terminal.c\<close>: a circular buffer of
  2500 bytes with the position to read from and the position to write to, and the echo on
  the screen. The lemmas show that it is first in, first out, and what happens when it
  overflows. \<open>cli\<close> and \<open>sti\<close> have no effect on this state: the code runs with interrupts off.
\<close>

section \<open>State\<close>

definition BUFFERSIZE :: nat where "BUFFERSIZE = 2500"

text \<open>\<open>Buffer_addr\<close> is where the linker put the array \<open>Buffer\<close>, whose bytes are in \<open>tmem\<close>.\<close>

record tstate = vstate +
  tmem :: memory
  Buffer_addr :: addr
  bufferConsume :: addr
  bufferPosition :: addr
  bufferStart :: addr
  bufferSize :: nat
  isEcho :: bool

section \<open>Operations\<close>

definition isBufferFull :: "'a tstate_scheme \<Rightarrow> bool" where
  "isBufferFull s \<longleftrightarrow> bufferConsume s = bufferPosition s + 1 \<or>
     (bufferConsume s = bufferStart s + bufferSize s \<and> bufferPosition s = bufferStart s)"

definition isBufferEmpty :: "'a tstate_scheme \<Rightarrow> bool" where
  "isBufferEmpty s \<longleftrightarrow> bufferConsume s = bufferPosition s"

definition echoON :: "'a tstate_scheme \<Rightarrow> 'a tstate_scheme" where "echoON s = s\<lparr>isEcho := True\<rparr>"
definition echoOF :: "'a tstate_scheme \<Rightarrow> 'a tstate_scheme" where "echoOF s = s\<lparr>isEcho := False\<rparr>"

definition terminalInitializeC :: "'a tstate_scheme \<Rightarrow> 'a tstate_scheme" where
  "terminalInitializeC s = s\<lparr>bufferConsume := Buffer_addr s, bufferStart := Buffer_addr s,
     bufferPosition := Buffer_addr s, bufferSize := BUFFERSIZE, isEcho := True\<rparr>"

definition putTerminalBuffer :: "byte \<Rightarrow> 'a tstate_scheme \<Rightarrow> 'a tstate_scheme option" where
  "putTerminalBuffer c s =
     (if isBufferFull s then Some s
      else
        let s1 = s\<lparr>tmem := (tmem s)(bufferPosition s := c)\<rparr> in
        case (if c = 8 then Some (backInLine (putChar 32 (backInLine s1)))
              else if c = 10 then lineJump s1
              else if isEcho s1 then Some (putChar (tmem s1 (bufferPosition s1)) s1)
              else Some s1) of
          None \<Rightarrow> None
        | Some s2 \<Rightarrow>
            let s3 = s2\<lparr>bufferPosition := bufferPosition s2 + 1\<rparr>
            in Some (if bufferPosition s3 = bufferStart s3 + bufferSize s3
                     then s3\<lparr>bufferPosition := bufferStart s3\<rparr> else s3))"

text \<open>The loop of \<open>getTerminalBuffer\<close>; the bytes it stores into the caller's buffer are its result.\<close>

fun getTerminalBuffer_loop :: "nat \<Rightarrow> 'a tstate_scheme \<Rightarrow> byte list \<times> 'a tstate_scheme" where
  "getTerminalBuffer_loop 0 s = ([], s)"
| "getTerminalBuffer_loop (Suc n) s =
     (if isBufferEmpty s then ([], s)
      else
        let c = tmem s (bufferConsume s);
            s1 = s\<lparr>bufferConsume := bufferConsume s + 1\<rparr>;
            s2 = (if bufferConsume s1 = bufferStart s1 + bufferSize s1 then s1\<lparr>bufferConsume := bufferStart s1\<rparr> else s1);
            (cs, s3) = getTerminalBuffer_loop n s2
        in (c # cs, s3))"

definition getTerminalBuffer :: "nat \<Rightarrow> 'a tstate_scheme \<Rightarrow> byte list \<times> 'a tstate_scheme" where
  "getTerminalBuffer n s = getTerminalBuffer_loop n s"

definition resetBuffer :: "'a tstate_scheme \<Rightarrow> 'a tstate_scheme" where
  "resetBuffer s = (let s1 = s\<lparr>bufferPosition := bufferStart s\<rparr> in s1\<lparr>bufferConsume := bufferStart s1\<rparr>)"

text \<open>\<open>paste\<close> of \<open>video.c\<close> types the selected characters into the terminal.\<close>

fun paste_loop :: "nat \<Rightarrow> int \<Rightarrow> 'a tstate_scheme \<Rightarrow> 'a tstate_scheme option" where
  "paste_loop 0 h s = Some s"
| "paste_loop (Suc left) h s =
     (case putTerminalBuffer (mouseSelect s h) s of None \<Rightarrow> None | Some s1 \<Rightarrow> paste_loop left (h + 1) s1)"

definition paste :: "'a tstate_scheme \<Rightarrow> 'a tstate_scheme option" where
  "paste s = paste_loop (nat (select_size s)) 0 s"

section \<open>The content of the buffer\<close>

definition term_ok :: "'a tstate_scheme \<Rightarrow> bool" where
  "term_ok s \<longleftrightarrow> bufferSize s = BUFFERSIZE \<and>
     bufferStart s \<le> bufferConsume s \<and> bufferConsume s < bufferStart s + BUFFERSIZE \<and>
     bufferStart s \<le> bufferPosition s \<and> bufferPosition s < bufferStart s + BUFFERSIZE"

definition term_count :: "'a tstate_scheme \<Rightarrow> nat" where
  "term_count s = (if bufferConsume s \<le> bufferPosition s then bufferPosition s - bufferConsume s
     else bufferPosition s + BUFFERSIZE - bufferConsume s)"

definition pending :: "'a tstate_scheme \<Rightarrow> byte list" where
  "pending s = ring_bytes (tmem s) (bufferStart s) BUFFERSIZE (bufferConsume s - bufferStart s) (term_count s)"

lemma length_pending [simp]: "length (pending s) = term_count s"
  by (simp add: pending_def)

lemma term_position:
  "term_ok s \<Longrightarrow> bufferPosition s - bufferStart s = (bufferConsume s - bufferStart s + term_count s) mod BUFFERSIZE"
  by (auto simp: term_ok_def term_count_def BUFFERSIZE_def mod_if)

lemma term_count_less: "term_ok s \<Longrightarrow> term_count s < BUFFERSIZE"
  by (auto simp: term_ok_def term_count_def)

text \<open>The echo changes the screen and the cursor only.\<close>

definition same_buffer :: "'a tstate_scheme \<Rightarrow> 'a tstate_scheme \<Rightarrow> bool" where
  "same_buffer s t \<longleftrightarrow> vstate.more t = vstate.more s"

lemma same_bufferD:
  assumes "same_buffer s t"
  shows "tmem t = tmem s" "bufferConsume t = bufferConsume s" "bufferPosition t = bufferPosition s"
    "bufferStart t = bufferStart s" "bufferSize t = bufferSize s" "isEcho t = isEcho s"
  using assms unfolding same_buffer_def by (cases s; cases t; simp)+

lemma same_buffer_echo:
  "same_buffer s (backInLine s)" "same_buffer s (putChar a s)"
  "cursor_ok s \<Longrightarrow> \<exists>t. lineJump s = Some t \<and> same_buffer s t \<and> cursor_ok t"
proof -
  show "same_buffer s (backInLine s)" by (simp add: same_buffer_def backInLine_def)
  show "same_buffer s (putChar a s)"
    using same_cursor_writes(5) [of s "cur_j s" "cur_i s" a DEFAULT]
    by (simp add: same_buffer_def putChar_def forwardCursor_effect same_cursor_def)
  show "\<exists>t. lineJump s = Some t \<and> same_buffer s t \<and> cursor_ok t" if ok: "cursor_ok s"
  proof (cases "cur_j s = 24")
    case True
    then show ?thesis using scroll_cursor [of s] ok by (auto simp: lineJump_def same_buffer_def cursor_ok_def)
  next
    case False
    then have "cur_j s < 24" using ok by (simp add: cursor_ok_def)
    then show ?thesis
      using lineJump_loop_ends [OF ok _ refl] False ok by (auto simp: lineJump_def same_buffer_def cursor_ok_def)
  qed
qed

text \<open>Going back keeps the cursor on the screen when it is not left of the margin.\<close>

lemma cursor_ok_putChar: "cursor_ok s \<Longrightarrow> cursor_ok (putChar a s)"
  using same_cursor_writes(5) [of s "cur_j s" "cur_i s" a DEFAULT]
  unfolding putChar_def by (intro cursor_ok_forward) (simp add: same_cursor_def cursor_ok_def)

lemma cursor_ok_back: "cursor_ok s \<Longrightarrow> cur_i s \<noteq> 0 \<or> iStartModule s = 0 \<Longrightarrow> cursor_ok (backInLine s)"
  by (auto simp: cursor_ok_def backInLine_def)

lemma put_echo:
  assumes "cursor_ok s"
  shows "\<exists>t. (if c = 8 then Some (backInLine (putChar 32 (backInLine s)))
      else if c = 10 then lineJump s else if isEcho s then Some (putChar a s) else Some s) = Some t \<and> same_buffer s t"
proof -
  have "same_buffer s (backInLine (putChar 32 (backInLine s)))"
    using same_buffer_echo(1) [of "putChar 32 (backInLine s)"] same_buffer_echo(2) [of "backInLine s" 32]
      same_buffer_echo(1) [of s] by (simp add: same_buffer_def)
  then show ?thesis using same_buffer_echo [of s] assms by (auto simp: same_buffer_def)
qed

lemma put_not_full:
  assumes ok: "term_ok s" "cursor_ok s" and nf: "\<not> isBufferFull s"
  shows "\<exists>t. putTerminalBuffer c s = Some t \<and> term_ok t \<and> bufferStart t = bufferStart s \<and>
    bufferConsume t = bufferConsume s \<and> tmem t = (tmem s)(bufferPosition s := c) \<and>
    bufferPosition t = (if bufferPosition s + 1 = bufferStart s + BUFFERSIZE then bufferStart s else bufferPosition s + 1)"
proof -
  let ?s1 = "s\<lparr>tmem := (tmem s)(bufferPosition s := c)\<rparr>"
  have "cursor_ok ?s1" using ok(2) by (simp add: cursor_ok_def)
  then obtain u where u: "(if c = 8 then Some (backInLine (putChar 32 (backInLine ?s1)))
      else if c = 10 then lineJump ?s1 else if isEcho ?s1 then Some (putChar (tmem ?s1 (bufferPosition ?s1)) ?s1) else Some ?s1)
      = Some u" "same_buffer ?s1 u"
    using put_echo [of ?s1 c "tmem ?s1 (bufferPosition ?s1)"] by blast
  note b = same_bufferD [OF u(2)]
  define v where "v = u\<lparr>bufferPosition := bufferPosition u + 1\<rparr>"
  define t where "t = (if bufferPosition v = bufferStart v + bufferSize v then v\<lparr>bufferPosition := bufferStart v\<rparr> else v)"
  have "putTerminalBuffer c s = Some t"
    unfolding putTerminalBuffer_def Let_def if_not_P [OF nf] u(1) option.case t_def v_def ..
  then show ?thesis using ok(1) b by (intro exI [of _ t]) (auto simp: t_def v_def term_ok_def BUFFERSIZE_def)
qed

section \<open>An example state\<close>

definition ex_tstate :: tstate where
  "ex_tstate = vstate.extend ex_vstate
     \<lparr>tmem = (\<lambda>_. 0)(9000 := 65, 9001 := 66), Buffer_addr = 9000, bufferConsume = 9000, bufferPosition = 9002,
      bufferStart = 9000, bufferSize = 2500, isEcho = True\<rparr>"

lemma ex_tstate_simps [simp]:
  "bufferConsume ex_tstate = 9000" "bufferPosition ex_tstate = 9002" "bufferStart ex_tstate = 9000"
  "tmem ex_tstate = (\<lambda>_. 0)(9000 := 65, 9001 := 66)" "term_count ex_tstate = 2"
  by (simp_all add: ex_tstate_def vstate.defs term_count_def)

lemma ok_ex_tstate: "term_ok ex_tstate" "cursor_ok ex_tstate"
  by (simp_all add: ex_tstate_def vstate.defs term_ok_def BUFFERSIZE_def cursor_ok_def ex_vstate_def)

lemma pending_ex: "pending ex_tstate = [65, 66]"
proof -
  have "[0..<2] = [0, 1 :: nat]" by (simp add: upt_rec)
  then show ?thesis by (simp add: pending_def ring_bytes_def BUFFERSIZE_def)
qed

section \<open>Properties\<close>

lemma putTerminalBuffer_effect:
  assumes "term_ok s" "cursor_ok s"
  shows "\<exists>t. putTerminalBuffer c s = Some t \<and> term_ok t \<and>
    (length (pending s) < BUFFERSIZE - 1 \<longrightarrow> pending t = pending s @ [c]) \<and>
    (length (pending s) = BUFFERSIZE - 1 \<longrightarrow>
       (if bufferConsume s = bufferStart s then pending t = [] else t = s))"
proof (cases "isBufferFull s")
  case True
  then have "putTerminalBuffer c s = Some s" by (simp add: putTerminalBuffer_def)
  moreover have "term_count s = BUFFERSIZE - 1 \<and> bufferConsume s \<noteq> bufferStart s"
    using True assms(1) by (auto simp: isBufferFull_def term_ok_def term_count_def BUFFERSIZE_def)
  ultimately show ?thesis using assms(1) by simp
next
  case False
  obtain t where t: "putTerminalBuffer c s = Some t" "term_ok t" "bufferStart t = bufferStart s"
    "bufferConsume t = bufferConsume s" "tmem t = (tmem s)(bufferPosition s := c)"
    "bufferPosition t = (if bufferPosition s + 1 = bufferStart s + BUFFERSIZE then bufferStart s else bufferPosition s + 1)"
    using put_not_full [OF assms False, of c] by (elim exE conjE) (rule that)
  have less: "pending t = pending s @ [c]" if l: "term_count s < BUFFERSIZE - 1"
  proof -
    have n: "term_count t = Suc (term_count s)"
      using assms(1) l t(3,4,6) by (auto simp: term_count_def term_ok_def BUFFERSIZE_def split: if_splits)
    have pos: "bufferPosition s = bufferStart s + (bufferConsume s - bufferStart s + term_count s) mod BUFFERSIZE"
      using term_position [OF assms(1)] assms(1) unfolding term_ok_def by linarith
    have "term_count s < BUFFERSIZE" by (rule term_count_less [OF assms(1)])
    from ring_bytes_put [OF this, of "tmem s" "bufferStart s" "bufferConsume s - bufferStart s" c]
    show ?thesis unfolding pending_def n t(3-5) pos [symmetric] .
  qed
  have full: "bufferConsume s = bufferStart s \<and> pending t = []" if "term_count s = BUFFERSIZE - 1"
  proof -
    have c: "bufferConsume s = bufferStart s" "bufferPosition s + 1 = bufferStart s + BUFFERSIZE"
      using that False assms(1) by (auto simp: isBufferFull_def term_count_def term_ok_def BUFFERSIZE_def split: if_splits)
    then have "term_count t = 0" using t(4,6) by (simp add: term_count_def)
    then show ?thesis using c by (simp add: pending_def)
  qed
  show ?thesis using t(1,2) less full by (intro exI [of _ t]) simp
qed

text \<open>
  The cursor stays right of the margin, so that going back never takes it off the screen.
\<close>

definition margin_ok :: "'a vstate_scheme \<Rightarrow> bool" where
  "margin_ok s \<longleftrightarrow> cursor_ok s \<and> iStartModule s \<le> cur_i s"

lemma margin_putChar: "margin_ok s \<Longrightarrow> margin_ok (putChar a s)"
  using same_cursor_writes(5) [of s "cur_j s" "cur_i s" a DEFAULT]
  by (auto simp: putChar_def margin_ok_def cursor_ok_def forwardCursor_effect same_cursor_def)

lemma margin_backInLine: "margin_ok s \<Longrightarrow> margin_ok (backInLine s)"
  by (auto simp: margin_ok_def cursor_ok_def backInLine_def)

lemma margin_lineJump:
  assumes "margin_ok s"
  shows "\<exists>t. lineJump s = Some t \<and> margin_ok t"
proof (cases "cur_j s = 24")
  case True
  then show ?thesis using scroll_cursor [of s] assms by (auto simp: lineJump_def margin_ok_def cursor_ok_def)
next
  case False
  then have "cur_j s < 24" using assms by (simp add: margin_ok_def cursor_ok_def)
  then show ?thesis
    using lineJump_loop_ends [of s, OF _ _ refl] False assms by (auto simp: lineJump_def margin_ok_def cursor_ok_def)
qed

lemma putTerminalBuffer_margin:
  assumes "margin_ok s" "putTerminalBuffer c s = Some t"
  shows "margin_ok t"
proof (cases "isBufferFull s")
  case True
  then show ?thesis using assms by (simp add: putTerminalBuffer_def)
next
  case False
  let ?s1 = "s\<lparr>tmem := (tmem s)(bufferPosition s := c)\<rparr>"
  have m1: "margin_ok ?s1" using assms(1) by (simp add: margin_ok_def cursor_ok_def)
  obtain u where u: "(if c = 8 then Some (backInLine (putChar 32 (backInLine ?s1)))
      else if c = 10 then lineJump ?s1 else if isEcho ?s1 then Some (putChar (tmem ?s1 (bufferPosition ?s1)) ?s1)
      else Some ?s1) = Some u" "margin_ok u"
    using m1 margin_lineJump [OF m1] margin_putChar margin_backInLine by (cases "c = 8"; cases "c = 10"; cases "isEcho ?s1") auto
  have more: "margin_ok (u\<lparr>bufferPosition := p\<rparr>)" for p using u(2) by (simp add: margin_ok_def cursor_ok_def)
  have "t = (let s3 = u\<lparr>bufferPosition := bufferPosition u + 1\<rparr>
      in if bufferPosition s3 = bufferStart s3 + bufferSize s3 then s3\<lparr>bufferPosition := bufferStart s3\<rparr> else s3)"
    using assms(2) unfolding putTerminalBuffer_def if_not_P [OF False] Let_def u(1) by simp
  then show ?thesis using more [of "bufferPosition u + 1"] more [of "bufferStart u"] by (auto simp: Let_def)
qed

lemma paste_loop_total:
  "term_ok s \<Longrightarrow> margin_ok s \<Longrightarrow> \<exists>t. paste_loop k h s = Some t \<and> term_ok t \<and> margin_ok t"
proof (induction k arbitrary: h s)
  case 0
  then show ?case by simp
next
  case (Suc k)
  have c: "cursor_ok s" using Suc.prems(2) by (simp add: margin_ok_def)
  obtain t where t: "putTerminalBuffer (mouseSelect s h) s = Some t" "term_ok t"
    using putTerminalBuffer_effect [OF Suc.prems(1) c, of "mouseSelect s h"] by blast
  with Suc.IH [OF t(2) putTerminalBuffer_margin [OF Suc.prems(2) t(1)]] show ?case by simp
qed

text \<open>
  C19: typing a character appends it to the pending input while fewer than 2499 characters
  wait. At 2499 the test for a full buffer only works when the reader is not at the start
  of the array: then the character is dropped, but with the reader at the start everything
  that was typed is lost, because the two positions meet and the buffer looks empty.
\<close>

theorem putTerminalBuffer_appends_or_loses:
  assumes "term_ok s" "cursor_ok s"
  shows "\<exists>t. putTerminalBuffer c s = Some t \<and> term_ok t \<and>
    (length (pending s) < BUFFERSIZE - 1 \<longrightarrow> pending t = pending s @ [c]) \<and>
    (length (pending s) = BUFFERSIZE - 1 \<longrightarrow>
       (if bufferConsume s = bufferStart s then pending t = [] else t = s))"
  by (rule putTerminalBuffer_effect [OF assms])

theorem putTerminalBuffer_appends_or_loses_witness:
  "\<exists>t. putTerminalBuffer 67 ex_tstate = Some t \<and> pending t = [65, 66, 67]"
  using putTerminalBuffer_appends_or_loses [OF ok_ex_tstate, of 67] by (auto simp: pending_ex BUFFERSIZE_def)

text \<open>
  Reading \<open>n\<close> characters returns the oldest ones in the order in which they were typed,
  as many as there are, and leaves the others.
\<close>

theorem getTerminalBuffer_returns_oldest:
  assumes "term_ok s"
  shows "fst (getTerminalBuffer n s) = take n (pending s) \<and>
    pending (snd (getTerminalBuffer n s)) = drop n (pending s) \<and> term_ok (snd (getTerminalBuffer n s))"
  unfolding getTerminalBuffer_def using assms
proof (induction n arbitrary: s)
  case 0
  then show ?case by simp
next
  case (Suc n)
  show ?case
  proof (cases "isBufferEmpty s")
    case True
    then have "pending s = []" by (simp add: pending_def term_count_def isBufferEmpty_def)
    then show ?thesis using True Suc.prems by simp
  next
    case False
    define s1 where "s1 = s\<lparr>bufferConsume := bufferConsume s + 1\<rparr>"
    define s2 where "s2 = (if bufferConsume s1 = bufferStart s1 + bufferSize s1 then s1\<lparr>bufferConsume := bufferStart s1\<rparr> else s1)"
    have ok: "term_ok s2" using Suc.prems by (auto simp: s2_def s1_def term_ok_def BUFFERSIZE_def)
    have n: "term_count s = Suc (term_count s2)"
      using Suc.prems False by (auto simp: s2_def s1_def term_ok_def term_count_def isBufferEmpty_def BUFFERSIZE_def split: if_splits)
    have p: "bufferConsume s2 - bufferStart s = Suc (bufferConsume s - bufferStart s) mod BUFFERSIZE"
      using Suc.prems by (auto simp: s2_def s1_def term_ok_def BUFFERSIZE_def mod_Suc)
    have same: "tmem s2 = tmem s" "bufferStart s2 = bufferStart s" by (simp_all add: s2_def s1_def)
    have lt: "bufferConsume s - bufferStart s < BUFFERSIZE" "bufferStart s \<le> bufferConsume s"
      using Suc.prems by (auto simp: term_ok_def)
    have ps: "pending s = tmem s (bufferConsume s) # pending s2"
      using ring_bytes_get [OF lt(1), of "tmem s" "bufferStart s" "term_count s2"] lt(2)
      unfolding pending_def n same p by simp
    have "getTerminalBuffer_loop (Suc n) s =
        (tmem s (bufferConsume s) # fst (getTerminalBuffer_loop n s2), snd (getTerminalBuffer_loop n s2))"
      using False by (simp add: Let_def split_beta s1_def s2_def)
    then show ?thesis using Suc.IH [OF ok] ps by simp
  qed
qed

theorem getTerminalBuffer_returns_oldest_witness:
  "fst (getTerminalBuffer 1 ex_tstate) = [65] \<and> pending (snd (getTerminalBuffer 1 ex_tstate)) = [66]"
  using getTerminalBuffer_returns_oldest [OF ok_ex_tstate(1), of 1] by (simp add: pending_ex)

end
