(* ===== verification/Console.thy ===== *)
theory Console
  imports Lib Terminal
begin

text \<open>
  Printing from the kernel: the system call that writes to the screen (\<open>sys_call_writeC\<close> of
  \<open>Kernel/systemCalls.c\<close>, reached through \<open>writeC\<close> of \<open>asm/stdioASM.asm\<close>), \<open>putchar\<close> and
  \<open>print\<close> of \<open>Kernel/stdio.c\<close>, and \<open>Kernel/naiveConsole.c\<close> with its conversion of numbers to
  strings. The lemmas show what reaches the screen and that a converted number is the numeral
  of its value in the base.
\<close>

section \<open>State\<close>

text \<open>
  \<open>nc_mem\<close> holds the bytes of the static array \<open>buffer\<close> of \<open>naiveConsole.c\<close>, which the linker
  put at \<open>nc_buffer\<close>.
\<close>

record cstate = tstate +
  currentVideo :: addr
  nc_mem :: memory
  nc_buffer :: addr

definition nc_video :: addr where "nc_video = 0xB8000"
definition nc_width :: nat where "nc_width = 80"
definition nc_height :: nat where "nc_height = 25"

section \<open>Characters\<close>

text \<open>
  The loop of \<open>sys_call_writeC\<close>: \<open>msg\<close> walks over the memory \<open>m\<close> of the caller. \<open>length\<close> counts
  down to 0 from its 32-bit value. \<open>None\<close> is a line jump that never ends.
\<close>

fun writeC_loop :: "nat \<Rightarrow> memory \<Rightarrow> addr \<Rightarrow> 'a vstate_scheme \<Rightarrow> 'a vstate_scheme option" where
  "writeC_loop 0 m msg s = Some s"
| "writeC_loop (Suc left) m msg s =
     (case (if m msg = 10 then lineJump s else Some (putChar (m msg) s)) of
        None \<Rightarrow> None
      | Some s1 \<Rightarrow> writeC_loop left m (msg + 1) s1)"

definition sys_call_writeC :: "64 word \<Rightarrow> 64 word \<Rightarrow> 64 word \<Rightarrow> memory \<Rightarrow> 'a vstate_scheme \<Rightarrow> 'a vstate_scheme option" where
  "sys_call_writeC qstdout qmsg qlength m s =
     (let stdout = (ucast qstdout :: 32 word); len = (ucast qlength :: 32 word)
      in if stdout = 0 then writeC_loop (unat len) m (unat qmsg) s else Some s)"

text \<open>\<open>putchar\<close> passes the address of a local that holds the character.\<close>

definition putchar :: "byte \<Rightarrow> 'a vstate_scheme \<Rightarrow> 'a vstate_scheme option" where
  "putchar c s = sys_call_writeC 0 0 1 (\<lambda>_. c) s"

fun print :: "cstring \<Rightarrow> 'a vstate_scheme \<Rightarrow> 'a vstate_scheme option" where
  "print [] s = Some s"
| "print (c # cs) s = (case putchar c s of None \<Rightarrow> None | Some s1 \<Rightarrow> print cs s1)"

fun ncPrint :: "cstring \<Rightarrow> 'a vstate_scheme \<Rightarrow> 'a vstate_scheme option" where
  "ncPrint [] s = Some s"
| "ncPrint (c # cs) s = (case putchar c s of None \<Rightarrow> None | Some s1 \<Rightarrow> ncPrint cs s1)"

definition ncPrintChar :: "byte \<Rightarrow> 'a cstate_scheme \<Rightarrow> 'a cstate_scheme" where
  "ncPrintChar character s =
     (let s1 = s\<lparr>screen := (screen s)(currentVideo s := character)\<rparr>
      in s1\<lparr>currentVideo := currentVideo s1 + 2\<rparr>)"

text \<open>\<open>ncNewline\<close> prints blanks until \<open>currentVideo\<close>, which \<open>putchar\<close> does not move, is at the start of a row.\<close>

partial_function (option) ncNewline :: "'a cstate_scheme \<Rightarrow> 'a cstate_scheme option" where
  "ncNewline s =
     (case putchar 32 s of
        None \<Rightarrow> None
      | Some s1 \<Rightarrow> if (currentVideo s1 - nc_video) mod (nc_width * 2) \<noteq> 0 then ncNewline s1 else Some s1)"

definition ncClear :: "'a cstate_scheme \<Rightarrow> 'a cstate_scheme" where
  "ncClear s =
     (fold (\<lambda>i s. s\<lparr>screen := (screen s)(nc_video + i * 2 := 32)\<rparr>) [0..<nc_height * nc_width] s)
       \<lparr>currentVideo := nc_video\<rparr>"

section \<open>Numbers\<close>

text \<open>
  The loop of \<open>uintToBase\<close> that writes the digits, the last one first; \<open>None\<close> is a division
  by zero, or a loop that never ends (base 1).
\<close>

definition digit_char :: "32 word \<Rightarrow> byte" where
  "digit_char remainder = (if remainder < 10 then ucast (remainder + 48) else ucast (remainder + 65 - 10))"

partial_function (option) uintToBase_digits ::
  "64 word \<Rightarrow> addr \<Rightarrow> 32 word \<Rightarrow> 32 word \<Rightarrow> memory \<Rightarrow> (addr \<times> 32 word \<times> memory) option" where
  "uintToBase_digits value p digits b m =
     (if b = 0 then None
      else
        let remainder = (ucast (value mod ucast b) :: 32 word);
            m1 = m(p := digit_char remainder);
            value1 = value div ucast b
        in if value1 \<noteq> 0 then uintToBase_digits value1 (p + 1) (digits + 1) b m1
           else Some (p + 1, digits + 1, m1))"

function uintToBase_reverse :: "addr \<Rightarrow> addr \<Rightarrow> memory \<Rightarrow> memory" where
  "uintToBase_reverse p1 p2 m =
     (if p1 < p2 then uintToBase_reverse (p1 + 1) (p2 - 1) (m(p1 := m p2, p2 := m p1)) else m)"
  by auto
termination by (relation "measure (\<lambda>(p1, p2, m). p2 - p1)") auto

declare uintToBase_reverse.simps [simp del]

definition uintToBase :: "64 word \<Rightarrow> addr \<Rightarrow> 32 word \<Rightarrow> memory \<Rightarrow> (32 word \<times> memory) option" where
  "uintToBase value buffer b m =
     (case uintToBase_digits value buffer 0 b m of
        None \<Rightarrow> None
      | Some (p, digits, m1) \<Rightarrow> Some (digits, uintToBase_reverse buffer (p - 1) (m1(p := 0))))"

text \<open>
  \<open>ncPrint\<close> reads the string up to its terminator, which comes within 65 bytes
  (\<open>uintToBase_writes_numeral\<close>): the bound is never the reason for \<open>None\<close>.
\<close>

definition ncPrintBase :: "64 word \<Rightarrow> 32 word \<Rightarrow> 'a cstate_scheme \<Rightarrow> 'a cstate_scheme option" where
  "ncPrintBase value b s =
     (case uintToBase value (nc_buffer s) b (nc_mem s) of
        None \<Rightarrow> None
      | Some (digits, m) \<Rightarrow>
          (case cstr 65 m (nc_buffer s) of
             None \<Rightarrow> None
           | Some str \<Rightarrow> ncPrint str (s\<lparr>nc_mem := m\<rparr>)))"

definition ncPrintDec :: "64 word \<Rightarrow> 'a cstate_scheme \<Rightarrow> 'a cstate_scheme option" where
  "ncPrintDec value s = ncPrintBase value 10 s"

definition ncPrintHex :: "64 word \<Rightarrow> 'a cstate_scheme \<Rightarrow> 'a cstate_scheme option" where
  "ncPrintHex value s = ncPrintBase value 16 s"

definition ncPrintBin :: "64 word \<Rightarrow> 'a cstate_scheme \<Rightarrow> 'a cstate_scheme option" where
  "ncPrintBin value s = ncPrintBase value 2 s"

section \<open>Printing a string ends\<close>

lemma print_total:
  "cursor_ok (c :: 'a tstate_scheme) \<Longrightarrow> \<exists>t. print str c = Some t \<and> cursor_ok t \<and> same_buffer c t"
proof (induction str arbitrary: c)
  case Nil
  then show ?case by (simp add: same_buffer_def)
next
  case (Cons a str)
  obtain t where t: "putchar a c = Some t" "cursor_ok t" "same_buffer c t"
    using same_buffer_echo(2,3) [of c] Cons.prems cursor_ok_putChar [OF Cons.prems]
    by (cases "a = 10") (auto simp: putchar_def sys_call_writeC_def)
  then show ?case using Cons.IH [OF t(2)] by (auto simp: same_buffer_def)
qed

lemma ncPrint_eq_print: "ncPrint str c = print str c"
  by (induction str arbitrary: c) (auto split: option.splits)

lemma print_append:
  "print (xs @ ys) c = (case print xs c of None \<Rightarrow> None | Some c1 \<Rightarrow> print ys c1)"
  by (induction xs arbitrary: c) (auto split: option.splits)

section \<open>The numeral of a number\<close>

text \<open>The digits of a number in base \<open>b\<close>, the last one first.\<close>

function low_digits :: "nat \<Rightarrow> nat \<Rightarrow> nat list" where
  "low_digits b v = v mod b # (if 2 \<le> b \<and> v div b \<noteq> 0 then low_digits b (v div b) else [])"
  by auto
termination by (relation "measure (\<lambda>(b, v). v)") (auto simp: div_eq_0_iff)

declare low_digits.simps [simp del]

lemma low_digits_not_Nil [simp]: "low_digits b v \<noteq> []"
  by (subst low_digits.simps) simp

lemma low_digits_value: "2 \<le> b \<Longrightarrow> foldr (\<lambda>d n. n * b + d) (low_digits b v) 0 = v"
proof (induction b v rule: low_digits.induct)
  case (1 b v)
  then show ?case by (subst low_digits.simps) (auto simp: div_mult_mod_eq div_eq_0_iff)
qed

lemma low_digits_less: "2 \<le> b \<Longrightarrow> d \<in> set (low_digits b v) \<Longrightarrow> d < b"
proof (induction b v rule: low_digits.induct)
  case (1 b v)
  from 1(3) show ?case using 1(1,2) by (subst (asm) low_digits.simps) (auto split: if_splits)
qed

lemma low_digits_last: "2 \<le> b \<Longrightarrow> v \<noteq> 0 \<Longrightarrow> last (low_digits b v) \<noteq> 0"
proof (induction b v rule: low_digits.induct)
  case (1 b v)
  then show ?case by (subst low_digits.simps) (auto simp: div_eq_0_iff)
qed

lemma low_digits_0: "low_digits b 0 = [0]"
  by (subst low_digits.simps) simp

lemma low_digits_length: "2 \<le> b \<Longrightarrow> v < b ^ k \<Longrightarrow> 0 < k \<Longrightarrow> length (low_digits b v) \<le> k"
proof (induction k arbitrary: v)
  case 0
  then show ?case by simp
next
  case (Suc k)
  show ?case
  proof (cases "v div b = 0")
    case True
    then show ?thesis by (subst low_digits.simps) simp
  next
    case False
    have l: "v div b < b ^ k" using Suc.prems(1,2) by (simp add: less_mult_imp_div_less mult.commute)
    moreover have "0 < k" using False l by (cases k) auto
    ultimately have "length (low_digits b (v div b)) \<le> k" using Suc.IH Suc.prems(1) by blast
    then show ?thesis by (subst low_digits.simps) simp
  qed
qed

section \<open>The conversion\<close>

lemma unat_less: "unat (w :: 32 word) < 2 ^ 32" "unat (v :: 64 word) < 2 ^ 64"
  using unsigned_less [of w, where ?'a = nat] unsigned_less [of v, where ?'a = nat] by simp_all

lemma unat_ucast_base: "unat (ucast (b :: 32 word) :: 64 word) = unat b"
proof -
  have "unat b < 2 ^ 32" by (rule unat_less)
  then show ?thesis by (simp add: unsigned_ucast_eq take_bit_nat_eq_self)
qed

lemma uintToBase_digits_spec:
  assumes "2 \<le> unat b"
  shows "\<exists>m'. uintToBase_digits v p k b m = Some (p + length (low_digits (unat b) (unat v)),
      k + of_nat (length (low_digits (unat b) (unat v))), m') \<and>
    (\<forall>x. m' x = (if p \<le> x \<and> x < p + length (low_digits (unat b) (unat v))
                then digit_char (of_nat (low_digits (unat b) (unat v) ! (x - p))) else m x))"
proof (induction "unat v" arbitrary: v p k m rule: less_induct)
  case less
  let ?b = "unat b"
  have b: "b \<noteq> 0" "(ucast b :: 64 word) \<noteq> 0" using assms by (auto simp flip: unat_0_iff simp: unat_ucast_base)
  have dv: "unat (v div ucast b) = unat v div ?b" by (simp add: unat_div unat_ucast_base)
  have "unat (v mod ucast b) = unat v mod ?b" by (simp add: unat_mod unat_ucast_base)
  moreover have "(ucast (v mod ucast b) :: 32 word) = of_nat (unat (v mod ucast b))" by simp
  ultimately have r: "(ucast (v mod ucast b) :: 32 word) = of_nat (unat v mod ?b)" by (simp only:)
  define m1 where "m1 = m(p := digit_char (of_nat (unat v mod ?b)))"
  show ?case
  proof (cases "v div ucast b = 0")
    case True
    then have d: "low_digits ?b (unat v) = [unat v mod ?b]" using dv by (subst low_digits.simps) simp
    show ?thesis unfolding d
      using b True r by (subst uintToBase_digits.simps) (auto simp: Let_def)
  next
    case False
    then have ne: "unat v div ?b \<noteq> 0" using dv by (metis unat_eq_zero)
    have d: "low_digits ?b (unat v) = unat v mod ?b # low_digits ?b (unat (v div ucast b))"
      using ne assms dv by (subst low_digits.simps) simp
    have "unat (v div ucast b) < unat v"
      using ne assms unfolding dv by (intro div_less_dividend) (auto simp: div_eq_0_iff)
    from less [OF this, of "p + 1" "k + 1" m1] obtain m' where m':
      "uintToBase_digits (v div ucast b) (p + 1) (k + 1) b m1 = Some (p + 1 + length (low_digits ?b (unat (v div ucast b))),
         k + 1 + of_nat (length (low_digits ?b (unat (v div ucast b)))), m')"
      "\<forall>x. m' x = (if p + 1 \<le> x \<and> x < p + 1 + length (low_digits ?b (unat (v div ucast b)))
         then digit_char (of_nat (low_digits ?b (unat (v div ucast b)) ! (x - (p + 1)))) else m1 x)"
      by (elim exE conjE) (rule that)
    have "uintToBase_digits v p k b m = uintToBase_digits (v div ucast b) (p + 1) (k + 1) b m1"
      using b False r by (subst uintToBase_digits.simps) (simp add: Let_def m1_def)
    moreover have "m' x = (if p \<le> x \<and> x < p + length (low_digits ?b (unat v))
        then digit_char (of_nat (low_digits ?b (unat v) ! (x - p))) else m x)" for x
    proof (cases "x \<le> p")
      case True
      then show ?thesis using m'(2) by (auto simp: d m1_def)
    next
      case False
      then have "x - p = Suc (x - (p + 1))" by linarith
      then show ?thesis using m'(2) False by (auto simp: d m1_def)
    qed
    ultimately show ?thesis using m'(1) by (intro exI [of _ m']) (simp add: d add.assoc)
  qed
qed

lemma uintToBase_reverse_spec:
  "p1 \<le> p2 + 1 \<Longrightarrow> uintToBase_reverse p1 p2 m x = (if p1 \<le> x \<and> x \<le> p2 then m (p1 + p2 - x) else m x)"
proof (induction p1 p2 m arbitrary: x rule: uintToBase_reverse.induct)
  case (1 p1 p2 m)
  show ?case
  proof (cases "p1 < p2")
    case True
    let ?m = "m(p1 := m p2, p2 := m p1)"
    have le: "p1 + 1 \<le> p2 - 1 + 1" using True by linarith
    have s: "uintToBase_reverse p1 p2 m x = uintToBase_reverse (p1 + 1) (p2 - 1) ?m x"
      using True by (subst uintToBase_reverse.simps) simp
    have e: "p1 + 1 + (p2 - 1) - x = p1 + p2 - x" using True by linarith
    consider "x = p1" | "x = p2" | "p1 < x \<and> x < p2" | "x < p1 \<or> p2 < x" by linarith
    then show ?thesis
      unfolding s "1.IH" [OF True le] e using True by cases auto
  next
    case False
    then have "p1 \<le> x \<and> x \<le> p2 \<Longrightarrow> p1 + p2 - x = x" by linarith
    then show ?thesis using False by (subst uintToBase_reverse.simps) auto
  qed
qed

lemma digit_char_nonzero: "d < 36 \<Longrightarrow> digit_char (of_nat d) \<noteq> 0"
proof -
  assume d: "d < 36"
  have u: "unat (of_nat k :: 32 word) = k" if "k < 1000" for k
    using that by (simp only: unsigned_of_nat of_nat_id) (simp add: take_bit_nat_eq_self)
  show ?thesis
  proof (cases "d < 10")
    case True
    have "(of_nat d :: 32 word) < 10" using True d u [of d] by (simp add: word_less_nat_alt)
    moreover have "unat (ucast (of_nat d + 48 :: 32 word) :: byte) = d + 48"
    proof -
      have "(of_nat d + 48 :: 32 word) = of_nat (d + 48)" by simp
      then show ?thesis using d u [of "d + 48"] by (simp only: unsigned_ucast_eq) (simp add: take_bit_nat_eq_self)
    qed
    ultimately show ?thesis by (metis digit_char_def add_is_0 unat_0 zero_neq_numeral)
  next
    case False
    have "\<not> (of_nat d :: 32 word) < 10" using False d u [of d] by (simp add: word_less_nat_alt)
    moreover have "unat (ucast (of_nat d + 65 - 10 :: 32 word) :: byte) = d + 55"
    proof -
      have "(of_nat d + 65 - 10 :: 32 word) = of_nat (d + 55)" by simp
      then show ?thesis using d u [of "d + 55"] by (simp only: unsigned_ucast_eq) (simp add: take_bit_nat_eq_self)
    qed
    ultimately show ?thesis by (metis digit_char_def add_is_0 unat_0 zero_neq_numeral)
  qed
qed

text \<open>The digits as the reader knows them.\<close>

lemma digit_char_text: "d < 36 \<Longrightarrow> digit_char (of_nat d) = of_char (''0123456789ABCDEFGHIJKLMNOPQRSTUVWXYZ'' ! d)"
proof -
  have "list_all (\<lambda>d. digit_char (of_nat d) = of_char (''0123456789ABCDEFGHIJKLMNOPQRSTUVWXYZ'' ! d)) [0..<36]"
    by code_simp
  then show "d < 36 \<Longrightarrow> ?thesis" by (simp add: list_all_iff)
qed

lemma uintToBase_numeral:
  assumes "2 \<le> unat b" "unat b \<le> 36"
  shows "\<exists>ds m'. uintToBase v a b m = Some (of_nat (length ds), m') \<and>
    cstr 65 m' a = Some (map (\<lambda>d. digit_char (of_nat d)) ds) \<and>
    foldl (\<lambda>n d. n * unat b + d) 0 ds = unat v \<and> (\<forall>d \<in> set ds. d < unat b) \<and>
    (ds = [0] \<or> hd ds \<noteq> 0) \<and> length ds \<le> 64 \<and> (\<forall>x. x < a \<or> a + length ds < x \<longrightarrow> m' x = m x)"
proof -
  define ls where "ls = low_digits (unat b) (unat v)"
  define ds where "ds = rev ls"
  have l: "0 < length ls" by (simp add: ls_def)
  obtain m1 where m1: "uintToBase_digits v a 0 b m = Some (a + length ls, of_nat (length ls), m1)"
    "\<forall>x. m1 x = (if a \<le> x \<and> x < a + length ls then digit_char (of_nat (ls ! (x - a))) else m x)"
    using uintToBase_digits_spec [OF assms(1), of v a 0 m] by (auto simp: ls_def)
  define m' where "m' = uintToBase_reverse a (a + length ls - 1) (m1(a + length ls := 0))"
  have r: "m' x = (if a \<le> x \<and> x \<le> a + length ls - 1 then m1 (a + (a + length ls - 1) - x)
      else (m1(a + length ls := 0)) x)" for x
    using uintToBase_reverse_spec [of a "a + length ls - 1" "m1(a + length ls := 0)" x] l by (cases "length ls") (auto simp: m'_def)
  have "bytes_at m' a (length ls) = map (\<lambda>d. digit_char (of_nat d)) ds"
  proof (rule nth_equalityI)
    fix i
    assume "i < length (bytes_at m' a (length ls))"
    then have i: "i < length ls" by simp
    then have e: "a + i \<le> a + length ls - 1" "a + (a + length ls - 1) - (a + i) = a + (length ls - Suc i)" by linarith+
    obtain k where k: "length ls - Suc i = k" "k < length ls" using i by simp
    have "m' (a + i) = m1 (a + k)" unfolding r e k(1) using e(1) by simp
    then have "m' (a + i) = digit_char (of_nat (ls ! k))" using m1(2) k(2) by simp
    then show "bytes_at m' a (length ls) ! i = map (\<lambda>d. digit_char (of_nat d)) ds ! i"
      using i by (simp add: ds_def rev_nth k(1))
  qed (simp add: ds_def)
  moreover have "m' (a + length ls) = 0" using l by (cases "length ls") (simp_all add: r)
  moreover have less: "\<forall>d \<in> set ds. d < unat b" using low_digits_less [OF assms(1)] by (auto simp: ds_def ls_def)
  then have "0 \<notin> set (map (\<lambda>d. digit_char (of_nat d)) ds)" using digit_char_nonzero assms(2) by fastforce
  moreover have len: "length ls \<le> 64"
  proof -
    have "unat v < 2 ^ 64" by (rule unat_less)
    also have "\<dots> \<le> unat b ^ 64" using assms(1) by (rule power_mono) simp
    finally show ?thesis unfolding ls_def by (rule low_digits_length [OF assms(1)]) simp
  qed
  ultimately have "cstr 65 m' a = Some (map (\<lambda>d. digit_char (of_nat d)) ds)"
    by (intro cstr_bytes [of _ _ "length ls"]) (simp_all add: ds_def)
  moreover have "foldl (\<lambda>n d. n * unat b + d) 0 ds = unat v"
    using low_digits_value [OF assms(1), of "unat v"] by (simp add: ds_def ls_def foldl_conv_foldr)
  moreover have "ds = [0] \<or> hd ds \<noteq> 0"
    using low_digits_last [OF assms(1), of "unat v"] low_digits_0
    by (cases "unat v = 0") (auto simp: ds_def ls_def hd_rev)
  moreover have "\<forall>x. x < a \<or> a + length ds < x \<longrightarrow> m' x = m x" using m1(2) l by (auto simp: r ds_def)
  ultimately show ?thesis
    using m1(1) less len by (intro exI [of _ ds] exI [of _ m']) (simp add: uintToBase_def m'_def ds_def)
qed

text \<open>
  C21: in every base from 2 to 36 \<open>uintToBase\<close> ends and leaves at its buffer the numeral of the
  number in the digits 0 to 9 and A to Z: digits below the base whose value is the number, the most
  significant one first and not 0 unless it is the only one, at most 64 of them, then the
  terminator. It returns how many there are and changes nothing else.
\<close>

theorem uintToBase_writes_numeral:
  assumes "2 \<le> unat b" "unat b \<le> 36"
  shows "\<exists>ds m'. uintToBase v a b m = Some (of_nat (length ds), m') \<and>
    cstr 65 m' a = Some (map (\<lambda>d. of_char (''0123456789ABCDEFGHIJKLMNOPQRSTUVWXYZ'' ! d)) ds) \<and>
    foldl (\<lambda>n d. n * unat b + d) 0 ds = unat v \<and> (\<forall>d \<in> set ds. d < unat b) \<and>
    (ds = [0] \<or> hd ds \<noteq> 0) \<and> length ds \<le> 64 \<and> (\<forall>x. x < a \<or> a + length ds < x \<longrightarrow> m' x = m x)"
proof -
  obtain ds m' where d: "uintToBase v a b m = Some (of_nat (length ds), m')"
    "cstr 65 m' a = Some (map (\<lambda>d. digit_char (of_nat d)) ds)"
    "foldl (\<lambda>n d. n * unat b + d) 0 ds = unat v" "\<forall>d \<in> set ds. d < unat b"
    "ds = [0] \<or> hd ds \<noteq> 0" "length ds \<le> 64" "\<forall>x. x < a \<or> a + length ds < x \<longrightarrow> m' x = m x"
    using uintToBase_numeral [OF assms, of v a m] by (elim exE conjE) (rule that)
  have "map (\<lambda>d. digit_char (of_nat d)) ds = map (\<lambda>d. of_char (''0123456789ABCDEFGHIJKLMNOPQRSTUVWXYZ'' ! d)) ds"
    using d(4) assms(2) by (auto simp: digit_char_text)
  then show ?thesis using d by metis
qed

theorem uintToBase_writes_numeral_witness:
  "\<exists>ds m'. uintToBase 0x1F 100 16 (\<lambda>_. 1) = Some (of_nat (length ds), m') \<and>
    cstr 65 m' 100 = Some (map (\<lambda>d. of_char (''0123456789ABCDEFGHIJKLMNOPQRSTUVWXYZ'' ! d)) ds) \<and>
    foldl (\<lambda>n d. n * 16 + d) 0 ds = (31 :: nat) \<and> (\<forall>d \<in> set ds. d < 16) \<and> m' 99 = 1"
  using uintToBase_writes_numeral [of 16 "0x1F" 100 "\<lambda>_. 1"] by auto

section \<open>Printing a number ends\<close>

lemma ncPrintBase_total:
  assumes "cursor_ok c" "2 \<le> unat b" "unat b \<le> 36"
  shows "\<exists>t. ncPrintBase v b c = Some t \<and> cursor_ok t \<and> currentVideo t = currentVideo c"
proof -
  obtain d m str where u: "uintToBase v (nc_buffer c) b (nc_mem c) = Some (d, m)" "cstr 65 m (nc_buffer c) = Some str"
    using uintToBase_numeral [OF assms(2,3), of v "nc_buffer c" "nc_mem c"] by blast
  have "cursor_ok (c\<lparr>nc_mem := m\<rparr>)" using assms(1) by (simp add: cursor_ok_def)
  from print_total [OF this, of str] obtain t where t: "print str (c\<lparr>nc_mem := m\<rparr>) = Some t" "cursor_ok t"
    "same_buffer (c\<lparr>nc_mem := m\<rparr>) t" by blast
  then have "currentVideo t = currentVideo c" by (cases c; cases t) (simp add: same_buffer_def)
  then show ?thesis using t u by (simp add: ncPrintBase_def ncPrint_eq_print)
qed

lemma ncNewline_total:
  assumes "cursor_ok c" "currentVideo c = nc_video"
  shows "\<exists>t. ncNewline c = Some t \<and> cursor_ok t \<and> currentVideo t = nc_video"
proof -
  obtain t where t: "print [32] c = Some t" "cursor_ok t" "same_buffer c t" using print_total [OF assms(1)] by blast
  then have "putchar 32 c = Some t" by (simp split: option.splits)
  moreover have "currentVideo t = nc_video" using t(3) assms(2) by (cases c; cases t) (simp add: same_buffer_def)
  ultimately show ?thesis using t(2) by (subst ncNewline.simps) simp
qed

text \<open>The terminal of the examples of \<open>Terminal\<close> with a console.\<close>

definition ex_cstate :: cstate where
  "ex_cstate = tstate.extend ex_tstate \<lparr>currentVideo = nc_video, nc_mem = (\<lambda>_. 0), nc_buffer = 0x20000\<rparr>"

lemma cursor_ok_ex_cstate: "cursor_ok ex_cstate"
  by (simp add: ex_cstate_def cursor_ok_def ex_tstate_def ex_vstate_def tstate.defs vstate.defs)

lemma currentVideo_ex_cstate: "currentVideo ex_cstate = nc_video"
  by (simp add: ex_cstate_def tstate.defs)

end
