(* ===== verification/Buddy.thy ===== *)
theory Buddy
  imports Prelude
begin

text \<open>
  The page allocator: \<open>Kernel/buddyAllocator.c\<close> with the constants of
  \<open>include/buddyAllocator.h\<close>. A complete binary tree over 1024 pages is kept in two
  arrays indexed by the heap numbering of its nodes (node 1 is the root, node \<open>k\<close> has the
  children \<open>2 * k\<close> and \<open>2 * k + 1\<close>): the occupancy of a node and the address of its first
  page. The lemmas describe the tree the code builds, the block an allocation takes, and
  the invariant that keeps allocated blocks apart; two theorems record what goes wrong
  when blocks are released or taken in an unlucky order.
\<close>

section \<open>Constants and state\<close>

definition PAGE_SIZE :: nat where "PAGE_SIZE = 1024 * 4"
definition MEMORY :: nat where "MEMORY = PAGE_SIZE * 1024"
definition NUMBER_OF_PAGES :: nat where "NUMBER_OF_PAGES = MEMORY div PAGE_SIZE"
definition HEAPSIZE :: nat where "HEAPSIZE = NUMBER_OF_PAGES * 2 - 1"

definition NUMBER_OF_PAGES_TO_ALLOC :: "nat \<Rightarrow> nat" where
  "NUMBER_OF_PAGES_TO_ALLOC size_b =
     (if size_b mod PAGE_SIZE \<noteq> 0 then size_b div PAGE_SIZE + 1 else size_b div PAGE_SIZE)"

lemma page_consts [simp]:
  "PAGE_SIZE = 4096" "MEMORY = 4194304" "NUMBER_OF_PAGES = 1024" "HEAPSIZE = 2047"
  by (simp_all add: PAGE_SIZE_def MEMORY_def NUMBER_OF_PAGES_def HEAPSIZE_def)

text \<open>The macros that move through the tree.\<close>

definition PARENT :: "nat \<Rightarrow> nat" where "PARENT i = i div 2"
definition LCHILD :: "nat \<Rightarrow> nat" where "LCHILD i = i * 2"
definition RCHILD :: "nat \<Rightarrow> nat" where "RCHILD i = i * 2 + 1"
definition SIBLING :: "nat \<Rightarrow> nat" where
  "SIBLING i = (if i mod 2 \<noteq> 0 then i - 1 else i + 1)"

text \<open>\<open>typeOccupied\<close>: the three values the code stores in an entry of \<open>occupied\<close>.\<close>

datatype typeOccupied = EMPTY | PARTIALLY_FULL | BUDDY_FULL

record buddy =
  occupied :: "typeOccupied list"
  base :: "addr list"
  heapLevel :: int
  baseMemory :: addr

text \<open>The arrays of the binary after its BSS section is cleared.\<close>

definition buddy_bss :: buddy where
  "buddy_bss = \<lparr>occupied = replicate HEAPSIZE EMPTY, base = replicate HEAPSIZE 0,
     heapLevel = 0, baseMemory = 0\<rparr>"

text \<open>Reading and writing the entry of node \<open>index\<close>, at position \<open>index - 1\<close>.\<close>

definition occ :: "buddy \<Rightarrow> nat \<Rightarrow> typeOccupied" where
  "occ b index = occupied b ! (index - 1)"

definition set_occ :: "nat \<Rightarrow> typeOccupied \<Rightarrow> buddy \<Rightarrow> buddy" where
  "set_occ index v b = b\<lparr>occupied := (occupied b)[index - 1 := v]\<rparr>"

definition heap_shape :: "buddy \<Rightarrow> bool" where
  "heap_shape b \<longleftrightarrow> length (occupied b) = HEAPSIZE \<and> length (base b) = HEAPSIZE"

section \<open>Operations\<close>

definition getBaseMemoryWithIndex :: "buddy \<Rightarrow> nat \<Rightarrow> nat \<Rightarrow> nat \<Rightarrow> addr" where
  "getBaseMemoryWithIndex b i maxElementsInLevel elementNumber =
     (MEMORY div maxElementsInLevel) * elementNumber + baseMemory b"

text \<open>The loop of \<open>createHeap\<close> over \<open>i\<close>, with its three other variables.\<close>

function createHeap_loop :: "nat \<Rightarrow> int \<Rightarrow> nat \<Rightarrow> nat \<Rightarrow> buddy \<Rightarrow> int \<times> buddy" where
  "createHeap_loop i level currentElementsInLevel maxElementsInLevel b =
     (if i < HEAPSIZE then
        let full = (maxElementsInLevel = currentElementsInLevel);
            cur = (if full then 0 else currentElementsInLevel);
            mx = (if full then maxElementsInLevel * 2 else maxElementsInLevel);
            lv = (if full then level + 1 else level);
            b1 = b\<lparr>occupied := (occupied b)[i := EMPTY]\<rparr>;
            b2 = b1\<lparr>base := (base b1)[i := getBaseMemoryWithIndex b1 (i + 1) mx cur]\<rparr>
        in createHeap_loop (i + 1) lv (cur + 1) mx b2
      else (level, b))"
  by pat_completeness auto
termination
  by (relation "measure (\<lambda>(i, _). HEAPSIZE - i)") auto

declare createHeap_loop.simps [simp del]

definition createHeap :: "buddy \<Rightarrow> buddy" where
  "createHeap b0 =
     (let b = b0\<lparr>baseMemory := 0x1000000\<rparr>;
          (level, b') = createHeap_loop 0 1 0 1 b
      in b'\<lparr>heapLevel := level\<rparr>)"

text \<open>
  The descent for a free node of the wanted level. A node outside the arrays (never met
  from a heap that \<open>createHeap\<close> built, see below) is \<open>None\<close>.
\<close>

function getNextPageRecursive :: "buddy \<Rightarrow> nat \<Rightarrow> int \<Rightarrow> int \<Rightarrow> (addr \<times> buddy) option" where
  "getNextPageRecursive b index currentLevel level =
     (if index = 0 \<or> HEAPSIZE < index then None
      else if occ b index = BUDDY_FULL then Some (NULL, b)
      else if currentLevel = level then
        (if occ b index = PARTIALLY_FULL then Some (NULL, b)
         else Some (base b ! (index - 1), set_occ index BUDDY_FULL b))
      else
        (case getNextPageRecursive b (LCHILD index) (currentLevel + 1) level of
           None \<Rightarrow> None
         | Some (lchild, b1) \<Rightarrow>
             if lchild = NULL then
               (case getNextPageRecursive b1 (RCHILD index) (currentLevel + 1) level of
                  None \<Rightarrow> None
                | Some (rchild, b2) \<Rightarrow>
                    if rchild = NULL then Some (NULL, b2)
                    else Some (rchild,
                      if occ b2 (RCHILD index) = BUDDY_FULL
                      then set_occ index BUDDY_FULL b2 else b2))
             else Some (lchild, set_occ index PARTIALLY_FULL b1)))"
  by pat_completeness auto
termination
  by (relation "measure (\<lambda>(b, index, _). Suc HEAPSIZE - index)")
     (auto simp: LCHILD_def RCHILD_def)

declare getNextPageRecursive.simps [simp del]

text \<open>
  The halving loop of \<open>getLevel\<close>, on an \<open>int\<close> into which the 64 bits of \<open>pages\<close> are narrowed;
  \<open>/\<close> and \<open>%\<close> truncate. \<open>rta\<close> never leaves 32 bits, since half of an \<open>int\<close> plus 1 is one again, and
  a loop that ends has far fewer than \<open>2 ^ 31\<close> rounds. \<open>None\<close> is a loop that does not end.
\<close>

partial_function (option) getLevel_loop :: "int \<Rightarrow> int \<Rightarrow> int option" where
  "getLevel_loop rta i =
     (if rta \<noteq> 1 then
        getLevel_loop (if rta smod 2 \<noteq> 0 then rta sdiv 2 + 1 else rta sdiv 2) (i + 1)
      else Some i)"

definition getLevel :: "buddy \<Rightarrow> 64 word \<Rightarrow> int option" where
  "getLevel b pages = map_option (\<lambda>i. heapLevel b - i) (getLevel_loop (sint (ucast pages :: 32 word)) 0)"

definition allocPage :: "buddy \<Rightarrow> nat \<Rightarrow> (addr \<times> buddy) option" where
  "allocPage b pages =
     (if pages = 0 \<or> NUMBER_OF_PAGES < pages then Some (NULL, b)
      else (case getLevel b (of_nat pages) of
              None \<Rightarrow> None
            | Some level \<Rightarrow>
                if heapLevel b < level then Some (NULL, b)
                else getNextPageRecursive b 1 1 level))"

text \<open>The walk to the root after a leaf was released.\<close>

fun freeUpRecursive :: "nat \<Rightarrow> buddy \<Rightarrow> buddy" where
  "freeUpRecursive index b =
     (if index \<le> 1 then b
      else
        let p = occ b (PARENT index); s = occ b (SIBLING index);
            b' = (if p = BUDDY_FULL \<and> s = EMPTY then set_occ (PARENT index) EMPTY b
                  else if p = BUDDY_FULL \<and> s = BUDDY_FULL then set_occ (PARENT index) PARTIALLY_FULL b
                  else if p = PARTIALLY_FULL \<and> s = EMPTY then set_occ (PARENT index) EMPTY b
                  else b)
        in freeUpRecursive (index div 2) b')"

declare freeUpRecursive.simps [simp del]

definition isValid :: "addr \<Rightarrow> int" where
  "isValid page = 1"

text \<open>
  The pointer difference is signed and its division truncates; a page outside the managed
  memory makes the store miss the array, which is \<open>None\<close>.
\<close>

definition deallocPage :: "addr \<Rightarrow> buddy \<Rightarrow> (int \<times> buddy) option" where
  "deallocPage page b =
     (if isValid page \<noteq> 0 then
        let index = (int page - int (baseMemory b)) sdiv int PAGE_SIZE;
            pos = index + int (HEAPSIZE div 2)
        in if pos < 0 \<or> int HEAPSIZE \<le> pos then None
           else Some (0, freeUpRecursive (nat pos + 1) (set_occ (nat pos + 1) EMPTY b))
      else Some (- 1, b))"

section \<open>The tree that createHeap builds\<close>

fun node_level :: "nat \<Rightarrow> nat" where
  "node_level k = (if k \<le> 1 then 0 else Suc (node_level (k div 2)))"

declare node_level.simps [simp del]

lemma node_level_eq: "2 ^ l \<le> k \<Longrightarrow> k < 2 ^ Suc l \<Longrightarrow> node_level k = l"
proof (induction l arbitrary: k)
  case 0
  then show ?case by (simp add: node_level.simps [of k])
next
  case (Suc l)
  have "2 ^ l \<le> k div 2" and "k div 2 < 2 ^ Suc l" using Suc.prems by auto
  then have "node_level (k div 2) = l" by (rule Suc.IH)
  moreover have "\<not> k \<le> 1"
  proof -
    have "(1::nat) \<le> 2 ^ l" by simp
    moreover have "2 * 2 ^ l \<le> k" using Suc.prems(1) by simp
    ultimately show ?thesis by linarith
  qed
  ultimately show ?case by (simp add: node_level.simps [of k])
qed

lemma node_level_bounds: "0 < k \<Longrightarrow> 2 ^ node_level k \<le> k \<and> k < 2 ^ Suc (node_level k)"
proof (induction k rule: node_level.induct)
  case (1 k)
  show ?case
  proof (cases "k \<le> 1")
    case True
    with "1.prems" show ?thesis by (simp add: node_level.simps [of k])
  next
    case False
    with "1.IH" have "2 ^ node_level (k div 2) \<le> k div 2 \<and> k div 2 < 2 ^ Suc (node_level (k div 2))"
      by auto
    with False show ?thesis by (simp add: node_level.simps [of k]) arith
  qed
qed

definition node_addr :: "addr \<Rightarrow> nat \<Rightarrow> addr" where
  "node_addr bm k = bm + (MEMORY div 2 ^ node_level k) * (k - 2 ^ node_level k)"

lemma createHeap_loop_spec:
  assumes "i \<le> HEAPSIZE" "mx = 2 ^ n" "cur \<le> mx" "i + 1 = mx + cur" "cur = 0 \<longrightarrow> i = 0"
    and "level = int n + 1" "heap_shape b"
  shows "fst (createHeap_loop i level cur mx b) = 11 \<and>
    baseMemory (snd (createHeap_loop i level cur mx b)) = baseMemory b \<and>
    heap_shape (snd (createHeap_loop i level cur mx b)) \<and>
    (\<forall>j < HEAPSIZE. occupied (snd (createHeap_loop i level cur mx b)) ! j =
       (if j < i then occupied b ! j else EMPTY)) \<and>
    (\<forall>j < HEAPSIZE. base (snd (createHeap_loop i level cur mx b)) ! j =
       (if j < i then base b ! j else node_addr (baseMemory b) (j + 1)))"
  using assms
proof (induction i level cur mx b arbitrary: n rule: createHeap_loop.induct)
  case (1 i level cur mx b)
  show ?case
  proof (cases "i < HEAPSIZE")
    case False
    with "1.prems" have "2 ^ n + cur = (2048::nat)" "cur \<le> 2 ^ n" "cur \<noteq> 0" by auto
    then have "(2::nat) ^ n < 2 ^ 11" "(2::nat) ^ 10 \<le> 2 ^ n" by auto
    then have "n < 11" "10 \<le> n" by (auto simp only: power_strict_increasing_iff power_increasing_iff)
    moreover have "createHeap_loop i level cur mx b = (level, b)"
      using False by (simp add: createHeap_loop.simps [of i level cur mx b])
    ultimately show ?thesis using False "1.prems" by simp
  next
    case True
    define full where "full \<longleftrightarrow> mx = cur"
    define cur' where "cur' = (if full then 0 else cur)"
    define mx' where "mx' = (if full then mx * 2 else mx)"
    define lv' where "lv' = (if full then level + 1 else level)"
    define n' where "n' = (if full then Suc n else n)"
    define b1 where "b1 = b\<lparr>occupied := (occupied b)[i := EMPTY]\<rparr>"
    define b2 where "b2 = b1\<lparr>base := (base b1)[i := getBaseMemoryWithIndex b1 (i + 1) mx' cur']\<rparr>"
    have step: "createHeap_loop i level cur mx b = createHeap_loop (i + 1) lv' (cur' + 1) mx' b2"
      using True by (simp add: createHeap_loop.simps [of i] Let_def full_def cur'_def mx'_def lv'_def
          b1_def b2_def)
    have k: "i + 1 = mx' + cur'" "mx' = 2 ^ n'" "cur' < mx'" "lv' = int n' + 1"
      using "1.prems" by (auto simp: full_def cur'_def mx'_def lv'_def n'_def)
    then have "node_level (i + 1) = n'" by (intro node_level_eq) auto
    with k have addr: "getBaseMemoryWithIndex b1 (i + 1) mx' cur' = node_addr (baseMemory b) (i + 1)"
      by (simp add: getBaseMemoryWithIndex_def node_addr_def b1_def)
    have sh: "heap_shape b2" using "1.prems" by (simp add: b1_def b2_def heap_shape_def)
    have bm: "baseMemory b2 = baseMemory b" by (simp add: b1_def b2_def)
    note IH = "1.IH" [OF True full_def cur'_def
        mx'_def lv'_def
        b1_def b2_def, of n']
    have *: "fst (createHeap_loop (i + 1) lv' (cur' + 1) mx' b2) = 11 \<and>
      baseMemory (snd (createHeap_loop (i + 1) lv' (cur' + 1) mx' b2)) = baseMemory b2 \<and>
      heap_shape (snd (createHeap_loop (i + 1) lv' (cur' + 1) mx' b2)) \<and>
      (\<forall>j < HEAPSIZE. occupied (snd (createHeap_loop (i + 1) lv' (cur' + 1) mx' b2)) ! j =
         (if j < i + 1 then occupied b2 ! j else EMPTY)) \<and>
      (\<forall>j < HEAPSIZE. base (snd (createHeap_loop (i + 1) lv' (cur' + 1) mx' b2)) ! j =
         (if j < i + 1 then base b2 ! j else node_addr (baseMemory b2) (j + 1)))"
      using k True sh by (intro IH) auto
    have len: "i < length (occupied b)" "i < length (base b)"
      using "1.prems" True by (auto simp: heap_shape_def)
    show ?thesis
      unfolding step using * len addr
      by (auto simp: bm b2_def b1_def less_Suc_eq nth_list_update)
  qed
qed

lemma createHeap_spec:
  assumes "heap_shape b0"
  shows "heapLevel (createHeap b0) = 11" "baseMemory (createHeap b0) = 0x1000000"
    "heap_shape (createHeap b0)"
    "j < HEAPSIZE \<Longrightarrow> occupied (createHeap b0) ! j = EMPTY"
    "j < HEAPSIZE \<Longrightarrow> base (createHeap b0) ! j = node_addr 0x1000000 (j + 1)"
proof -
  have *: "heap_shape (b0\<lparr>baseMemory := 0x1000000\<rparr>)" using assms by (simp add: heap_shape_def)
  note spec = createHeap_loop_spec [of 0 1 0 0 1, OF _ _ _ _ _ _ *]
  show "heapLevel (createHeap b0) = 11" "baseMemory (createHeap b0) = 0x1000000"
    "heap_shape (createHeap b0)"
    "j < HEAPSIZE \<Longrightarrow> occupied (createHeap b0) ! j = EMPTY"
    "j < HEAPSIZE \<Longrightarrow> base (createHeap b0) ! j = node_addr 0x1000000 (j + 1)"
    using spec by (auto simp: createHeap_def Let_def heap_shape_def split: prod.splits)
qed

lemma getLevel_loop_le1: "getLevel_loop 1 i = Some i"
  by (simp add: getLevel_loop.simps)

lemma getLevel_loop_step:
  assumes "2 \<le> rta"
  shows "getLevel_loop (int rta) i = getLevel_loop (int ((rta + 1) div 2)) (i + 1)"
proof -
  have "int rta \<noteq> 1" using assms by simp
  moreover have "(if int rta smod 2 \<noteq> 0 then int rta sdiv 2 + 1 else int rta sdiv 2) = int ((rta + 1) div 2)"
    using assms by (cases "even rta") (auto simp: signed_divide_int_def signed_modulo_int_def elim!: evenE oddE)
  ultimately show ?thesis by (subst getLevel_loop.simps) (simp only: if_True simp_thms)
qed

text \<open>The loop counts the halvings: the least \<open>m\<close> with \<open>rta \<le> 2 ^ m\<close>.\<close>

lemma getLevel_loop_spec:
  "2 \<le> rta \<Longrightarrow> \<exists>m. getLevel_loop (int rta) i = Some (i + int (Suc m)) \<and> rta \<le> 2 ^ Suc m \<and> 2 ^ m < rta"
proof (induction rta arbitrary: i rule: less_induct)
  case (less rta)
  note step = getLevel_loop_step [OF less.prems, of i]
  show ?case
  proof (cases "rta = 2")
    case True
    with step show ?thesis by (intro exI [of _ 0]) (simp add: getLevel_loop_le1)
  next
    case False
    with less.prems have "2 \<le> (rta + 1) div 2" "(rta + 1) div 2 < rta" by auto
    from less.IH [OF this(2,1), of "i + 1"] obtain m where
      m: "getLevel_loop (int ((rta + 1) div 2)) (i + 1) = Some (i + 1 + int (Suc m))"
      "(rta + 1) div 2 \<le> 2 ^ Suc m" "2 ^ m < (rta + 1) div 2" by blast
    from m(2,3) have "rta \<le> 2 * 2 ^ Suc m" "2 * 2 ^ m < rta" by linarith+
    then have "rta \<le> 2 ^ Suc (Suc m)" "2 ^ Suc m < rta" by simp_all
    with m(1) step show ?thesis by (intro exI [of _ "Suc m"]) simp
  qed
qed

text \<open>From 0 the loop does not come back.\<close>

lemma getLevel_loop_zero: "getLevel_loop 0 i = None"
proof (rule ccontr)
  assume "getLevel_loop 0 i \<noteq> None"
  then obtain k where "getLevel_loop 0 i = Some k" by blast
  then have "(0::int) \<noteq> 0"
  proof (rule getLevel_loop.raw_induct [where P = "\<lambda>rta i k. rta \<noteq> 0", rotated])
    fix f rta i k
    assume IH: "\<And>rta i k. f rta i = Some k \<Longrightarrow> rta \<noteq> (0::int)"
      and eq: "(if rta \<noteq> 1 then f (if rta smod 2 \<noteq> 0 then rta sdiv 2 + 1 else rta sdiv 2) (i + 1) else Some i) = Some k"
    show "rta \<noteq> 0"
    proof
      assume "rta = 0"
      with eq have "f 0 (i + 1) = Some k" by (simp add: signed_divide_int_def signed_modulo_int_def)
      then show False using IH by blast
    qed
  qed
  then show False by simp
qed

text \<open>The narrowing keeps what 31 bits hold, and nothing above the lower half.\<close>

lemma narrow_small:
  assumes "n < 2 ^ 31"
  shows "sint (ucast (of_nat n :: 64 word) :: 32 word) = int n"
proof -
  have "sint (of_nat n :: 32 word) = int n" using assms by (simp add: signed_of_nat signed_take_bit_int_eq_self)
  moreover have "(ucast (of_nat n :: 64 word) :: 32 word) = of_nat n" by (simp add: unsigned_of_nat word_of_nat_eq_iff take_bit_take_bit)
  ultimately show ?thesis by simp
qed

lemma narrow_zero:
  assumes "unat (w :: 64 word) mod 2 ^ 32 = 0"
  shows "sint (ucast w :: 32 word) = 0"
proof -
  have "unat (ucast w :: 32 word) = 0" using assms by (simp add: unsigned_ucast_eq take_bit_eq_mod)
  then have "(ucast w :: 32 word) = 0" by (simp add: unat_eq_zero)
  then show ?thesis by simp
qed

lemma getLevel_spec:
  assumes "1 \<le> pages" "pages < 2 ^ 31"
  obtains m where "getLevel b (of_nat pages) = Some (heapLevel b - int m)" "pages \<le> 2 ^ m"
    "\<And>m'. pages \<le> 2 ^ m' \<Longrightarrow> m \<le> m'"
proof (cases "pages = 1")
  case True
  then show ?thesis using that [of 0] narrow_small [OF assms(2)] by (simp add: getLevel_def getLevel_loop_le1)
next
  case False
  with assms getLevel_loop_spec [of pages 0] obtain m where
    m: "getLevel_loop (int pages) 0 = Some (int (Suc m))" "pages \<le> 2 ^ Suc m" "2 ^ m < pages" by auto
  have "Suc m \<le> m'" if "pages \<le> 2 ^ m'" for m'
  proof -
    from m(3) that have "(2::nat) ^ m < 2 ^ m'" by linarith
    then show ?thesis by (simp add: Suc_le_eq)
  qed
  with m that [of "Suc m"] narrow_small [OF assms(2)] show ?thesis by (simp add: getLevel_def)
qed

section \<open>Allocation\<close>

lemma occ_set_occ:
  "heap_shape b \<Longrightarrow> 1 \<le> i \<Longrightarrow> i \<le> HEAPSIZE \<Longrightarrow> 1 \<le> j \<Longrightarrow>
   occ (set_occ i v b) j = (if j = i then v else occ b j)"
  by (auto simp: occ_def set_occ_def heap_shape_def nth_list_update)

lemma set_occ_frame [simp]:
  "base (set_occ i v b) = base b" "heapLevel (set_occ i v b) = heapLevel b"
  "baseMemory (set_occ i v b) = baseMemory b" "heap_shape (set_occ i v b) = heap_shape b"
  by (simp_all add: set_occ_def heap_shape_def)

text \<open>A node that is not empty has a parent that is not empty.\<close>

definition upward :: "buddy \<Rightarrow> bool" where
  "upward b \<longleftrightarrow> (\<forall>k. 2 \<le> k \<and> k \<le> HEAPSIZE \<and> occ b k \<noteq> EMPTY \<longrightarrow> occ b (k div 2) \<noteq> EMPTY)"

definition heap_ok :: "buddy \<Rightarrow> bool" where
  "heap_ok b \<longleftrightarrow> heap_shape b \<and> heapLevel b = 11 \<and> baseMemory b = 0x1000000 \<and>
     (\<forall>j < HEAPSIZE. base b ! j = node_addr 0x1000000 (j + 1)) \<and> upward b"

lemma heap_ok_createHeap: "heap_shape b0 \<Longrightarrow> heap_ok (createHeap b0)"
  by (auto simp: heap_ok_def createHeap_spec upward_def occ_def)

lemma node_addr_pos: "0x1000000 \<le> node_addr 0x1000000 k"
  by (simp add: node_addr_def)

text \<open>
  What a successful descent of \<open>d\<close> levels below \<open>index\<close> did: it took node \<open>n\<close>, which was
  empty with no full node on the way down to it, marked it full, and wrote only on that way,
  where no node is empty any more.
\<close>

definition takes :: "buddy \<Rightarrow> nat \<Rightarrow> nat \<Rightarrow> nat \<Rightarrow> buddy \<Rightarrow> bool" where
  "takes b index d n b' \<longleftrightarrow>
     n div 2 ^ d = index \<and> n \<le> HEAPSIZE \<and> occ b n = EMPTY \<and> occ b' n = BUDDY_FULL \<and>
     (\<forall>j \<le> d. occ b (n div 2 ^ j) \<noteq> BUDDY_FULL \<and> occ b' (n div 2 ^ j) \<noteq> EMPTY) \<and>
     (\<forall>k \<ge> 1. (\<forall>j \<le> d. k \<noteq> n div 2 ^ j) \<longrightarrow> occ b' k = occ b k) \<and>
     heap_shape b' \<and> base b' = base b \<and> heapLevel b' = heapLevel b \<and> baseMemory b' = baseMemory b"

lemma div_pow_Suc: "(n::nat) div 2 ^ Suc d = n div 2 ^ d div 2"
  by (metis div_mult2_eq power_Suc2)

lemma all_le_Suc: "(\<forall>j \<le> Suc d. Q j) \<longleftrightarrow> (\<forall>j \<le> d. Q j) \<and> Q (Suc d)"
  by (auto simp: le_Suc_eq)

text \<open>One level up: the write at \<open>index\<close> that follows a successful descent into a child.\<close>

lemma takes_parent:
  assumes t: "takes b c d n b1" and c: "c div 2 = index" "1 \<le> index" "c \<le> HEAPSIZE"
    and b: "heap_shape b" "occ b index \<noteq> BUDDY_FULL"
    and v: "b' = b1 \<and> occ b index \<noteq> EMPTY \<or> b' = set_occ index v b1 \<and> v \<noteq> EMPTY"
  shows "takes b index (Suc d) n b'"
proof -
  have sh: "heap_shape b1" using t by (simp add: takes_def)
  have nd: "n div 2 ^ d = c" using t by (simp add: takes_def)
  have ix: "index < c" "index \<le> HEAPSIZE" using c by auto
  have lt: "index < n div 2 ^ j" if "j \<le> d" for j
  proof -
    have "n div 2 ^ d \<le> n div 2 ^ j" using that by (intro div_le_mono2) (auto intro: power_increasing)
    with nd ix show ?thesis by simp
  qed
  have occ': "occ b' k = (if k = index \<and> b' \<noteq> b1 then v else occ b1 k)" if "1 \<le> k" for k
    using v sh c ix that by (auto simp: occ_set_occ)
  have up: "n div 2 ^ Suc d = index" unfolding div_pow_Suc nd by (rule c(1))
  have one: "1 \<le> n div 2 ^ j" if "j \<le> d" for j using lt [OF that] by simp
  have i1: "occ b1 index = occ b index"
    using t c lt unfolding takes_def by (metis less_irrefl)
  have "heap_shape b'" "base b' = base b" "heapLevel b' = heapLevel b" "baseMemory b' = baseMemory b"
    using v t by (auto simp: takes_def)
  moreover have "\<forall>j \<le> d. occ b' (n div 2 ^ j) = occ b1 (n div 2 ^ j)"
    using occ' lt one by (auto simp: less_le)
  moreover have "occ b' index \<noteq> EMPTY"
    using v
  proof
    assume "b' = b1 \<and> occ b index \<noteq> EMPTY"
    with i1 show ?thesis by simp
  next
    assume "b' = set_occ index v b1 \<and> v \<noteq> EMPTY"
    with sh c ix show ?thesis by (simp add: occ_set_occ)
  qed
  moreover have "n div 2 ^ 0 = n" by simp
  ultimately show ?thesis
    using t up b occ' c i1 unfolding takes_def all_le_Suc
    by (smt (verit) le0 less_irrefl)
qed

lemma getNextPage_spec:
  assumes "heap_shape b" "upward b" "\<forall>j < HEAPSIZE. base b ! j \<noteq> 0"
    and "1 \<le> index" "(index + 1) * 2 ^ d \<le> Suc HEAPSIZE"
  shows "\<exists>p b'. getNextPageRecursive b index cur (cur + int d) = Some (p, b') \<and>
     (p = 0 \<longrightarrow> b' = b \<and> occ b index \<noteq> EMPTY) \<and>
     (p \<noteq> 0 \<longrightarrow> (\<exists>n. takes b index d n b' \<and> p = base b ! (n - 1)))"
  using assms(4,5)
proof (induction d arbitrary: index cur)
  case 0
  then have ix: "index \<noteq> 0" "index \<le> HEAPSIZE" by auto
  show ?case
  proof (cases "occ b index = EMPTY")
    case True
    then have "getNextPageRecursive b index cur (cur + int 0) =
        Some (base b ! (index - 1), set_occ index BUDDY_FULL b)"
      using ix by (simp add: getNextPageRecursive.simps [of b index])
    moreover have "takes b index 0 index (set_occ index BUDDY_FULL b)"
      using True ix assms(1) by (auto simp: takes_def occ_set_occ)
    moreover have "base b ! (index - 1) \<noteq> 0" using ix assms(3) [rule_format, of "index - 1"] by simp
    ultimately show ?thesis
      by (intro exI [of _ "base b ! (index - 1)"] exI [of _ "set_occ index BUDDY_FULL b"]) auto
  next
    case False
    then have "getNextPageRecursive b index cur (cur + int 0) = Some (0, b)"
      using ix by (cases "occ b index") (simp_all add: getNextPageRecursive.simps [of b index])
    with False show ?thesis by auto
  qed
next
  case (Suc d)
  let ?f = "\<lambda>i. getNextPageRecursive b i (cur + 1) (cur + int (Suc d))"
  have ix: "index \<noteq> 0" "index \<le> HEAPSIZE"
    using Suc.prems mult_le_mono [of "index + 1" "index + 1" 1 "2 ^ Suc d"] by auto
  have pow: "1 \<le> (2::nat) ^ d" by simp
  have small: "(LCHILD index + 1) * 2 ^ d \<le> Suc HEAPSIZE" "(RCHILD index + 1) * 2 ^ d \<le> Suc HEAPSIZE"
    using Suc.prems(2) by (auto simp: LCHILD_def RCHILD_def algebra_simps)
  have rc: "RCHILD index \<le> HEAPSIZE" "LCHILD index \<le> HEAPSIZE"
    using small(2) mult_le_mono [OF order_refl pow, of "RCHILD index + 1"]
    by (simp_all add: LCHILD_def RCHILD_def)
  have ar: "cur + 1 + int d = cur + int (Suc d)" by simp
  have one: "1 \<le> LCHILD index" "1 \<le> RCHILD index"
    using Suc.prems(1) by (auto simp: LCHILD_def RCHILD_def)
  from Suc.IH [OF one(1) small(1), of "cur + 1"] obtain p1 b1 where
    l: "?f (LCHILD index) = Some (p1, b1)" "p1 = 0 \<longrightarrow> b1 = b \<and> occ b (LCHILD index) \<noteq> EMPTY"
      "p1 \<noteq> 0 \<longrightarrow> (\<exists>n. takes b (LCHILD index) d n b1 \<and> p1 = base b ! (n - 1))"
    unfolding ar by (elim exE conjE) (rule that)
  from Suc.IH [OF one(2) small(2), of "cur + 1"] obtain p2 b2 where
    r: "?f (RCHILD index) = Some (p2, b2)" "p2 = 0 \<longrightarrow> b2 = b"
      "p2 \<noteq> 0 \<longrightarrow> (\<exists>n. takes b (RCHILD index) d n b2 \<and> p2 = base b ! (n - 1))"
    unfolding ar by (elim exE conjE) (rule that, simp_all)
  have nonempty: "occ b index \<noteq> EMPTY" if "p1 = 0"
  proof -
    have "LCHILD index div 2 = index" "2 \<le> LCHILD index" using ix by (auto simp: LCHILD_def)
    with assms(2) rc(2) l(2) that show ?thesis unfolding upward_def by metis
  qed
  show ?case
  proof (cases "occ b index = BUDDY_FULL")
    case True
    then have "getNextPageRecursive b index cur (cur + int (Suc d)) = Some (0, b)"
      using ix by (simp add: getNextPageRecursive.simps [of b index])
    with True show ?thesis by auto
  next
    case False
    note unfold = getNextPageRecursive.simps [of b index cur "cur + int (Suc d)"]
    consider "p1 \<noteq> 0" | "p1 = 0" "p2 = 0" | "p1 = 0" "p2 \<noteq> 0" by blast
    then show ?thesis
    proof cases
      case 1
      with l(3) obtain n where n: "takes b (LCHILD index) d n b1" "p1 = base b ! (n - 1)" by blast
      from n(1) have "takes b index (Suc d) n (set_occ index PARTIALLY_FULL b1)"
        by (rule takes_parent) (use ix rc False assms(1) in \<open>auto simp: LCHILD_def\<close>)
      moreover have "getNextPageRecursive b index cur (cur + int (Suc d)) =
          Some (p1, set_occ index PARTIALLY_FULL b1)"
        using 1 False ix l(1) by (subst unfold) simp
      ultimately show ?thesis using 1 n(2) by metis
    next
      case 2
      then have "getNextPageRecursive b index cur (cur + int (Suc d)) = Some (0, b)"
        using False ix l(1,2) r(1,2) by (subst unfold) simp
      with nonempty 2 show ?thesis by simp
    next
      case 3
      with r(3) obtain n where n: "takes b (RCHILD index) d n b2" "p2 = base b ! (n - 1)" by blast
      let ?b = "if occ b2 (RCHILD index) = BUDDY_FULL then set_occ index BUDDY_FULL b2 else b2"
      from n(1) have "takes b index (Suc d) n ?b"
        by (rule takes_parent [where v = BUDDY_FULL])
          (use ix rc False assms(1) nonempty 3 in \<open>auto simp: RCHILD_def\<close>)
      moreover have "getNextPageRecursive b index cur (cur + int (Suc d)) = Some (p2, ?b)"
        using 3 False ix l(1,2) r(1) by (subst unfold) simp
      ultimately show ?thesis using 3 n(2) by metis
    qed
  qed
qed

lemma heap_okD:
  assumes "heap_ok b"
  shows "heap_shape b" "upward b" "heapLevel b = 11" "baseMemory b = 0x1000000"
    "j < HEAPSIZE \<Longrightarrow> base b ! j = node_addr 0x1000000 (j + 1)" "\<forall>j < HEAPSIZE. base b ! j \<noteq> 0"
proof -
  show "heap_shape b" "upward b" "heapLevel b = 11" "baseMemory b = 0x1000000"
    "j < HEAPSIZE \<Longrightarrow> base b ! j = node_addr 0x1000000 (j + 1)"
    using assms by (simp_all add: heap_ok_def)
  show "\<forall>j < HEAPSIZE. base b ! j \<noteq> 0"
  proof (intro allI impI)
    fix j assume "j < HEAPSIZE"
    with assms have "base b ! j = node_addr 0x1000000 (j + 1)" by (simp add: heap_ok_def)
    with node_addr_pos [of "j + 1"] show "base b ! j \<noteq> 0" by simp
  qed
qed

text \<open>\<open>allocPage\<close> on a heap in order: it always returns, and on success it took one node.\<close>

lemma allocPage_cases:
  assumes ok: "heap_ok b" and alloc: "allocPage b pages = r"
  obtains (null) "r = Some (0, b)"
  | (taken) m n b' where "r = Some (base b ! (n - 1), b')" "takes b 1 (10 - m) n b'"
      "pages \<le> 2 ^ m" "m \<le> 10" "base b ! (n - 1) \<noteq> 0" "1 \<le> pages"
proof (cases "pages = 0 \<or> NUMBER_OF_PAGES < pages")
  case True
  with alloc null show ?thesis by (auto simp: allocPage_def)
next
  case False
  then have p: "1 \<le> pages" "pages < 2 ^ 31" by simp_all
  obtain m where m: "getLevel b (of_nat pages) = Some (heapLevel b - int m)" "pages \<le> 2 ^ m"
    "\<And>m'. pages \<le> 2 ^ m' \<Longrightarrow> m \<le> m'"
    by (rule getLevel_spec [OF p, of b], rule that, assumption+)
  have m10: "m \<le> 10" using False by (intro m(3)) auto
  have lev: "heapLevel b - int m = 1 + int (10 - m)" using m10 heap_okD [OF ok] by simp
  have eq: "allocPage b pages = getNextPageRecursive b 1 1 (1 + int (10 - m))"
    using False m(1) heap_okD(3) [OF ok] m10 unfolding allocPage_def lev by (simp add: lev)
  have "(2::nat) ^ (10 - m) \<le> 2 ^ 10" by (rule power_increasing) auto
  then have "(1 + 1) * 2 ^ (10 - m) \<le> Suc HEAPSIZE" by simp
  from getNextPage_spec [OF heap_okD(1) [OF ok] heap_okD(2) [OF ok] heap_okD(6) [OF ok] le_refl this, of 1] obtain p b' where
    p: "r = Some (p, b')" "p = 0 \<longrightarrow> b' = b"
       "p \<noteq> 0 \<longrightarrow> (\<exists>n. takes b 1 (10 - m) n b' \<and> p = base b ! (n - 1))"
    using alloc unfolding eq by (elim exE conjE) (rule that, simp_all)
  show ?thesis
  proof (cases "p = 0")
    case True
    with p null show ?thesis by simp
  next
    case nz: False
    with p(3) obtain n where "takes b 1 (10 - m) n b'" "p = base b ! (n - 1)" by blast
    with p(1) nz m m10 False taken show ?thesis by auto
  qed
qed

lemma heap_ok_takes:
  assumes ok: "heap_ok b" and t: "takes b 1 d n b'"
  shows "heap_ok b'"
proof -
  have "occ b' (k div 2) \<noteq> EMPTY" if k: "2 \<le> k" "k \<le> HEAPSIZE" "occ b' k \<noteq> EMPTY" for k
  proof (cases "\<exists>j \<le> d. k = n div 2 ^ j")
    case True
    then obtain j where j: "j \<le> d" "k = n div 2 ^ j" by blast
    from t have "n div 2 ^ d = 1" by (simp add: takes_def)
    with j k have "j \<noteq> d" by auto
    with j have "Suc j \<le> d" "k div 2 = n div 2 ^ Suc j" unfolding div_pow_Suc by auto
    with t show ?thesis unfolding takes_def by metis
  next
    case False
    with t k have "occ b k \<noteq> EMPTY" unfolding takes_def by (metis One_nat_def Suc_leD numeral_2_eq_2)
    with ok k have e: "occ b (k div 2) \<noteq> EMPTY" by (auto simp: heap_ok_def upward_def)
    show ?thesis
    proof (cases "\<exists>j \<le> d. k div 2 = n div 2 ^ j")
      case True
      with t show ?thesis unfolding takes_def by auto
    next
      case False
      with t k e show ?thesis unfolding takes_def by (metis Suc_1 Suc_leI div_greater_zero_iff zero_less_Suc One_nat_def)
    qed
  qed
  with ok t show ?thesis by (auto simp: heap_ok_def upward_def takes_def)
qed

section \<open>Blocks of the tree as address ranges\<close>

definition node_range :: "nat \<Rightarrow> addr set" where
  "node_range k = {node_addr 0x1000000 k ..< node_addr 0x1000000 k + MEMORY div 2 ^ node_level k}"

text \<open>Node \<open>k\<close> covers an address exactly when the leaf of that address is below \<open>k\<close>.\<close>

lemma node_range_leaf:
  assumes "1 \<le> k" "k \<le> HEAPSIZE" "a \<in> node_range k"
  shows "((a - 0x1000000) div PAGE_SIZE + 1024) div 2 ^ (10 - node_level k) = k"
    and "0x1000000 \<le> a" "a < 0x1000000 + MEMORY"
proof -
  define l where "l = node_level k"
  define m where "m = 10 - l"
  have lk: "2 ^ l \<le> k" "k < 2 * 2 ^ l" using node_level_bounds [of k] assms(1) by (auto simp: l_def)
  have "(2::nat) ^ l < 2 ^ 11" using lk(1) assms(2) by simp
  then have "l \<le> 10" by (metis less_Suc_eq_le nat_power_less_imp_less zero_less_numeral eval_nat_numeral(3) numeral_eq_Suc pred_numeral_simps(3))
  then have lm: "(2::nat) ^ l * 2 ^ m = 1024" "l + m = 10"
    by (simp_all add: m_def power_add [symmetric])
  have sz: "MEMORY div 2 ^ l = 2 ^ m * 4096"
  proof -
    have "MEMORY = 2 ^ l * (2 ^ m * 4096)" using lm(1) by simp
    then show ?thesis by (metis nonzero_mult_div_cancel_left power_not_zero zero_neq_numeral)
  qed
  define o' where "o' = a - 0x1000000"
  have a: "a = 0x1000000 + o'" and o1: "2 ^ m * 4096 * (k - 2 ^ l) \<le> o'"
    and o2: "o' < 2 ^ m * 4096 * (k - 2 ^ l) + 2 ^ m * 4096"
    using assms(3) by (auto simp: node_range_def node_addr_def l_def [symmetric] sz [unfolded page_consts] o'_def)
  have "o' div 4096 div 2 ^ m = o' div (2 ^ m * 4096)" by (metis div_mult2_eq mult.commute)
  also have "\<dots> = k - 2 ^ l"
    using o1 o2 by (intro div_nat_eqI) (auto simp: algebra_simps)
  finally have q: "o' div 4096 div 2 ^ m = k - 2 ^ l" .
  have "(o' div 4096 + 2 ^ l * 2 ^ m) div 2 ^ m = o' div 4096 div 2 ^ m + 2 ^ l"
    by simp
  with q lk lm have "(o' div 4096 + 1024) div 2 ^ m = k" by simp
  then show "((a - 0x1000000) div PAGE_SIZE + 1024) div 2 ^ (10 - node_level k) = k"
    by (simp add: o'_def m_def l_def)
  show "0x1000000 \<le> a" using a by simp
  have "k - 2 ^ l + 1 \<le> 2 ^ l" using lk by simp
  then have "2 ^ m * 4096 * (k - 2 ^ l + 1) \<le> 2 ^ m * 4096 * 2 ^ l" by (rule mult_le_mono2)
  also have "\<dots> = MEMORY" using lm(1) by (simp add: mult.commute mult.left_commute)
  finally show "a < 0x1000000 + MEMORY" using a o2 by (simp add: algebra_simps)
qed

lemma unrelated_disjoint:
  assumes "1 \<le> j" "j \<le> HEAPSIZE" "1 \<le> k" "k \<le> HEAPSIZE"
    and "\<And>e. j \<noteq> k div 2 ^ e" "\<And>e. k \<noteq> j div 2 ^ e"
  shows "node_range j \<inter> node_range k = {}"
proof (rule ccontr)
  assume "node_range j \<inter> node_range k \<noteq> {}"
  then obtain a where a: "a \<in> node_range j" "a \<in> node_range k" by blast
  define x where "x = (a - 0x1000000) div PAGE_SIZE + 1024"
  have up: "y div 2 ^ s div 2 ^ (t - s) = y div 2 ^ t" if "s \<le> t" for y s t :: nat
    using that by (simp add: div_mult2_eq [symmetric] power_add [symmetric])
  have j: "x div 2 ^ (10 - node_level j) = j" and k: "x div 2 ^ (10 - node_level k) = k"
    using node_range_leaf(1) [OF assms(1,2) a(1)] node_range_leaf(1) [OF assms(3,4) a(2)]
    by (simp_all add: x_def)
  show False
  proof (cases "10 - node_level j \<le> 10 - node_level k")
    case True
    from up [OF this, of x] j k assms(6) show False by metis
  next
    case False
    then have "10 - node_level k \<le> 10 - node_level j" by simp
    from up [OF this, of x] j k assms(5) show False by metis
  qed
qed

section \<open>The interface to the clients of the allocator\<close>

text \<open>A sequence of requests, each from the state the one before left.\<close>

fun alloc_seq :: "('s \<Rightarrow> nat \<Rightarrow> (addr \<times> 's) option) \<Rightarrow> 's \<Rightarrow> nat list \<Rightarrow> (addr list \<times> 's) option" where
  "alloc_seq alloc s [] = Some ([], s)"
| "alloc_seq alloc s (n # ns) =
     (case alloc s n of
        None \<Rightarrow> None
      | Some (p, s') \<Rightarrow> map_option (\<lambda>(ps, t). (p # ps, t)) (alloc_seq alloc s' ns))"

definition block_range :: "addr \<Rightarrow> nat \<Rightarrow> addr set" where
  "block_range p pages = {p ..< p + pages * PAGE_SIZE}"

text \<open>
  What a client that only allocates may rely on: \<open>inv s U\<close> says that \<open>s\<close> is in order and
  the addresses \<open>U\<close> are handed out.
\<close>

locale page_provider =
  fixes alloc :: "'s \<Rightarrow> nat \<Rightarrow> (addr \<times> 's) option"
    and inv :: "'s \<Rightarrow> addr set \<Rightarrow> bool"
    and region :: "addr set"
  assumes alloc_total: "inv s U \<Longrightarrow> \<exists>p s'. alloc s n = Some (p, s')"
    and alloc_null: "inv s U \<Longrightarrow> alloc s n = Some (0, s') \<Longrightarrow> inv s' U"
    and alloc_fresh: "inv s U \<Longrightarrow> alloc s n = Some (p, s') \<Longrightarrow> p \<noteq> 0 \<Longrightarrow>
      block_range p n \<inter> U = {} \<and> block_range p n \<subseteq> region \<and> inv s' (U \<union> block_range p n)"
begin

lemma alloc_seq_total: "inv s U \<Longrightarrow> \<exists>ps t. alloc_seq alloc s ns = Some (ps, t) \<and> length ps = length ns"
proof (induction ns arbitrary: s U)
  case Nil
  then show ?case by simp
next
  case (Cons n ns)
  from alloc_total [OF Cons.prems] obtain p s' where s': "alloc s n = Some (p, s')" by blast
  have "\<exists>U'. inv s' U'"
    using alloc_null [OF Cons.prems, of n s'] alloc_fresh [OF Cons.prems s'] s' by (cases "p = 0") auto
  with Cons.IH s' show ?case by fastforce
qed

lemma alloc_seq_inv:
  "inv s U \<Longrightarrow> alloc_seq alloc s ns = Some (ps, t) \<Longrightarrow>
   \<exists>U'. inv t U' \<and> U \<subseteq> U' \<and> (\<forall>i < length ns. ps ! i \<noteq> 0 \<longrightarrow> block_range (ps ! i) (ns ! i) \<subseteq> U')"
proof (induction ns arbitrary: s U ps)
  case Nil
  then show ?case by auto
next
  case (Cons n ns)
  from Cons.prems(2) obtain p s' ps' where
    s': "alloc s n = Some (p, s')" "alloc_seq alloc s' ns = Some (ps', t)" "ps = p # ps'"
    by (auto split: option.splits)
  define V where "V = (if p = 0 then U else U \<union> block_range p n)"
  have "inv s' V"
    using alloc_null [OF Cons.prems(1), of n s'] alloc_fresh [OF Cons.prems(1) s'(1)] s'(1)
    by (auto simp: V_def)
  from Cons.IH [OF this s'(2)] obtain U' where U': "inv t U'" "V \<subseteq> U'"
    "\<forall>i < length ns. ps' ! i \<noteq> 0 \<longrightarrow> block_range (ps' ! i) (ns ! i) \<subseteq> U'" by blast
  then show ?case
    by (intro exI [of _ U']) (auto simp: V_def s'(3) less_Suc_eq_0_disj split: if_splits; blast)
qed

lemma alloc_seq_fresh:
  "inv s U \<Longrightarrow> alloc_seq alloc s ns = Some (ps, t) \<Longrightarrow> i < length ns \<Longrightarrow> ps ! i \<noteq> 0 \<Longrightarrow>
   block_range (ps ! i) (ns ! i) \<inter> U = {} \<and> block_range (ps ! i) (ns ! i) \<subseteq> region"
proof (induction ns arbitrary: s U ps i)
  case Nil
  then show ?case by simp
next
  case (Cons n ns)
  from Cons.prems(2) obtain p s' ps' where
    s': "alloc s n = Some (p, s')" "alloc_seq alloc s' ns = Some (ps', t)" "ps = p # ps'"
    by (auto split: option.splits)
  define U' where "U' = (if p = 0 then U else U \<union> block_range p n)"
  have inv: "inv s' U'" "U \<subseteq> U'"
    using alloc_null [OF Cons.prems(1), of n s'] alloc_fresh [OF Cons.prems(1) s'(1)] s'(1)
    by (auto simp: U'_def)
  show ?case
  proof (cases i)
    case 0
    with Cons.prems s' alloc_fresh [OF Cons.prems(1) s'(1)] show ?thesis by simp
  next
    case (Suc j)
    with Cons.IH [OF inv(1) s'(2), of j] Cons.prems s' inv(2) show ?thesis by auto
  qed
qed

lemma alloc_seq_disjoint:
  "inv s U \<Longrightarrow> alloc_seq alloc s ns = Some (ps, t) \<Longrightarrow> i < j \<Longrightarrow> j < length ns \<Longrightarrow>
   ps ! i \<noteq> 0 \<Longrightarrow> ps ! j \<noteq> 0 \<Longrightarrow> block_range (ps ! i) (ns ! i) \<inter> block_range (ps ! j) (ns ! j) = {}"
proof (induction ns arbitrary: s U ps i j)
  case Nil
  then show ?case by simp
next
  case (Cons n ns)
  from Cons.prems(2) obtain p s' ps' where
    s': "alloc s n = Some (p, s')" "alloc_seq alloc s' ns = Some (ps', t)" "ps = p # ps'"
    by (auto split: option.splits)
  define U' where "U' = (if p = 0 then U else U \<union> block_range p n)"
  have inv: "inv s' U'"
    using alloc_null [OF Cons.prems(1), of n s'] alloc_fresh [OF Cons.prems(1) s'(1)] s'(1)
    by (auto simp: U'_def)
  obtain j' where j': "j = Suc j'" using Cons.prems(3) by (cases j) auto
  show ?case
  proof (cases i)
    case 0
    with Cons.prems s' j' have "p \<noteq> 0" by simp
    with 0 alloc_seq_fresh [OF inv s'(2), of j'] Cons.prems s' j' show ?thesis
      by (auto simp: U'_def)
  next
    case (Suc i')
    with Cons.IH [OF inv s'(2), of i' j'] Cons.prems s' j' show ?thesis by simp
  qed
qed

end

definition buddy_inv :: "buddy \<Rightarrow> addr set \<Rightarrow> bool" where
  "buddy_inv b U \<longleftrightarrow> heap_ok b \<and>
     (\<exists>A. (\<forall>k \<in> A. 1 \<le> k \<and> k \<le> HEAPSIZE \<and> occ b k = BUDDY_FULL) \<and> U \<subseteq> (\<Union>k \<in> A. node_range k))"

definition managed :: "addr set" where
  "managed = {0x1000000 ..< 0x1000000 + MEMORY}"

lemma upward_ancestor:
  "upward b \<Longrightarrow> k \<le> HEAPSIZE \<Longrightarrow> occ b k \<noteq> EMPTY \<Longrightarrow> 1 \<le> k div 2 ^ e \<Longrightarrow> occ b (k div 2 ^ e) \<noteq> EMPTY"
proof (induction e)
  case 0
  then show ?case by simp
next
  case (Suc e)
  let ?j = "k div 2 ^ e"
  have up: "k div 2 ^ Suc e = ?j div 2" by (rule div_pow_Suc)
  with Suc.prems(4) have "2 \<le> ?j" by simp
  moreover have "?j \<le> HEAPSIZE" using Suc.prems(2) by (meson div_le_dividend le_trans)
  ultimately show ?case using Suc unfolding up upward_def by simp
qed

lemma takes_block:
  assumes ok: "heap_ok b" and t: "takes b 1 (10 - m) n b'" and m: "m \<le> 10" "pages \<le> 2 ^ m"
  shows "1 \<le> n" "n \<le> HEAPSIZE" "base b ! (n - 1) = node_addr 0x1000000 n"
    "block_range (node_addr 0x1000000 n) pages \<subseteq> node_range n"
proof -
  have d: "n div 2 ^ (10 - m) = 1" and n: "n \<le> HEAPSIZE" using t by (simp_all add: takes_def)
  have b: "2 ^ (10 - m) \<le> n" "n < 2 ^ Suc (10 - m)"
  proof -
    have "n = 2 ^ (10 - m) * (n div 2 ^ (10 - m)) + n mod 2 ^ (10 - m)" by simp
    moreover have "n mod 2 ^ (10 - m) < 2 ^ (10 - m)" by simp
    ultimately show "2 ^ (10 - m) \<le> n" "n < 2 ^ Suc (10 - m)" unfolding d power_Suc by linarith+
  qed
  show n1: "1 \<le> n" using b(1) one_le_power [of "2::nat" "10 - m"] by linarith
  show "n \<le> HEAPSIZE" by (rule n)
  show "base b ! (n - 1) = node_addr 0x1000000 n"
    using heap_okD(5) [OF ok, of "n - 1"] n1 n by simp
  have "node_level n = 10 - m" using b by (rule node_level_eq)
  moreover have "MEMORY div 2 ^ (10 - m) = 2 ^ m * PAGE_SIZE"
  proof -
    have "(2::nat) ^ (10 - m) * 2 ^ m = 2 ^ 10" using m(1) by (simp add: power_add [symmetric])
    then have "MEMORY = 2 ^ (10 - m) * (2 ^ m * PAGE_SIZE)" by (simp add: ac_simps)
    then show ?thesis by (metis nonzero_mult_div_cancel_left power_not_zero zero_neq_numeral)
  qed
  moreover have "pages * PAGE_SIZE \<le> 2 ^ m * PAGE_SIZE" using m(2) by (rule mult_le_mono1)
  ultimately show "block_range (node_addr 0x1000000 n) pages \<subseteq> node_range n"
    unfolding block_range_def node_range_def by (intro ivl_subset [THEN iffD2]) simp
qed

text \<open>The node taken is unrelated in the tree to every block handed out before.\<close>

lemma takes_unrelated:
  assumes ok: "heap_ok b" and t: "takes b 1 d n b'" and k: "1 \<le> k" "k \<le> HEAPSIZE" "occ b k = BUDDY_FULL"
  shows "k \<noteq> n div 2 ^ e" and "n \<noteq> k div 2 ^ e"
proof -
  have top: "n div 2 ^ d = 1" using t by (simp add: takes_def)
  show "k \<noteq> n div 2 ^ e"
  proof (cases "e \<le> d")
    case True
    with t k(3) show ?thesis unfolding takes_def by metis
  next
    case False
    then have "n div 2 ^ e = n div 2 ^ d div 2 ^ (e - d)"
      by (simp add: div_mult2_eq [symmetric] power_add [symmetric])
    also have "\<dots> = 0"
      using False one_less_power [of "2::nat" "e - d"] unfolding top by simp
    finally show ?thesis using k(1) by simp
  qed
  have "1 \<le> n" using top by (cases n) auto
  then show "n \<noteq> k div 2 ^ e"
    using upward_ancestor [OF heap_okD(2) [OF ok] k(2), of e] k(3) t by (auto simp: takes_def)
qed

interpretation buddy: page_provider allocPage buddy_inv managed
proof
  fix b U n
  assume inv: "buddy_inv b U"
  then have ok: "heap_ok b" by (simp add: buddy_inv_def)
  show "\<exists>p s'. allocPage b n = Some (p, s')"
    by (rule allocPage_cases [OF ok refl, of n]) auto
next
  fix b U n b'
  assume inv: "buddy_inv b U" and al: "allocPage b n = Some (0, b')"
  then have ok: "heap_ok b" by (simp add: buddy_inv_def)
  show "buddy_inv b' U"
    using inv by (rule_tac allocPage_cases [OF ok al]) auto
next
  fix b U n p b'
  assume inv: "buddy_inv b U" and al: "allocPage b n = Some (p, b')" and p: "p \<noteq> 0"
  then have ok: "heap_ok b" by (simp add: buddy_inv_def)
  from inv obtain A where A: "\<forall>k \<in> A. 1 \<le> k \<and> k \<le> HEAPSIZE \<and> occ b k = BUDDY_FULL"
    "U \<subseteq> (\<Union>k \<in> A. node_range k)" by (auto simp: buddy_inv_def)
  obtain m k where t: "p = base b ! (k - 1)" "takes b 1 (10 - m) k b'" "m \<le> 10" "n \<le> 2 ^ m"
    by (rule allocPage_cases [OF ok al]) (use p in auto)
  note blk = takes_block [OF ok t(2-4)]
  have sub: "block_range p n \<subseteq> node_range k" using blk t(1) by simp
  have "node_range k \<inter> node_range j = {}" if "j \<in> A" for j
    using A(1) that blk takes_unrelated [OF ok t(2), of j] by (intro unrelated_disjoint) auto
  with sub A(2) have disj: "block_range p n \<inter> U = {}" by blast
  have reg: "block_range p n \<subseteq> managed"
    using sub node_range_leaf(2,3) [OF blk(1,2)] by (auto simp: managed_def)
  have full: "occ b' j = BUDDY_FULL" if "j \<in> insert k A" for j
    using that A(1) t(2) unfolding takes_def by (metis insert_iff)
  have "buddy_inv b' (U \<union> block_range p n)"
    unfolding buddy_inv_def
    using heap_ok_takes [OF ok t(2)] full A sub blk by (intro conjI exI [of _ "insert k A"]) auto
  with disj reg show "block_range p n \<inter> U = {} \<and> block_range p n \<subseteq> managed \<and>
      buddy_inv b' (U \<union> block_range p n)" by simp
qed

lemma buddy_inv_createHeap: "heap_shape b0 \<Longrightarrow> buddy_inv (createHeap b0) {}"
  by (auto simp: buddy_inv_def heap_ok_createHeap)

section \<open>Releasing blocks\<close>

text \<open>A heap in which no page is in use.\<close>

definition all_empty :: "buddy \<Rightarrow> bool" where
  "all_empty b \<longleftrightarrow> heap_ok b \<and> (\<forall>k. 1 \<le> k \<and> k \<le> HEAPSIZE \<longrightarrow> occ b k = EMPTY)"

lemma all_empty_createHeap: "heap_shape b0 \<Longrightarrow> all_empty (createHeap b0)"
  by (auto simp: all_empty_def heap_ok_createHeap occ_def intro: createHeap_spec(4))

text \<open>
  The occupancy along the left edge of the tree, node \<open>2 ^ i\<close> on level \<open>i + 1\<close>, while a
  block taken at depth \<open>d\<close> is being released upwards from depth \<open>j\<close>.
\<close>

definition left_edge :: "nat \<Rightarrow> nat \<Rightarrow> buddy \<Rightarrow> bool" where
  "left_edge d j b \<longleftrightarrow> heap_shape b \<and>
     (\<forall>i < j. occ b (2 ^ i) = (if i < d then PARTIALLY_FULL else if i = d then BUDDY_FULL else EMPTY)) \<and>
     (\<forall>k. 1 \<le> k \<and> k \<le> HEAPSIZE \<and> (\<forall>i < j. k \<noteq> 2 ^ i) \<longrightarrow> occ b k = EMPTY)"

lemma pow2_le_heap: "j \<le> 10 \<Longrightarrow> (2::nat) ^ j \<le> HEAPSIZE"
  using power_increasing [of j 10 "2::nat"] by simp

lemma all_empty_occ: "all_empty b \<Longrightarrow> 1 \<le> k \<Longrightarrow> k \<le> HEAPSIZE \<Longrightarrow> occ b k = EMPTY"
  by (simp add: all_empty_def)

lemma freeUp_left_edge:
  "left_edge d j b \<Longrightarrow> j \<le> 10 \<Longrightarrow>
   left_edge d 0 (freeUpRecursive (2 ^ j) b) \<and> base (freeUpRecursive (2 ^ j) b) = base b \<and>
   heapLevel (freeUpRecursive (2 ^ j) b) = heapLevel b \<and>
   baseMemory (freeUpRecursive (2 ^ j) b) = baseMemory b"
proof (induction j arbitrary: b)
  case 0
  then show ?case by (simp add: freeUpRecursive.simps)
next
  case (Suc j)
  have sh: "heap_shape b" using Suc.prems(1) by (simp add: left_edge_def)
  have le: "(2::nat) ^ Suc j \<le> HEAPSIZE" using Suc.prems(2) by (intro pow2_le_heap)
  have pj: "(1::nat) \<le> 2 ^ j" "(2::nat) ^ j \<le> HEAPSIZE" using le by auto
  have ne: "(2::nat) ^ Suc j + 1 \<noteq> 2 ^ i" if "i < Suc j" for i
    using power_strict_increasing [OF that, of "2::nat"] by simp
  have "2 ^ Suc j + 1 \<le> HEAPSIZE"
    using power_increasing [OF Suc.prems(2), of "2::nat"] by simp
  with ne have sib: "occ b (SIBLING (2 ^ Suc j)) = EMPTY"
    using Suc.prems(1) by (auto simp: left_edge_def SIBLING_def)
  have par: "PARENT (2 ^ Suc j) = 2 ^ j" by (simp add: PARENT_def)
  have st: "occ b (2 ^ j) = (if j < d then PARTIALLY_FULL else if j = d then BUDDY_FULL else EMPTY)"
    using Suc.prems(1) by (simp add: left_edge_def)
  define b' where "b' = (if occ b (2 ^ j) = EMPTY then b else set_occ (2 ^ j) EMPTY b)"
  have step: "freeUpRecursive (2 ^ Suc j) b = freeUpRecursive (2 ^ j) b'"
  proof -
    have nle: "\<not> (2::nat) ^ Suc j \<le> 1" using pj(1) unfolding power_Suc by linarith
    have half: "(2::nat) ^ Suc j div 2 = 2 ^ j" by simp
    show ?thesis
      unfolding freeUpRecursive.simps [of "2 ^ Suc j" b] Let_def sib par half b'_def if_not_P [OF nle]
      by (cases "occ b (2 ^ j)") simp_all
  qed
  have occ': "occ b' k = (if k = 2 ^ j then EMPTY else occ b k)" if "1 \<le> k" for k
    using sh pj that by (auto simp: b'_def occ_set_occ)
  have "left_edge d j b'"
    unfolding left_edge_def
  proof (intro conjI allI impI)
    show "heap_shape b'" using sh by (simp add: b'_def)
    fix i assume "i < j"
    then have "(2::nat) ^ i \<noteq> 2 ^ j" by simp
    with occ' [of "2 ^ i"] Suc.prems(1) \<open>i < j\<close>
    show "occ b' (2 ^ i) = (if i < d then PARTIALLY_FULL else if i = d then BUDDY_FULL else EMPTY)"
      by (simp add: left_edge_def)
  next
    fix k :: nat assume k: "1 \<le> k \<and> k \<le> HEAPSIZE \<and> (\<forall>i < j. k \<noteq> 2 ^ i)"
    with occ' [of k] Suc.prems(1) show "occ b' k = EMPTY"
      unfolding left_edge_def by (metis less_SucE)
  qed
  with Suc.IH [of b'] Suc.prems(2) show ?case
    unfolding step by (simp add: b'_def)
qed

text \<open>On an empty tree the descent keeps to the left edge.\<close>

fun mark_left :: "nat \<Rightarrow> nat \<Rightarrow> buddy \<Rightarrow> buddy" where
  "mark_left index 0 b = set_occ index BUDDY_FULL b"
| "mark_left index (Suc d) b = set_occ index PARTIALLY_FULL (mark_left (index * 2) d b)"

lemma getNextPage_empty:
  assumes "all_empty b" "1 \<le> index" "(index + 1) * 2 ^ d \<le> Suc HEAPSIZE"
  shows "getNextPageRecursive b index cur (cur + int d) =
    Some (base b ! (index * 2 ^ d - 1), mark_left index d b) \<and> base b ! (index * 2 ^ d - 1) \<noteq> 0"
  using assms(2,3)
proof (induction d arbitrary: index cur)
  case 0
  then have "index \<noteq> 0" "index \<le> HEAPSIZE" by auto
  moreover have "base b ! (index - 1) \<noteq> 0"
    using heap_okD(6) [of b] assms(1) calculation by (auto simp: all_empty_def)
  ultimately show ?case
    using assms(1) by (simp add: getNextPageRecursive.simps [of b index] all_empty_def)
next
  case (Suc d)
  have ix: "index \<noteq> 0" "index \<le> HEAPSIZE"
    using Suc.prems mult_le_mono [of "index + 1" "index + 1" 1 "2 ^ Suc d"] by auto
  have small: "(index * 2 + 1) * 2 ^ d \<le> Suc HEAPSIZE" using Suc.prems(2) by (auto simp: algebra_simps)
  have ar: "cur + 1 + int d = cur + int (Suc d)" by simp
  have empty: "occ b index = EMPTY" using assms(1) ix by (simp add: all_empty_def)
  have IH: "getNextPageRecursive b (LCHILD index) (cur + 1) (cur + int (Suc d)) =
      Some (base b ! (index * 2 * 2 ^ d - 1), mark_left (index * 2) d b)"
    "base b ! (index * 2 * 2 ^ d - 1) \<noteq> 0"
    using Suc.IH [OF _ small, of "cur + 1"] Suc.prems(1) unfolding ar LCHILD_def by auto
  have ix2: "index * 2 * 2 ^ d = index * 2 ^ Suc d" by simp
  have "getNextPageRecursive b index cur (cur + int (Suc d)) =
      Some (base b ! (index * 2 ^ Suc d - 1), mark_left index (Suc d) b)"
    using ix empty IH unfolding ix2 by (subst getNextPageRecursive.simps) simp
  with IH(2) show ?case unfolding ix2 by blast
qed

lemma mark_left_frame [simp]:
  "heap_shape (mark_left i d b) = heap_shape b" "base (mark_left i d b) = base b"
  "heapLevel (mark_left i d b) = heapLevel b" "baseMemory (mark_left i d b) = baseMemory b"
  by (induction i d b rule: mark_left.induct) simp_all

lemma occ_mark_left:
  "heap_shape b \<Longrightarrow> 1 \<le> index \<Longrightarrow> index * 2 ^ d \<le> HEAPSIZE \<Longrightarrow> 1 \<le> k \<Longrightarrow>
   occ (mark_left index d b) k =
     (if k = index * 2 ^ d then BUDDY_FULL
      else if \<exists>i < d. k = index * 2 ^ i then PARTIALLY_FULL else occ b k)"
proof (induction d arbitrary: index)
  case 0
  then show ?case by (simp add: occ_set_occ)
next
  case (Suc d)
  have "index \<le> index * 2 ^ Suc d" by simp
  with Suc.prems have ix: "index \<le> HEAPSIZE" by linarith
  have lt: "index < index * 2 ^ Suc d" using Suc.prems(2) one_less_power [of "2::nat" "Suc d"] by simp
  have ex: "(\<exists>i < Suc d. k = index * 2 ^ i) \<longleftrightarrow> k = index \<or> (\<exists>i < d. k = index * 2 * 2 ^ i)"
    by (auto simp: less_Suc_eq_0_disj)
  show ?case
    using Suc.IH [of "index * 2"] Suc.prems ix lt unfolding ex
    by (auto simp: occ_set_occ mult.assoc)
qed


lemma buddy_eqI:
  "heap_shape b \<Longrightarrow> heap_shape b' \<Longrightarrow> base b = base b' \<Longrightarrow> heapLevel b = heapLevel b' \<Longrightarrow>
   baseMemory b = baseMemory b' \<Longrightarrow> (\<And>k. 1 \<le> k \<Longrightarrow> k \<le> HEAPSIZE \<Longrightarrow> occ b k = occ b' k) \<Longrightarrow> b = b'"
  for b b' :: buddy
proof -
  assume a: "heap_shape b" "heap_shape b'" "base b = base b'" "heapLevel b = heapLevel b'"
    "baseMemory b = baseMemory b'" "\<And>k. 1 \<le> k \<Longrightarrow> k \<le> HEAPSIZE \<Longrightarrow> occ b k = occ b' k"
  have "occupied b ! i = occupied b' ! i" if "i < HEAPSIZE" for i
    using a(6) [of "Suc i"] that by (simp add: occ_def)
  with a(1,2) have "occupied b = occupied b'"
    by (intro nth_equalityI) (auto simp: heap_shape_def)
  with a show "b = b'" by simp
qed

lemma allocPage_empty:
  assumes e: "all_empty b" and p: "1 \<le> pages" "pages \<le> NUMBER_OF_PAGES"
  obtains d where "d \<le> 10" "pages \<le> 2 ^ (10 - d)" "allocPage b pages = Some (0x1000000, mark_left 1 d b)"
proof -
  have ok: "heap_ok b" using e by (simp add: all_empty_def)
  have "pages < 2 ^ 31" using p(2) by simp
  from getLevel_spec [OF p(1) this, of b] obtain m where m: "getLevel b (of_nat pages) = Some (heapLevel b - int m)" "pages \<le> 2 ^ m"
    "\<And>m'. pages \<le> 2 ^ m' \<Longrightarrow> m \<le> m'" by blast
  have m10: "m \<le> 10" using p(2) by (intro m(3)) simp
  have lev: "heapLevel b - int m = 1 + int (10 - m)" using m10 heap_okD(3) [OF ok] by simp
  have d: "(1 + 1) * (2::nat) ^ (10 - m) \<le> Suc HEAPSIZE"
    using power_increasing [of "10 - m" 10 "2::nat"] by simp
  have "2 ^ (10 - m) - 1 < HEAPSIZE" using d by simp
  then have "base b ! (1 * 2 ^ (10 - m) - 1) = node_addr 0x1000000 (2 ^ (10 - m))"
    using heap_okD(5) [OF ok, of "2 ^ (10 - m) - 1"] by simp
  also have "\<dots> = 0x1000000"
    by (simp add: node_addr_def node_level_eq [of "10 - m"])
  finally have "base b ! (1 * 2 ^ (10 - m) - 1) = 0x1000000" .
  with getNextPage_empty [OF e le_refl d, of 1] have
    "getNextPageRecursive b 1 1 (heapLevel b - int m) = Some (0x1000000, mark_left 1 (10 - m) b)"
    unfolding lev by simp
  with p m(1) m10 heap_okD(3) [OF ok] have "allocPage b pages = Some (0x1000000, mark_left 1 (10 - m) b)"
    by (simp add: allocPage_def)
  with that [of "10 - m"] m(2) m10 show ?thesis by simp
qed

lemma left_edge_mark_left: "all_empty b \<Longrightarrow> d \<le> 10 \<Longrightarrow> left_edge d 10 (set_occ 1024 EMPTY (mark_left 1 d b))"
proof -
  assume e: "all_empty b" and d: "d \<le> 10"
  have sh: "heap_shape b" using e by (simp add: all_empty_def heap_ok_def)
  have pd: "1 * 2 ^ d \<le> HEAPSIZE" using pow2_le_heap [OF d] by simp
  have occ': "occ (set_occ 1024 EMPTY (mark_left 1 d b)) k =
      (if k = 1024 then EMPTY else if k = 2 ^ d then BUDDY_FULL
       else if \<exists>i < d. k = 2 ^ i then PARTIALLY_FULL else occ b k)" if "1 \<le> k" for k
    using that sh occ_mark_left [OF sh le_refl pd that] by (simp add: occ_set_occ)
  have ne: "(2::nat) ^ i \<noteq> 1024" if "i < 10" for i
    using power_strict_increasing [OF that, of "2::nat"] by simp
  have *: "k = 1024 \<or> k \<noteq> 2 ^ d \<and> \<not> (\<exists>i < d. k = 2 ^ i)" if "\<forall>i < 10. k \<noteq> 2 ^ i" for k :: nat
  proof (cases "d = 10")
    case True
    with that show ?thesis by auto
  next
    case False
    with d that show ?thesis by auto
  qed
  have edge: "occ (set_occ 1024 EMPTY (mark_left 1 d b)) (2 ^ i) =
      (if i < d then PARTIALLY_FULL else if i = d then BUDDY_FULL else EMPTY)" if "i < 10" for i
    using occ' [of "2 ^ i"] ne [OF that] all_empty_occ [OF e, of "2 ^ i"] pow2_le_heap [of i] that by auto
  have off: "occ (set_occ 1024 EMPTY (mark_left 1 d b)) k = EMPTY"
    if "1 \<le> k" "k \<le> HEAPSIZE" "\<forall>i < 10. k \<noteq> 2 ^ i" for k
    using occ' [OF that(1)] * [OF that(3)] all_empty_occ [OF e that(1,2)] by auto
  show ?thesis unfolding left_edge_def using sh edge off by simp
qed

lemma dealloc_only_block:
  assumes e: "all_empty b" and d: "d \<le> 10"
  shows "deallocPage 0x1000000 (mark_left 1 d b) = Some (0, b)"
proof -
  have ok: "heap_ok b" using e by (simp add: all_empty_def)
  note hd = heap_okD [OF ok]
  have "left_edge d 0 (freeUpRecursive (2 ^ 10) (set_occ 1024 EMPTY (mark_left 1 d b))) \<and>
    base (freeUpRecursive (2 ^ 10) (set_occ 1024 EMPTY (mark_left 1 d b))) = base b \<and>
    heapLevel (freeUpRecursive (2 ^ 10) (set_occ 1024 EMPTY (mark_left 1 d b))) = heapLevel b \<and>
    baseMemory (freeUpRecursive (2 ^ 10) (set_occ 1024 EMPTY (mark_left 1 d b))) = baseMemory b"
    using freeUp_left_edge [OF left_edge_mark_left [OF e d] le_refl] by simp
  then have "freeUpRecursive (2 ^ 10) (set_occ 1024 EMPTY (mark_left 1 d b)) = b"
    using all_empty_occ [OF e] hd(1) by (intro buddy_eqI) (auto simp: left_edge_def)
  then show ?thesis using hd(4) by (simp add: deallocPage_def isValid_def Let_def)
qed

section \<open>Two ways the tree loses track of pages\<close>

text \<open>
  Pages 0 and 1 are taken, page 0 is released, then a block of four pages is asked for: the
  walk upwards has marked the parent of the still half full pair as empty.
\<close>

lemma node_addr_left: "i \<le> 10 \<Longrightarrow> node_addr 0x1000000 (2 ^ i) = 0x1000000"
  by (simp add: node_addr_def node_level_eq [of i])

lemma node_addr_numeral [simp]:
  "node_addr 0x1000000 1024 = 0x1000000" "node_addr 0x1000000 1025 = 0x1001000"
  "node_addr 0x1000000 256 = 0x1000000" "node_addr 0x1000000 3 = 0x1200000"
  by (simp_all add: node_addr_def node_level_eq [of 10] node_level_eq [of 8] node_level_eq [of 1])

lemmas alloc_eval = allocPage_def getLevel_def getLevel_loop.simps getNextPageRecursive.simps
  LCHILD_def RCHILD_def occ_set_occ

lemma ex_less_10: "(\<exists>i < 10. Q i) \<longleftrightarrow>
    Q (0::nat) \<or> Q 1 \<or> Q 2 \<or> Q 3 \<or> Q 4 \<or> Q 5 \<or> Q 6 \<or> Q 7 \<or> Q 8 \<or> Q 9"
  by (auto simp: less_Suc_eq numeral_eq_Suc)

lemma zero_sdiv: "(0::int) sdiv k = 0"
  by (simp add: signed_divide_int_def)

lemma freeUp_step: "freeUpRecursive index b = (if index \<le> 1 then b
   else freeUpRecursive (index div 2)
     (if occ b (PARENT index) = BUDDY_FULL \<and> occ b (SIBLING index) = EMPTY then set_occ (PARENT index) EMPTY b
      else if occ b (PARENT index) = BUDDY_FULL \<and> occ b (SIBLING index) = BUDDY_FULL
      then set_occ (PARENT index) PARTIALLY_FULL b
      else if occ b (PARENT index) = PARTIALLY_FULL \<and> occ b (SIBLING index) = EMPTY
      then set_occ (PARENT index) EMPTY b else b))"
  by (subst freeUpRecursive.simps) (simp only: Let_def)

lemmas free_eval = zero_sdiv freeUp_step PARENT_def SIBLING_def

text \<open>The heap after a first request for one page.\<close>

lemma after_one_page:
  assumes e: "all_empty b"
  obtains b1 where "allocPage b 1 = Some (0x1000000, b1)"
    "heap_shape b1" "heapLevel b1 = 11" "baseMemory b1 = 0x1000000" "base b1 = base b"
    "\<And>k. 1 \<le> k \<Longrightarrow> k \<le> HEAPSIZE \<Longrightarrow> occ b1 k = (if k = 1024 then BUDDY_FULL
      else if k \<in> {1, 2, 4, 8, 16, 32, 64, 128, 256, 512} then PARTIALLY_FULL else EMPTY)"
    "heap_ok b"
proof (rule that [of "mark_left 1 10 b"])
  show ok: "heap_ok b" using e by (simp add: all_empty_def)
  note hd = heap_okD(1,3,4) [OF ok] heap_okD(5) [OF ok, of 1023, simplified]
  have p10: "1 * 2 ^ 10 \<le> HEAPSIZE" by simp
  have ex10: "(\<exists>i < 10. k = 1 * 2 ^ i) \<longleftrightarrow> k \<in> {1, 2, 4, 8, 16, 32, 64, 128, 256, 512}" for k :: nat
    unfolding ex_less_10 by simp
  show "allocPage b 1 = Some (0x1000000, mark_left 1 10 b)"
    using getNextPage_empty [OF e le_refl, of 10 1] hd
    by (simp add: allocPage_def getLevel_def getLevel_loop.simps)
  show "occ (mark_left 1 10 b) k = (if k = 1024 then BUDDY_FULL
      else if k \<in> {1, 2, 4, 8, 16, 32, 64, 128, 256, 512} then PARTIALLY_FULL else EMPTY)"
    if "1 \<le> k" "k \<le> HEAPSIZE" for k
    using occ_mark_left [OF hd(1) le_refl p10 that(1)] all_empty_occ [OF e that] unfolding ex10 by simp
  show "heap_shape (mark_left 1 10 b)" "heapLevel (mark_left 1 10 b) = 11"
    "baseMemory (mark_left 1 10 b) = 0x1000000" "base (mark_left 1 10 b) = base b"
    using hd by simp_all
qed

lemma realloc_overlap:
  assumes e: "all_empty b"
  shows "\<exists>b1 b2 b3 b4.
    allocPage b 1 = Some (0x1000000, b1) \<and> allocPage b1 1 = Some (0x1001000, b2) \<and>
    deallocPage 0x1000000 b2 = Some (0, b3) \<and> allocPage b3 4 = Some (0x1000000, b4)"
proof -
  obtain b1 where st: "allocPage b 1 = Some (0x1000000, b1)" "heap_shape b1" "heapLevel b1 = 11"
    "baseMemory b1 = 0x1000000" "base b1 = base b"
    "\<And>k. 1 \<le> k \<Longrightarrow> k \<le> HEAPSIZE \<Longrightarrow> occ b1 k = (if k = 1024 then BUDDY_FULL
      else if k \<in> {1, 2, 4, 8, 16, 32, 64, 128, 256, 512} then PARTIALLY_FULL else EMPTY)" "heap_ok b"
    by (rule after_one_page [OF e], rule that)
  note hd = st(2-6) heap_okD(5) [OF st(7), of 1024, simplified] heap_okD(5) [OF st(7), of 255, simplified]
  have "\<exists>b2. allocPage b1 1 = Some (0x1001000, b2) \<and> heap_shape b2 \<and> heapLevel b2 = 11 \<and>
      baseMemory b2 = 0x1000000 \<and> base b2 = base b \<and>
      (\<forall>k. 1 \<le> k \<and> k \<le> HEAPSIZE \<longrightarrow> occ b2 k = (if k = 1024 \<or> k = 1025 \<or> k = 512 then BUDDY_FULL
        else if k \<in> {1, 2, 4, 8, 16, 32, 64, 128, 256} then PARTIALLY_FULL else EMPTY))"
    by (simp add: alloc_eval hd)
  then obtain b2 where b2: "allocPage b1 1 = Some (0x1001000, b2)" "heap_shape b2" "heapLevel b2 = 11"
      "baseMemory b2 = 0x1000000" "base b2 = base b"
      "\<And>k. 1 \<le> k \<Longrightarrow> k \<le> HEAPSIZE \<Longrightarrow> occ b2 k = (if k = 1024 \<or> k = 1025 \<or> k = 512 then BUDDY_FULL
        else if k \<in> {1, 2, 4, 8, 16, 32, 64, 128, 256} then PARTIALLY_FULL else EMPTY)"
    by blast
  have "\<exists>b3. deallocPage 0x1000000 b2 = Some (0, b3) \<and> heap_shape b3 \<and> heapLevel b3 = 11 \<and>
      base b3 = base b \<and>
      (\<forall>k. 1 \<le> k \<and> k \<le> HEAPSIZE \<longrightarrow> occ b3 k =
        (if k = 1025 then BUDDY_FULL else if k = 512 then PARTIALLY_FULL else EMPTY))"
    by (simp add: deallocPage_def isValid_def Let_def free_eval b2(2-6) occ_set_occ)
  then obtain b3 where b3: "deallocPage 0x1000000 b2 = Some (0, b3)" "heap_shape b3" "heapLevel b3 = 11"
      "base b3 = base b" "\<And>k. 1 \<le> k \<Longrightarrow> k \<le> HEAPSIZE \<Longrightarrow> occ b3 k =
        (if k = 1025 then BUDDY_FULL else if k = 512 then PARTIALLY_FULL else EMPTY)" by blast
  have "\<exists>b4. allocPage b3 4 = Some (0x1000000, b4)"
    by (simp add: alloc_eval b3(2-5) hd)
  with st(1) b2(1) b3(1) show ?thesis by blast
qed

text \<open>After one page on the left the whole right half is taken: the root is marked full.\<close>

lemma half_heap_lost:
  assumes e: "all_empty b"
  shows "\<exists>b1 b2. allocPage b 1 = Some (0x1000000, b1) \<and> allocPage b1 512 = Some (0x1200000, b2) \<and>
    occ b2 1 = BUDDY_FULL \<and> heap_shape b2"
proof -
  obtain b1 where st: "allocPage b 1 = Some (0x1000000, b1)" "heap_shape b1" "heapLevel b1 = 11"
    "baseMemory b1 = 0x1000000" "base b1 = base b"
    "\<And>k. 1 \<le> k \<Longrightarrow> k \<le> HEAPSIZE \<Longrightarrow> occ b1 k = (if k = 1024 then BUDDY_FULL
      else if k \<in> {1, 2, 4, 8, 16, 32, 64, 128, 256, 512} then PARTIALLY_FULL else EMPTY)" "heap_ok b"
    by (rule after_one_page [OF e], rule that)
  have "\<exists>b2. allocPage b1 512 = Some (0x1200000, b2) \<and> occ b2 1 = BUDDY_FULL \<and> heap_shape b2"
    by (simp add: alloc_eval st(2-6) heap_okD(5) [OF st(7), of 2, simplified])
  with st(1) show ?thesis by blast
qed

lemma alloc_full_root: "heap_shape b \<Longrightarrow> occ b 1 = BUDDY_FULL \<Longrightarrow> 1 \<le> pages \<Longrightarrow> allocPage b pages = Some (0, b)"
proof -
  assume b: "heap_shape b" "occ b 1 = BUDDY_FULL" "1 \<le> pages"
  show ?thesis
  proof (cases "pages < 2 ^ 31")
    case True
    then obtain m where "getLevel b (of_nat pages) = Some (heapLevel b - int m)" using getLevel_spec [OF b(3)] by metis
    then show ?thesis using b by (simp add: allocPage_def getNextPageRecursive.simps)
  qed (simp add: allocPage_def)
qed

section \<open>Properties\<close>

text \<open>
  C1: over any sequence of requests to a fresh heap, \<open>allocPage\<close> always returns, and the
  blocks it hands out lie in the managed memory and never overlap.
\<close>

theorem alloc_blocks_disjoint:
  assumes "heap_shape b0"
  shows "\<exists>ps b. alloc_seq allocPage (createHeap b0) ns = Some (ps, b) \<and> length ps = length ns \<and>
    (\<forall>i < length ns. ps ! i \<noteq> 0 \<longrightarrow> block_range (ps ! i) (ns ! i) \<subseteq> managed) \<and>
    (\<forall>j < length ns. \<forall>i < j. ps ! i \<noteq> 0 \<longrightarrow> ps ! j \<noteq> 0 \<longrightarrow>
       block_range (ps ! i) (ns ! i) \<inter> block_range (ps ! j) (ns ! j) = {})"
proof -
  note inv = buddy_inv_createHeap [OF assms]
  obtain ps b where run: "alloc_seq allocPage (createHeap b0) ns = Some (ps, b)" "length ps = length ns"
    using buddy.alloc_seq_total [OF inv] by blast
  show ?thesis
    using run buddy.alloc_seq_fresh [OF inv run(1)] buddy.alloc_seq_disjoint [OF inv run(1)]
    by (intro exI [of _ ps] exI [of _ b]) auto
qed

lemma heap_shape_bss: "heap_shape buddy_bss"
  by (simp add: heap_shape_def buddy_bss_def)

theorem alloc_blocks_disjoint_witness:
  "\<exists>ps b. alloc_seq allocPage (createHeap buddy_bss) [1, 3] = Some (ps, b) \<and> length ps = 2 \<and>
     (ps ! 0 \<noteq> 0 \<longrightarrow> ps ! 1 \<noteq> 0 \<longrightarrow> block_range (ps ! 0) 1 \<inter> block_range (ps ! 1) 3 = {})"
  using alloc_blocks_disjoint [OF heap_shape_bss, of "[1, 3]"] by fastforce

text \<open>
  \<open>createHeap\<close> lays out a complete binary tree over the managed memory: every node is
  empty, node \<open>k\<close> of level \<open>l\<close> starts at the \<open>k - 2 ^ l\<close>-th of the \<open>2 ^ l\<close> equal parts.
\<close>

theorem createHeap_layout:
  assumes "heap_shape b0" "l \<le> 10" "2 ^ l \<le> k" "k < 2 ^ (l + 1)"
  shows "occ (createHeap b0) k = EMPTY \<and>
    base (createHeap b0) ! (k - 1) = 0x1000000 + (MEMORY div 2 ^ l) * (k - 2 ^ l) \<and>
    heapLevel (createHeap b0) = 11"
proof (intro conjI)
  have "(2::nat) ^ (l + 1) \<le> 2 ^ 11" using assms(2) by (intro power_increasing) auto
  then have k: "1 \<le> k" "k - 1 < HEAPSIZE" using assms(3,4) one_le_power [of "2::nat" l] by simp_all
  then show "occ (createHeap b0) k = EMPTY"
    by (simp add: occ_def createHeap_spec(4) [OF assms(1)])
next
  have "(2::nat) ^ (l + 1) \<le> 2 ^ 11" using assms(2) by (intro power_increasing) auto
  then have k: "1 \<le> k" "k - 1 < HEAPSIZE" using assms(3,4) one_le_power [of "2::nat" l] by simp_all
  have "node_level k = l" using assms(3,4) by (simp add: node_level_eq)
  then show "base (createHeap b0) ! (k - 1) = 0x1000000 + (MEMORY div 2 ^ l) * (k - 2 ^ l)"
    using createHeap_spec(5) [OF assms(1) k(2)] k(1) by (simp add: node_addr_def)
next
  show "heapLevel (createHeap b0) = 11" by (rule createHeap_spec(1) [OF assms(1)])
qed

theorem createHeap_layout_witness:
  "occ (createHeap buddy_bss) 3 = EMPTY \<and> base (createHeap buddy_bss) ! 2 = 0x1200000"
  using createHeap_layout [OF heap_shape_bss, of 1 3] by simp

text \<open>
  C2: \<open>getLevel\<close> returns for every request of 1 to \<open>2 ^ 31 - 1\<close> pages, and picks the deepest level
  whose blocks are large enough. It narrows its argument to an \<open>int\<close>: for a multiple of \<open>2 ^ 32\<close> it
  never returns. \<open>allocPage\<close>, its only caller, asks for \<open>NUMBER_OF_PAGES\<close> at most.
\<close>

theorem getLevel_deepest_fit:
  shows "(1 \<le> unat pages \<and> unat pages < 2 ^ 31 \<longrightarrow>
      (\<exists>m. getLevel b pages = Some (heapLevel b - int m) \<and> unat pages \<le> 2 ^ m \<and> (\<forall>m' < m. 2 ^ m' < unat pages))) \<and>
    (unat pages mod 2 ^ 32 = 0 \<longrightarrow> getLevel b pages = None)"
proof (intro conjI impI)
  assume "1 \<le> unat pages \<and> unat pages < 2 ^ 31"
  then have p: "1 \<le> unat pages" "unat pages < 2 ^ 31" by auto
  obtain m where "getLevel b (of_nat (unat pages)) = Some (heapLevel b - int m)" "unat pages \<le> 2 ^ m"
    "\<And>m'. unat pages \<le> 2 ^ m' \<Longrightarrow> m \<le> m'" by (rule getLevel_spec [OF p], rule that)
  then show "\<exists>m. getLevel b pages = Some (heapLevel b - int m) \<and> unat pages \<le> 2 ^ m \<and> (\<forall>m' < m. 2 ^ m' < unat pages)"
    by (intro exI [of _ m]) (auto simp: not_le [symmetric])
next
  assume "unat pages mod 2 ^ 32 = 0"
  then show "getLevel b pages = None" by (simp add: getLevel_def narrow_zero getLevel_loop_zero)
qed

theorem getLevel_deepest_fit_witness:
  "(\<exists>m. getLevel (createHeap buddy_bss) 5 = Some (11 - int m) \<and> 5 \<le> (2::nat) ^ m \<and> (\<forall>m' < m. 2 ^ m' < (5::nat))) \<and>
   getLevel (createHeap buddy_bss) 0x100000000 = None"
  using getLevel_deepest_fit [of 5 "createHeap buddy_bss"] getLevel_deepest_fit [of "0x100000000" "createHeap buddy_bss"]
    createHeap_spec(1) [OF heap_shape_bss] by simp

text \<open>
  C3: a block that is the only one in use is given back without trace: after the release
  the allocator is the one \<open>createHeap\<close> built.
\<close>

theorem alloc_then_dealloc_restores:
  assumes "heap_shape b0" "1 \<le> pages" "pages \<le> NUMBER_OF_PAGES"
  shows "\<exists>p b. allocPage (createHeap b0) pages = Some (p, b) \<and> p \<noteq> 0 \<and>
    deallocPage p b = Some (0, createHeap b0)"
proof -
  note e = all_empty_createHeap [OF assms(1)]
  obtain d where d: "d \<le> 10" "allocPage (createHeap b0) pages = Some (0x1000000, mark_left 1 d (createHeap b0))"
    by (rule allocPage_empty [OF e assms(2,3)])
  with dealloc_only_block [OF e d(1)] show ?thesis by simp
qed

theorem alloc_then_dealloc_restores_witness:
  "\<exists>p b. allocPage (createHeap buddy_bss) 3 = Some (p, b) \<and> p \<noteq> 0 \<and>
     deallocPage p b = Some (0, createHeap buddy_bss)"
  using alloc_then_dealloc_restores [OF heap_shape_bss, of 3] by simp

text \<open>
  Releasing one of two neighbouring pages makes the allocator forget the other: pages at
  \<open>0x1000000\<close> and \<open>0x1001000\<close> are taken, the first is released, and the next request for
  four pages is answered with a block that covers \<open>0x1001000\<close>, still in use.
\<close>

theorem dealloc_loses_neighbour:
  assumes "heap_shape b0"
  shows "\<exists>b1 b2 b3 b4. allocPage (createHeap b0) 1 = Some (0x1000000, b1) \<and>
    allocPage b1 1 = Some (0x1001000, b2) \<and> deallocPage 0x1000000 b2 = Some (0, b3) \<and>
    allocPage b3 4 = Some (0x1000000, b4) \<and> 0x1001000 \<in> block_range 0x1000000 4"
  using realloc_overlap [OF all_empty_createHeap [OF assms]] by (simp add: block_range_def)

theorem dealloc_loses_neighbour_witness:
  "\<exists>b1 b2 b3 b4. allocPage (createHeap buddy_bss) 1 = Some (0x1000000, b1) \<and>
    allocPage b1 1 = Some (0x1001000, b2) \<and> deallocPage 0x1000000 b2 = Some (0, b3) \<and>
    allocPage b3 4 = Some (0x1000000, b4)"
  using dealloc_loses_neighbour [OF heap_shape_bss] by blast

text \<open>
  One page followed by half of the memory exhausts the allocator: the root is marked
  full although 511 pages were never handed out, and every further request fails.
\<close>

theorem half_of_the_heap_is_lost:
  assumes "heap_shape b0" "1 \<le> pages"
  shows "\<exists>b1 b2. allocPage (createHeap b0) 1 = Some (0x1000000, b1) \<and>
    allocPage b1 512 = Some (0x1200000, b2) \<and> allocPage b2 pages = Some (0, b2)"
  using half_heap_lost [OF all_empty_createHeap [OF assms(1)]] alloc_full_root assms(2) by blast

theorem half_of_the_heap_is_lost_witness:
  "\<exists>b1 b2. allocPage (createHeap buddy_bss) 1 = Some (0x1000000, b1) \<and>
    allocPage b1 512 = Some (0x1200000, b2) \<and> allocPage b2 1 = Some (0, b2)"
  using half_of_the_heap_is_lost [OF heap_shape_bss, of 1] by simp

end
