(* ===== verification/Scheduler.thy ===== *)
theory Scheduler
  imports Buddy Memory
begin

text \<open>
  The process table and the scheduler: \<open>Kernel/scheduler.c\<close> on the structures of
  \<open>include/structs.h\<close>. Processes sit in a circular list of slots that starts at
  \<open>current\<close>; a slot, a process, a thread and a stack frame are read through one memory
  view per type, a total function from addresses, because the code never checks a pointer
  before it follows it. The lemmas relate the list of slots to the pointer structure and
  show what every operation does to it.
\<close>

section \<open>Structures\<close>

datatype processState = RUNNING | READY | BLOCKED | DEAD | SLEEPING

record StackFrame =
  f_gs :: nat  f_fs :: nat  f_r15 :: nat  f_r14 :: nat  f_r13 :: nat  f_r12 :: nat
  f_r11 :: nat  f_r10 :: nat  f_r9 :: nat  f_r8 :: nat  f_rsi :: nat  f_rdi :: nat
  f_rbp :: nat  f_rdx :: nat  f_rcx :: nat  f_rbx :: nat  f_rax :: nat
  f_rip :: nat  f_cs :: nat  f_eflags :: nat  f_rsp :: nat  f_ss :: nat  f_base :: nat

record Thread =
  t_userStack :: addr
  t_kernelStack :: addr
  t_entryPoint :: addr

record Process =
  p_pid :: int
  p_state :: processState
  p_description :: addr
  p_activeThread :: int
  p_numberOfThreads :: int
  p_thread :: "addr list"
  p_pipesOpened :: int
  p_occupiedPosition :: addr
  p_pipePids :: addr
  p_blocked :: addr
  p_pipesStruct :: addr
  p_pipes :: addr
  p_heap :: addr
  p_pagesIndex :: int
  p_pages :: "addr list"

record ProcessSlot =
  slot_next :: addr
  slot_process :: addr

text \<open>
  The globals of the scheduler, the memory it reaches, and the stack pointer with which
  \<open>next_process\<close> is entered. \<open>callProcess_addr\<close> is where the linker put \<open>callProcess\<close>.
\<close>

record sched =
  buddyArray :: buddy
  slots :: "addr \<Rightarrow> ProcessSlot"
  procs :: "addr \<Rightarrow> Process"
  thrs :: "addr \<Rightarrow> Thread"
  frames :: "addr \<Rightarrow> StackFrame"
  cmem :: memory
  current :: addr
  cardinal_processes :: int
  next_pid :: int
  rsp :: addr
  callProcess_addr :: addr

definition INIT_PID :: int where "INIT_PID = 0"
definition MAX_THREADS :: nat where "MAX_THREADS = 10"
definition sizeof_ProcessSlot :: nat where "sizeof_ProcessSlot = 16"
definition sizeof_pointer :: nat where "sizeof_pointer = 8"

text \<open>The process a slot points to, its identifier and its state.\<close>

definition slot_proc :: "'a sched_scheme \<Rightarrow> addr \<Rightarrow> Process" where
  "slot_proc s x = procs s (slot_process (slots s x))"

abbreviation slot_pid :: "'a sched_scheme \<Rightarrow> addr \<Rightarrow> int" where
  "slot_pid s x \<equiv> p_pid (slot_proc s x)"

abbreviation slot_state :: "'a sched_scheme \<Rightarrow> addr \<Rightarrow> processState" where
  "slot_state s x \<equiv> p_state (slot_proc s x)"

definition set_state :: "addr \<Rightarrow> processState \<Rightarrow> 'a sched_scheme \<Rightarrow> 'a sched_scheme" where
  "set_state p st s = s\<lparr>procs := (procs s)(p := (procs s p)\<lparr>p_state := st\<rparr>)\<rparr>"

section \<open>Operations\<close>

definition newProcessSlot :: "addr \<Rightarrow> 'a sched_scheme \<Rightarrow> (addr \<times> 'a sched_scheme) option" where
  "newProcessSlot process s =
     map_option (\<lambda>(a, b).
       (a, s\<lparr>buddyArray := b, slots := (slots s)(a := (slots s a)\<lparr>slot_process := process\<rparr>)\<rparr>))
       (allocPage (buddyArray s) (NUMBER_OF_PAGES_TO_ALLOC sizeof_ProcessSlot))"

definition addProcess :: "addr \<Rightarrow> 'a sched_scheme \<Rightarrow> 'a sched_scheme option" where
  "addProcess process s =
     (case newProcessSlot process s of
        None \<Rightarrow> None
      | Some (newProcess, s1) \<Rightarrow>
          Some (if current s1 = NULL then
                  s1\<lparr>current := newProcess,
                     slots := (slots s1)(newProcess := (slots s1 newProcess)\<lparr>slot_next := newProcess\<rparr>)\<rparr>
                else
                  let next = slot_next (slots s1 (current s1));
                      s2 = s1\<lparr>slots := (slots s1)(current s1 := (slots s1 (current s1))\<lparr>slot_next := newProcess\<rparr>)\<rparr>
                  in s2\<lparr>slots := (slots s2)(newProcess := (slots s2 newProcess)\<lparr>slot_next := next\<rparr>)\<rparr>))"

text \<open>
  \<open>getProcessById\<close> indexes \<open>slot[i]\<close> where \<open>slot\<close> is the pointer \<open>current\<close>: for \<open>i > 0\<close> that is
  the memory behind the slot, not another slot. The recursion is over the iterations left.
\<close>

fun getProcessById_loop :: "nat \<Rightarrow> nat \<Rightarrow> int \<Rightarrow> 'a sched_scheme \<Rightarrow> addr" where
  "getProcessById_loop 0 i pid s = NULL"
| "getProcessById_loop (Suc left) i pid s =
     (if slot_pid s (current s + i * sizeof_ProcessSlot) = pid
      then slot_process (slots s (current s + i * sizeof_ProcessSlot))
      else getProcessById_loop left (Suc i) pid s)"

definition getProcessById :: "int \<Rightarrow> 'a sched_scheme \<Rightarrow> addr" where
  "getProcessById pid s = getProcessById_loop (nat (cardinal_processes s)) 0 pid s"

definition getCurrentPid :: "'a sched_scheme \<Rightarrow> int" where
  "getCurrentPid s = (if current s = NULL then - 1 else slot_pid s (current s))"

definition getCurrentProcess :: "'a sched_scheme \<Rightarrow> addr" where
  "getCurrentProcess s = slot_process (slots s (current s))"

fun changeProcessState_loop :: "nat \<Rightarrow> addr \<Rightarrow> int \<Rightarrow> processState \<Rightarrow> 'a sched_scheme \<Rightarrow> 'a sched_scheme" where
  "changeProcessState_loop 0 slot pid st s = s"
| "changeProcessState_loop (Suc left) slot pid st s =
     (if slot_pid s slot = pid then set_state (slot_process (slots s slot)) st s
      else changeProcessState_loop left (slot_next (slots s slot)) pid st s)"

definition changeProcessState :: "int \<Rightarrow> processState \<Rightarrow> 'a sched_scheme \<Rightarrow> 'a sched_scheme" where
  "changeProcessState pid st s =
     changeProcessState_loop (nat (cardinal_processes s)) (current s) pid st s"

text \<open>An element of the fixed array \<open>thread\<close> of a process; \<open>None\<close> outside of it.\<close>

definition thread_at :: "Process \<Rightarrow> int \<Rightarrow> addr option" where
  "thread_at p i = (if 0 \<le> i \<and> i < int (length (p_thread p)) then Some (p_thread p ! nat i) else None)"

definition getCurrentUserStack :: "'a sched_scheme \<Rightarrow> addr option" where
  "getCurrentUserStack s =
     map_option (\<lambda>t. t_userStack (thrs s t))
       (thread_at (slot_proc s (current s)) (p_activeThread (slot_proc s (current s))))"

text \<open>The search for a process that is ready: \<open>None\<close> is a loop that never ends.\<close>

partial_function (option) schedule_loop :: "'a sched_scheme \<Rightarrow> 'a sched_scheme option" where
  "schedule_loop s =
     (if slot_state s (current s) \<noteq> READY
      then schedule_loop (s\<lparr>current := slot_next (slots s (current s))\<rparr>)
      else Some s)"

definition schedule :: "'a sched_scheme \<Rightarrow> 'a sched_scheme option" where
  "schedule s =
     (let s1 = (if slot_state s (current s) = RUNNING
                then set_state (slot_process (slots s (current s))) READY s else s);
          s2 = s1\<lparr>current := slot_next (slots s1 (current s1))\<rparr>
      in map_option (\<lambda>s3. set_state (slot_process (slots s3 (current s3))) RUNNING s3)
           (schedule_loop s2))"

definition set_userStack :: "addr \<Rightarrow> addr \<Rightarrow> 'a sched_scheme \<Rightarrow> 'a sched_scheme" where
  "set_userStack t v s = s\<lparr>thrs := (thrs s)(t := (thrs s t)\<lparr>t_userStack := v\<rparr>)\<rparr>"

definition next_process :: "addr \<Rightarrow> 'a sched_scheme \<Rightarrow> (addr \<times> 'a sched_scheme) option" where
  "next_process current_rsp s =
     (if current s = NULL then Some (current_rsp, s)
      else
        (case thread_at (slot_proc s (current s)) (p_activeThread (slot_proc s (current s))) of
           None \<Rightarrow> None
         | Some t \<Rightarrow>
             (case schedule (set_userStack t current_rsp s) of
                None \<Rightarrow> None
              | Some s1 \<Rightarrow> map_option (\<lambda>ans. (ans, s1)) (getCurrentUserStack s1))))"

text \<open>
  \<open>_yield\<close> (\<open>asm/libasm.asm\<close>) saves the registers on the stack, calls \<open>next_process\<close> with the
  stack pointer and continues on the stack it returns.
\<close>

definition yield_step :: "'a sched_scheme \<Rightarrow> 'a sched_scheme option" where
  "yield_step s = map_option (\<lambda>(ans, s1). s1\<lparr>rsp := ans\<rparr>) (next_process (rsp s) s)"

text \<open>\<open>nextThread\<close>: the loop over \<open>i\<close>, whose index wraps at the size of the array.\<close>

partial_function (option) nextThread_loop :: "Process \<Rightarrow> int \<Rightarrow> int option" where
  "nextThread_loop p i =
     (case thread_at p ((p_activeThread p + i) smod int MAX_THREADS) of
        None \<Rightarrow> None
      | Some t \<Rightarrow> if t = NULL then nextThread_loop p (i + 1)
                  else Some ((p_activeThread p + i) smod int MAX_THREADS))"

definition nextThread :: "'a sched_scheme \<Rightarrow> int option" where
  "nextThread s = nextThread_loop (procs s (getCurrentProcess s)) 1"

definition switchUserToKernel :: "addr \<Rightarrow> 'a sched_scheme \<Rightarrow> (addr \<times> 'a sched_scheme) option" where
  "switchUserToKernel esp s =
     map_option (\<lambda>t. (t_kernelStack (thrs s t), set_userStack t esp s))
       (thread_at (slot_proc s (current s)) (p_activeThread (slot_proc s (current s))))"

definition switchKernelToUser :: "'a sched_scheme \<Rightarrow> (addr \<times> 'a sched_scheme) option" where
  "switchKernelToUser s =
     (case schedule s of
        None \<Rightarrow> None
      | Some s1 \<Rightarrow>
          (case nextThread s1 of
             None \<Rightarrow> None
           | Some index \<Rightarrow>
               let p = slot_process (slots s1 (current s1));
                   s2 = s1\<lparr>procs := (procs s1)(p := (procs s1 p)\<lparr>p_activeThread := index\<rparr>)\<rparr>
               in map_option (\<lambda>t. (t_userStack (thrs s2 t), s2)) (thread_at (procs s2 p) index)))"

definition getCurrentEntryPoint :: "'a sched_scheme \<Rightarrow> addr option" where
  "getCurrentEntryPoint s =
     map_option (\<lambda>t. t_entryPoint (thrs s t))
       (thread_at (slot_proc s (current s)) (p_activeThread (slot_proc s (current s))))"

text \<open>
  \<open>getCurrentProcesses\<close> fills an array with the processes of the ring: the entry of the
  first slot, then one entry per iteration of a loop that runs \<open>cardinal_processes\<close> times.
  The result is the list of stored pointers with the page they are stored in.
\<close>

fun getCurrentProcesses_loop :: "nat \<Rightarrow> addr \<Rightarrow> 'a sched_scheme \<Rightarrow> addr list" where
  "getCurrentProcesses_loop 0 aux s = []"
| "getCurrentProcesses_loop (Suc left) aux s =
     slot_process (slots s aux) # getCurrentProcesses_loop left (slot_next (slots s aux)) s"

definition getCurrentProcesses :: "'a sched_scheme \<Rightarrow> (int \<times> addr \<times> addr list \<times> 'a sched_scheme) option" where
  "getCurrentProcesses s =
     (case allocPage (buddyArray s) (NUMBER_OF_PAGES_TO_ALLOC (nat (cardinal_processes s) * sizeof_pointer)) of
        None \<Rightarrow> None
      | Some (processes, b) \<Rightarrow>
          let s1 = s\<lparr>buddyArray := b\<rparr>; aux = current s1
          in Some (cardinal_processes s1, processes,
               slot_process (slots s1 aux) #
                 getCurrentProcesses_loop (nat (cardinal_processes s1)) (slot_next (slots s1 aux)) s1,
               s1))"

definition eqProcess :: "addr \<Rightarrow> addr \<Rightarrow> 'a sched_scheme \<Rightarrow> bool" where
  "eqProcess a b s \<longleftrightarrow> p_pid (procs s a) = p_pid (procs s b)"

definition getStateFromNumber :: "int \<Rightarrow> string" where
  "getStateFromNumber st =
     (if st = 0 then ''RUNNING'' else if st = 1 then ''READY'' else if st = 2 then ''BLOCKED''
      else if st = 3 then ''DEAD'' else if st = 4 then ''SLEEPING'' else ''other'')"

section \<open>The ring of slots\<close>

text \<open>
  \<open>ring s xs\<close>: the slots reached from \<open>current\<close> are \<open>xs\<close>, in order, and the last one points
  back to the first. Different slots hold different processes with different identifiers.
\<close>

definition ring :: "'a sched_scheme \<Rightarrow> addr list \<Rightarrow> bool" where
  "ring s xs \<longleftrightarrow> xs \<noteq> [] \<and> hd xs = current s \<and> 0 \<notin> set xs \<and>
     cardinal_processes s = int (length xs) \<and>
     (\<forall>i < length xs. slot_next (slots s (xs ! i)) = xs ! (Suc i mod length xs)) \<and>
     distinct xs \<and> distinct (map (\<lambda>x. slot_process (slots s x)) xs) \<and> distinct (map (slot_pid s) xs)"

lemma ringD:
  assumes "ring s xs"
  shows "xs \<noteq> []" "xs ! 0 = current s" "current s \<noteq> 0" "cardinal_processes s = int (length xs)"
    "i < length xs \<Longrightarrow> slot_next (slots s (xs ! i)) = xs ! (Suc i mod length xs)"
    "distinct xs" "distinct (map (\<lambda>x. slot_process (slots s x)) xs)" "distinct (map (slot_pid s) xs)"
proof -
  show "current s \<noteq> 0" using assms hd_in_set [of xs] unfolding ring_def by metis
qed (use assms in \<open>auto simp: ring_def hd_conv_nth\<close>)

lemma ring_pid_inj: "ring s xs \<Longrightarrow> x \<in> set xs \<Longrightarrow> y \<in> set xs \<Longrightarrow> slot_pid s x = slot_pid s y \<Longrightarrow> x = y"
  using ringD(8) [of s xs] by (auto simp: distinct_map dest: inj_onD)

lemma ring_process_inj:
  "ring s xs \<Longrightarrow> x \<in> set xs \<Longrightarrow> y \<in> set xs \<Longrightarrow>
   slot_process (slots s x) = slot_process (slots s y) \<longleftrightarrow> x = y"
  using ringD(7) [of s xs] by (auto simp: distinct_map dest: inj_onD)

text \<open>Writing the state of a process touches nothing else of the ring.\<close>

lemma set_state_frame [simp]:
  "slots (set_state p st s) = slots s" "current (set_state p st s) = current s"
  "cardinal_processes (set_state p st s) = cardinal_processes s"
  "buddyArray (set_state p st s) = buddyArray s" "thrs (set_state p st s) = thrs s"
  "frames (set_state p st s) = frames s" "cmem (set_state p st s) = cmem s"
  "next_pid (set_state p st s) = next_pid s" "rsp (set_state p st s) = rsp s"
  "callProcess_addr (set_state p st s) = callProcess_addr s"
  "sched.more (set_state p st s) = sched.more s"
  by (simp_all add: set_state_def)

lemma set_state_proc [simp]:
  "slot_pid (set_state p st s) x = slot_pid s x"
  "p_thread (slot_proc (set_state p st s) x) = p_thread (slot_proc s x)"
  "p_activeThread (slot_proc (set_state p st s) x) = p_activeThread (slot_proc s x)"
  by (simp_all add: set_state_def slot_proc_def)

lemma set_state_state:
  "slot_state (set_state p st s) x = (if slot_process (slots s x) = p then st else slot_state s x)"
  by (simp add: set_state_def slot_proc_def)

lemma ring_set_state [simp]: "ring (set_state p st s) xs = ring s xs"
  by (simp add: ring_def)

lemma set_state_ring:
  "ring s xs \<Longrightarrow> x \<in> set xs \<Longrightarrow> y \<in> set xs \<Longrightarrow>
   slot_state (set_state (slot_process (slots s y)) st s) x = (if x = y then st else slot_state s x)"
  by (auto simp: set_state_state ring_process_inj)

subsection \<open>changeProcessState\<close>

lemma changeProcessState_loop_ring:
  assumes r: "ring s xs"
  shows "i + left = length xs \<Longrightarrow> left \<noteq> 0 \<Longrightarrow>
    changeProcessState_loop left (xs ! i) pid st s =
      (case find_from (\<lambda>x. slot_pid s x = pid) (drop i xs) i of
         None \<Rightarrow> s | Some j \<Rightarrow> set_state (slot_process (slots s (xs ! j))) st s)"
proof (induction left arbitrary: i)
  case 0
  then show ?case by simp
next
  case (Suc left)
  then have i: "i < length xs" by simp
  then have d: "drop i xs = xs ! i # drop (Suc i) xs" by (simp add: Cons_nth_drop_Suc)
  show ?case
  proof (cases "slot_pid s (xs ! i) = pid")
    case True
    then show ?thesis by (simp add: d)
  next
    case False
    show ?thesis
    proof (cases "left = 0")
      case True
      with Suc.prems False show ?thesis by (simp add: d)
    next
      case l: False
      with Suc.prems(1) have "Suc i mod length xs = Suc i" by simp
      with ringD(5) [OF r i] Suc.IH [of "Suc i"] Suc.prems(1) l False show ?thesis by (simp add: d)
    qed
  qed
qed

text \<open>The state changes for exactly the process with that identifier, if there is one.\<close>

lemma changeProcessState_ring:
  assumes r: "ring s xs"
  shows "changeProcessState pid st s =
    (case first_index (\<lambda>x. slot_pid s x = pid) xs of
       None \<Rightarrow> s | Some j \<Rightarrow> set_state (slot_process (slots s (xs ! j))) st s)"
  using changeProcessState_loop_ring [OF r, of 0 "length xs"] ringD(1,2,4) [OF r]
  by (simp add: changeProcessState_def first_index_def)

lemma changeProcessState_cases:
  assumes r: "ring s xs"
  obtains (no) "changeProcessState pid st s = s" "pid \<notin> slot_pid s ` set xs"
  | (yes) x where "x \<in> set xs" "slot_pid s x = pid"
      "changeProcessState pid st s = set_state (slot_process (slots s x)) st s"
proof (cases "first_index (\<lambda>x. slot_pid s x = pid) xs")
  case None
  with no changeProcessState_ring [OF r, of pid st] show ?thesis by (auto simp: first_index_None)
next
  case (Some j)
  then have "j < length xs" "slot_pid s (xs ! j) = pid" by (simp_all add: first_index_Some)
  with Some yes [of "xs ! j"] changeProcessState_ring [OF r, of pid st] show ?thesis by simp
qed

lemma changeProcessState_state:
  assumes r: "ring s xs" and x: "x \<in> set xs"
  shows "slot_state (changeProcessState pid st s) x = (if slot_pid s x = pid then st else slot_state s x)"
  using changeProcessState_cases [OF r, of pid st]
  by cases (use x r in \<open>auto simp: set_state_ring dest: ring_pid_inj\<close>)

lemma changeProcessState_loop_frame:
  "\<exists>p. changeProcessState_loop n x pid st s = s \<or>
     (p_pid (procs s p) = pid \<and> changeProcessState_loop n x pid st s = set_state p st s)"
  by (induction n arbitrary: x) (auto simp: slot_proc_def)

lemma changeProcessState_frame [frame, simp]:
  "slots (changeProcessState pid st s) = slots s" "current (changeProcessState pid st s) = current s"
  "cardinal_processes (changeProcessState pid st s) = cardinal_processes s"
  "buddyArray (changeProcessState pid st s) = buddyArray s" "thrs (changeProcessState pid st s) = thrs s"
  "cmem (changeProcessState pid st s) = cmem s" "rsp (changeProcessState pid st s) = rsp s"
  "slot_pid (changeProcessState pid st s) x = slot_pid s x"
  "getCurrentPid (changeProcessState pid st s) = getCurrentPid s"
  "ring (changeProcessState pid st s) xs = ring s xs"
  "sched.more (changeProcessState pid st s) = sched.more s"
  using changeProcessState_loop_frame [of "nat (cardinal_processes s)" "current s" pid st s]
  by (auto simp: changeProcessState_def getCurrentPid_def)

subsection \<open>schedule\<close>

abbreviation step_next :: "'a sched_scheme \<Rightarrow> addr \<Rightarrow> addr" where
  "step_next s x \<equiv> slot_next (slots s x)"

lemma ring_iterate: "ring s xs \<Longrightarrow> (step_next s ^^ m) (current s) = xs ! (m mod length xs)"
proof (induction m)
  case 0
  then show ?case using ringD(1,2) [of s xs] by simp
next
  case (Suc m)
  then have "m mod length xs < length xs" using ringD(1) [of s xs] by simp
  from ringD(5) [OF Suc.prems this] Suc show ?case by (simp add: mod_Suc_eq)
qed

lemma iterate_Suc: "(step_next s ^^ Suc m) x = (step_next s ^^ m) (step_next s x)"
  by (simp add: funpow_Suc_right del: funpow.simps)

lemma schedule_loop_Some:
  assumes "slot_state s ((step_next s ^^ n) (current s)) = READY"
    and "\<And>m. m < n \<Longrightarrow> slot_state s ((step_next s ^^ m) (current s)) \<noteq> READY"
  shows "schedule_loop s = Some (s\<lparr>current := (step_next s ^^ n) (current s)\<rparr>)"
  using assms
proof (induction n arbitrary: s)
  case 0
  then show ?case by (simp add: schedule_loop.simps)
next
  case (Suc n)
  let ?t = "s\<lparr>current := step_next s (current s)\<rparr>"
  have sh: "(step_next ?t ^^ m) (current ?t) = (step_next s ^^ Suc m) (current s)" for m
    unfolding iterate_Suc by simp
  have sp: "slot_proc ?t = slot_proc s" by (simp add: slot_proc_def fun_eq_iff)
  have "schedule_loop ?t = Some (?t\<lparr>current := (step_next ?t ^^ n) (current ?t)\<rparr>)"
    using Suc.prems(1) Suc.prems(2) [of "Suc m" for m] by (intro Suc.IH) (unfold sh sp, auto)
  moreover have "schedule_loop s = schedule_loop ?t"
    using Suc.prems(2) [of 0] by (subst schedule_loop.simps) simp
  ultimately show ?case unfolding sh by simp
qed

lemma schedule_loop_ready:
  assumes "schedule_loop s = Some t"
  shows "\<exists>n. slot_state s ((step_next s ^^ n) (current s)) = READY"
proof (rule schedule_loop.raw_induct
    [where P = "\<lambda>s t. \<exists>n. slot_state s ((step_next s ^^ n) (current s)) = READY", OF _ assms])
  fix f :: "'a sched_scheme \<Rightarrow> 'a sched_scheme option" and s t :: "'a sched_scheme"
  assume IH: "\<And>s t. f s = Some t \<Longrightarrow> \<exists>n. slot_state s ((step_next s ^^ n) (current s)) = READY"
    and eq: "(if slot_state s (current s) \<noteq> READY then f (s\<lparr>current := step_next s (current s)\<rparr>)
      else Some s) = Some t"
  show "\<exists>n. slot_state s ((step_next s ^^ n) (current s)) = READY"
  proof (cases "slot_state s (current s) = READY")
    case True
    then show ?thesis by (intro exI [of _ 0]) simp
  next
    case False
    with eq obtain n where
      "slot_state (s\<lparr>current := step_next s (current s)\<rparr>)
         ((step_next (s\<lparr>current := step_next s (current s)\<rparr>) ^^ n) (step_next s (current s))) = READY"
      using IH [of "s\<lparr>current := step_next s (current s)\<rparr>" t] by auto
    then show ?thesis
      by (intro exI [of _ "Suc n"]) (simp add: iterate_Suc slot_proc_def del: funpow.simps)
  qed
qed


text \<open>What \<open>schedule\<close> leaves as the states before it looks for the next process.\<close>

definition demoted :: "'a sched_scheme \<Rightarrow> addr \<Rightarrow> processState" where
  "demoted s x = (if x = current s \<and> slot_state s x = RUNNING then READY else slot_state s x)"

definition demote :: "'a sched_scheme \<Rightarrow> 'a sched_scheme" where
  "demote s = (if slot_state s (current s) = RUNNING
     then set_state (slot_process (slots s (current s))) READY s else s)"

lemma demote_frame [simp]:
  "slots (demote s) = slots s" "current (demote s) = current s"
  "cardinal_processes (demote s) = cardinal_processes s" "slot_pid (demote s) x = slot_pid s x"
  by (simp_all add: demote_def)

lemma demote_state: "ring s xs \<Longrightarrow> x \<in> set xs \<Longrightarrow> slot_state (demote s) x = demoted s x"
  using ringD(1,2) [of s xs] nth_mem [of 0 xs]
  by (auto simp: demote_def demoted_def set_state_ring)

lemma schedule_alt:
  "schedule s = map_option (\<lambda>s3. set_state (slot_process (slots s3 (current s3))) RUNNING s3)
     (schedule_loop ((demote s)\<lparr>current := step_next s (current s)\<rparr>))"
  by (simp add: schedule_def demote_def Let_def)

text \<open>The position, counted from the slot after \<open>current\<close>, of the process that runs next.\<close>

definition next_ready :: "'a sched_scheme \<Rightarrow> addr list \<Rightarrow> nat option" where
  "next_ready s xs = first_index (\<lambda>x. demoted s x = READY) (rotate1 xs)"

lemma rotate1_nth: "n < length xs \<Longrightarrow> rotate1 xs ! n = xs ! (Suc n mod length xs)"
  using nth_rotate1 [of n xs] by simp

lemma schedule_ring:
  assumes r: "ring s xs" and n: "next_ready s xs = Some n"
  shows "schedule s =
    Some (set_state (slot_process (slots s (rotate1 xs ! n))) RUNNING
      ((demote s)\<lparr>current := rotate1 xs ! n\<rparr>))"
proof -
  let ?t = "(demote s)\<lparr>current := step_next s (current s)\<rparr>"
  have len: "n < length xs" and rd: "demoted s (rotate1 xs ! n) = READY"
    and nr: "\<And>m. m < n \<Longrightarrow> demoted s (rotate1 xs ! m) \<noteq> READY"
    using n by (auto simp: next_ready_def first_index_Some)
  have it: "(step_next ?t ^^ m) (current ?t) = rotate1 xs ! m" if "m < length xs" for m
    using ring_iterate [OF r, of "Suc m"] rotate1_nth [OF that]
    by (simp add: iterate_Suc del: funpow.simps)
  have st: "slot_state ?t (rotate1 xs ! m) = demoted s (rotate1 xs ! m)" if "m < length xs" for m
  proof -
    have "rotate1 xs ! m \<in> set xs" using that by (metis length_rotate1 nth_mem set_rotate1)
    with demote_state [OF r this] show ?thesis by (simp add: slot_proc_def)
  qed
  have "schedule_loop ?t = Some (?t\<lparr>current := (step_next ?t ^^ n) (current ?t)\<rparr>)"
    using len rd nr it st by (intro schedule_loop_Some) (auto simp del: sched.simps demote_frame)
  with it [OF len] show ?thesis by (simp add: schedule_alt)
qed

lemma schedule_stuck:
  assumes r: "ring s xs" and n: "next_ready s xs = None"
  shows "schedule s = None"
proof (rule ccontr)
  let ?t = "(demote s)\<lparr>current := step_next s (current s)\<rparr>"
  assume "schedule s \<noteq> None"
  then obtain u where "schedule_loop ?t = Some u" by (auto simp: schedule_alt)
  then obtain m where "slot_state ?t ((step_next ?t ^^ m) (current ?t)) = READY"
    using schedule_loop_ready by blast
  moreover have "(step_next ?t ^^ m) (current ?t) = xs ! (Suc m mod length xs)"
    using ring_iterate [OF r, of "Suc m"] by (simp add: iterate_Suc del: funpow.simps)
  moreover have mem: "xs ! (Suc m mod length xs) \<in> set xs" using ringD(1) [OF r] by simp
  ultimately have "demoted s (xs ! (Suc m mod length xs)) = READY"
    using demote_state [OF r mem] by (simp add: slot_proc_def)
  with n mem show False by (auto simp: next_ready_def first_index_None)
qed

lemma ring_rotate:
  assumes r: "ring s xs" and n: "n < length xs"
  shows "ring (s\<lparr>current := xs ! n\<rparr>) (rotate n xs)"
proof -
  have ne: "xs \<noteq> []" using ringD(1) [OF r] .
  have nx: "slot_next (slots s (rotate n xs ! i)) = rotate n xs ! (Suc i mod length xs)" if "i < length xs" for i
  proof -
    have "(n + i) mod length xs < length xs" using ne by simp
    from ringD(5) [OF r this] have "slot_next (slots s (xs ! ((n + i) mod length xs))) =
        xs ! (Suc (n + i) mod length xs)" by (simp add: mod_Suc_eq)
    moreover have "Suc i mod length xs < length xs" using ne by simp
    ultimately show ?thesis using that by (simp add: nth_rotate mod_add_right_eq)
  qed
  have "hd (rotate n xs) = xs ! n" using n ne by (simp add: hd_rotate_conv_nth)
  then show ?thesis
    using r nx unfolding ring_def by (simp add: slot_proc_def rotate_map [symmetric] distinct_rotate)
qed


text \<open>
  The whole effect of \<open>schedule\<close> on the ring: it turns so that the chosen slot comes first,
  that process runs, the one that ran before is ready, all others are as they were.
\<close>

lemma schedule_effect:
  assumes r: "ring s xs" and n: "next_ready s xs = Some n" and s: "schedule s = Some t"
  shows "ring t (rotate (Suc n) xs)" "current t = rotate1 xs ! n" "slots t = slots s"
    "slot_pid t x = slot_pid s x"
    "x \<in> set xs \<Longrightarrow> slot_state t x = (if x = current t then RUNNING else demoted s x)"
    "thrs t = thrs s" "p_thread (slot_proc t x) = p_thread (slot_proc s x)"
    "p_activeThread (slot_proc t x) = p_activeThread (slot_proc s x)"
    "buddyArray t = buddyArray s" "cmem t = cmem s" "rsp t = rsp s" "sched.more t = sched.more s"
proof -
  have len: "n < length xs" using n by (auto simp: next_ready_def first_index_Some)
  have ne: "xs \<noteq> []" using ringD(1) [OF r] .
  have t: "t = set_state (slot_process (slots s (rotate1 xs ! n))) RUNNING ((demote s)\<lparr>current := rotate1 xs ! n\<rparr>)"
    using s schedule_ring [OF r n] by simp
  have rd: "ring (demote s) xs" using r by (simp add: demote_def)
  have k: "Suc n mod length xs < length xs" using ne by simp
  have rot: "rotate (Suc n mod length xs) xs = rotate (Suc n) xs"
    using rotate_conv_mod [of "Suc n" xs] by simp
  show "ring t (rotate (Suc n) xs)"
    using ring_rotate [OF rd k] unfolding rot t by (simp add: rotate1_nth [OF len])
  show "current t = rotate1 xs ! n" "slots t = slots s" by (simp_all add: t)
  show "slot_pid t x = slot_pid s x" "thrs t = thrs s"
    "p_thread (slot_proc t x) = p_thread (slot_proc s x)"
    "p_activeThread (slot_proc t x) = p_activeThread (slot_proc s x)"
    "buddyArray t = buddyArray s" "cmem t = cmem s" "rsp t = rsp s" "sched.more t = sched.more s"
    by (auto simp: t demote_def slot_proc_def set_state_def)
  assume x: "x \<in> set xs"
  have y: "rotate1 xs ! n \<in> set xs" using len by (metis length_rotate1 nth_mem set_rotate1)
  have "slot_state (set_state (slot_process (slots s (rotate1 xs ! n))) RUNNING (demote s)) x =
      (if x = rotate1 xs ! n then RUNNING else demoted s x)"
    using set_state_ring [OF rd x y, of RUNNING] demote_state [OF r x] by simp
  then show "slot_state t x = (if x = current t then RUNNING else demoted s x)"
    by (simp add: t slot_proc_def set_state_def)
qed

lemma schedule_Some_iff: "ring s xs \<Longrightarrow> (\<exists>t. schedule s = Some t) \<longleftrightarrow> (\<exists>x \<in> set xs. demoted s x = READY)"
  using schedule_ring [of s xs] schedule_stuck [of s xs]
  by (cases "next_ready s xs") (auto simp: next_ready_def first_index_None first_index_Some)

text \<open>At most one process is marked as running: the one at the front of the ring.\<close>

definition one_running :: "'a sched_scheme \<Rightarrow> addr list \<Rightarrow> bool" where
  "one_running s xs \<longleftrightarrow> (\<forall>x \<in> set xs. slot_state s x = RUNNING \<longrightarrow> x = current s)"

lemma one_running_schedule [inv_pres]:
  assumes "ring s xs" "one_running s xs" "schedule s = Some t"
  shows "one_running t xs"
proof -
  obtain n where n: "next_ready s xs = Some n"
    using assms(3) schedule_stuck [OF assms(1)] by (cases "next_ready s xs") auto
  have "demoted s x \<noteq> RUNNING" if "x \<in> set xs" for x
    using assms(2) that by (auto simp: one_running_def demoted_def)
  with schedule_effect(5) [OF assms(1) n assms(3)] show ?thesis by (auto simp: one_running_def)
qed

lemma one_running_changeProcessState [inv_pres]:
  "ring s xs \<Longrightarrow> one_running s xs \<Longrightarrow> st \<noteq> RUNNING \<Longrightarrow> one_running (changeProcessState pid st s) xs"
  by (auto simp: one_running_def changeProcessState_state split: if_splits)

subsection \<open>Turns of the round robin\<close>

fun schedules :: "nat \<Rightarrow> 'a sched_scheme \<Rightarrow> 'a sched_scheme option" where
  "schedules 0 s = Some s"
| "schedules (Suc n) s = (case schedule s of None \<Rightarrow> None | Some t \<Rightarrow> schedules n t)"

lemma ready_runs_within:
  "ring s xs \<Longrightarrow> i < length xs \<Longrightarrow> slot_state s (xs ! i) = READY \<Longrightarrow> 0 < i \<Longrightarrow>
   \<exists>n t. 0 < n \<and> n \<le> i \<and> schedules n s = Some t \<and> current t = xs ! i \<and> slot_state t (xs ! i) = RUNNING"
proof (induction i arbitrary: s xs rule: less_induct)
  case (less i)
  have ne: "xs \<noteq> []" and dx: "distinct xs" using ringD [OF less.prems(1)] by blast+
  have xi: "rotate1 xs ! (i - 1) = xs ! i" "i - 1 < length xs"
    using rotate1_nth [of "i - 1" xs] less.prems by simp_all
  have "demoted s (xs ! i) = READY" using less.prems(3) by (simp add: demoted_def)
  with xi have rdy: "demoted s (rotate1 xs ! (i - 1)) = READY" by simp
  have "next_ready s xs \<noteq> None"
    using rdy xi(2) unfolding next_ready_def first_index_None_nth by auto
  then obtain n where n1: "next_ready s xs = Some n" by blast
  then have "\<not> i - 1 < n" using rdy unfolding next_ready_def first_index_Some by blast
  with n1 have n: "next_ready s xs = Some n" "n \<le> i - 1" by simp_all
  obtain t where t: "schedule s = Some t" using schedule_ring [OF less.prems(1) n(1)] by simp
  note eff = schedule_effect [OF less.prems(1) n(1) t]
  have len: "n < length xs" using n(2) less.prems by linarith
  show ?case
  proof (cases "n = i - 1")
    case True
    with eff(2) xi have "current t = xs ! i" by simp
    moreover have "slot_state t (xs ! i) = RUNNING" using eff(5) [of "xs ! i"] calculation less.prems(2) by simp
    ultimately show ?thesis using t less.prems(4) by (intro exI [of _ 1] exI [of _ t]) simp
  next
    case False
    with n(2) less.prems(4) have lt: "Suc n < i" by linarith
    let ?j = "i - Suc n"
    have j: "?j < i" "?j < length xs" "0 < ?j" using lt less.prems(2) by auto
    have "(Suc n + ?j) mod length xs = i" using lt less.prems(2) by simp
    then have nth: "rotate (Suc n) xs ! ?j = xs ! i" using nth_rotate [OF j(2), of "Suc n"] by simp
    have "rotate1 xs ! n = xs ! Suc n" using rotate1_nth [OF len] lt less.prems(2) by simp
    then have "current t \<noteq> xs ! i" using eff(2) dx lt less.prems(2) by (simp add: nth_eq_iff_index_eq)
    then have "slot_state t (xs ! i) = READY"
      using eff(5) [of "xs ! i"] less.prems(2,3) by (simp add: demoted_def)
    then obtain m u where "0 < m" "m \<le> ?j" "schedules m t = Some u" "current u = xs ! i"
        "slot_state u (xs ! i) = RUNNING"
      using less.IH [OF j(1) eff(1)] j nth by (metis length_rotate)
    then show ?thesis using t j lt by (intro exI [of _ "Suc m"] exI [of _ u]) simp
  qed
qed

subsection \<open>A new process enters the ring\<close>

lemma addProcess_empty:
  assumes a: "allocPage (buddyArray s) 1 = Some (a, b)" "a \<noteq> 0" and "current s = 0" "cardinal_processes s = 0"
  shows "\<exists>t. addProcess p s = Some t \<and> ring (t\<lparr>cardinal_processes := 1\<rparr>) [a] \<and> procs t = procs s \<and>
    buddyArray t = b \<and> slot_process (slots t a) = p \<and> sched.more t = sched.more s"
  using assms by (simp add: addProcess_def newProcessSlot_def sizeof_ProcessSlot_def
      NUMBER_OF_PAGES_TO_ALLOC_def ring_def)

lemma addProcess_ring:
  assumes r: "ring s (x # xs)" and a: "allocPage (buddyArray s) 1 = Some (a, b)" "a \<noteq> 0"
    and fresh: "a \<notin> set (x # xs)" "p \<notin> (\<lambda>x. slot_process (slots s x)) ` set (x # xs)"
      "p_pid (procs s p) \<notin> slot_pid s ` set (x # xs)"
  shows "\<exists>t. addProcess p s = Some t \<and>
    ring (t\<lparr>cardinal_processes := cardinal_processes s + 1\<rparr>) (x # a # xs) \<and> procs t = procs s \<and>
    buddyArray t = b \<and> slot_process (slots t a) = p \<and> sched.more t = sched.more s \<and>
    next_pid t = next_pid s \<and> thrs t = thrs s \<and> frames t = frames s \<and> cmem t = cmem s \<and>
    cardinal_processes t = cardinal_processes s \<and>
    (\<forall>y \<in> set (x # xs). slot_process (slots t y) = slot_process (slots s y))"
proof -
  note rd = ringD [OF r]
  have x: "x = current s" "x \<noteq> 0" using rd(2,3) by auto
  define nx where "nx = slot_next (slots s x)"
  define t where "t = s\<lparr>buddyArray := b, slots := (slots s)
    (x := (slots s x)\<lparr>slot_next := a\<rparr>, a := (slots s a)\<lparr>slot_process := p, slot_next := nx\<rparr>)\<rparr>"
  have add: "addProcess p s = Some t"
    using a x fresh(1) by (auto simp: addProcess_def newProcessSlot_def sizeof_ProcessSlot_def
        NUMBER_OF_PAGES_TO_ALLOC_def t_def Let_def nx_def fun_upd_twist)
  have nx: "nx = (xs @ [x]) ! 0" using rd(5) [of 0] by (cases xs) (simp_all add: nx_def)
  have sp: "slot_process (slots t y) = (if y = a then p else slot_process (slots s y))" for y
    by (simp add: t_def)
  have pid: "slot_pid t y = (if y = a then p_pid (procs s p) else slot_pid s y)" for y
    by (simp add: t_def slot_proc_def)
  have sn: "slot_next (slots t ((x # a # xs) ! i)) = (x # a # xs) ! (Suc i mod length (x # a # xs))"
    if "i < length (x # a # xs)" for i
  proof (cases i)
    case 0
    then show ?thesis using fresh(1) by (simp add: t_def)
  next
    case (Suc j)
    show ?thesis
    proof (cases j)
      case 0
      with Suc nx show ?thesis by (cases xs) (simp_all add: t_def)
    next
      case j: (Suc k)
      then have k: "k < length xs" and ik: "i = Suc (Suc k)" using Suc that by auto
      then have ne: "xs ! k \<noteq> x" "xs ! k \<noteq> a" using rd(6) fresh(1) nth_mem [OF k] by auto
      have "slot_next (slots s (xs ! k)) = (x # xs) ! (Suc (Suc k) mod Suc (length xs))"
        using rd(5) [of "Suc k"] k by simp
      also have "\<dots> = (x # a # xs) ! (Suc i mod length (x # a # xs))"
      proof (cases "Suc k < length xs")
        case True
        then show ?thesis using ik by simp
      next
        case False
        with k have "length xs = Suc k" by simp
        then show ?thesis using ik by simp
      qed
      finally show ?thesis using ne ik by (simp add: t_def)
    qed
  qed
  have eq: "map (\<lambda>y. slot_process (slots t y)) (x # a # xs) =
      slot_process (slots s x) # p # map (\<lambda>y. slot_process (slots s y)) xs"
    "map (slot_pid t) (x # a # xs) = slot_pid s x # p_pid (procs s p) # map (slot_pid s) xs"
    using fresh(1) by (auto simp: sp pid)
  have sl: "slots (t\<lparr>cardinal_processes := c\<rparr>) = slots t" for c by simp
  have pd: "slot_pid (t\<lparr>cardinal_processes := c\<rparr>) = slot_pid t" for c
    by (simp add: fun_eq_iff slot_proc_def)
  have "ring (t\<lparr>cardinal_processes := cardinal_processes s + 1\<rparr>) (x # a # xs)"
    unfolding ring_def
  proof (intro conjI)
    show "distinct (map (\<lambda>y. slot_process (slots (t\<lparr>cardinal_processes := cardinal_processes s + 1\<rparr>) y)) (x # a # xs))"
      unfolding sl eq(1) using rd(7) fresh(2) by auto
    show "distinct (map (slot_pid (t\<lparr>cardinal_processes := cardinal_processes s + 1\<rparr>)) (x # a # xs))"
      unfolding pd eq(2) using rd(8) fresh(3) by auto
    show "\<forall>i < length (x # a # xs). slot_next (slots (t\<lparr>cardinal_processes := cardinal_processes s + 1\<rparr>) ((x # a # xs) ! i)) =
        (x # a # xs) ! (Suc i mod length (x # a # xs))"
      using sn by simp
    show "hd (x # a # xs) = current (t\<lparr>cardinal_processes := cardinal_processes s + 1\<rparr>)"
      using x by (simp add: t_def)
    show "distinct (x # a # xs)" using rd(6) fresh(1) by auto
    show "0 \<notin> set (x # a # xs)" using r a(2) by (auto simp: ring_def)
    show "cardinal_processes (t\<lparr>cardinal_processes := cardinal_processes s + 1\<rparr>) = int (length (x # a # xs))"
      using rd(4) by simp
  qed simp
  moreover have "\<forall>y \<in> set (x # xs). slot_process (slots t y) = slot_process (slots s y)"
    unfolding sp using fresh(1) by auto
  ultimately show ?thesis
    using add by (intro exI [of _ t] conjI) (simp_all add: t_def)
qed

subsection \<open>Switching stacks\<close>

definition thread_ok :: "Process \<Rightarrow> bool" where
  "thread_ok p \<longleftrightarrow> length (p_thread p) = MAX_THREADS \<and> 0 \<le> p_activeThread p \<and>
     p_activeThread p < int MAX_THREADS"

definition active_thread :: "'a sched_scheme \<Rightarrow> addr \<Rightarrow> addr" where
  "active_thread s x = p_thread (slot_proc s x) ! nat (p_activeThread (slot_proc s x))"

lemma thread_at_active: "thread_ok (slot_proc s x) \<Longrightarrow>
    thread_at (slot_proc s x) (p_activeThread (slot_proc s x)) = Some (active_thread s x)"
  by (simp add: thread_ok_def thread_at_def active_thread_def)

lemma set_userStack_frame [simp]:
  "slots (set_userStack t v s) = slots s" "current (set_userStack t v s) = current s"
  "procs (set_userStack t v s) = procs s" "cardinal_processes (set_userStack t v s) = cardinal_processes s"
  "slot_proc (set_userStack t v s) x = slot_proc s x" "buddyArray (set_userStack t v s) = buddyArray s"
  "cmem (set_userStack t v s) = cmem s" "sched.more (set_userStack t v s) = sched.more s"
  "rsp (set_userStack t v s) = rsp s"
  "t_userStack (thrs (set_userStack t v s) u) = (if u = t then v else t_userStack (thrs s u))"
  by (simp_all add: set_userStack_def slot_proc_def)

lemma ring_set_userStack [simp]: "ring (set_userStack t v s) xs = ring s xs"
  by (simp add: ring_def)

lemma next_ready_set_userStack [simp]: "next_ready (set_userStack t v s) xs = next_ready s xs"
proof -
  have "demoted (set_userStack t v s) = demoted s" by (auto simp: demoted_def fun_eq_iff)
  then show ?thesis by (simp add: next_ready_def)
qed

text \<open>
  \<open>next_process\<close> parks the stack pointer in the active thread of the outgoing process and
  hands out the one that was parked in the active thread of the process that runs next.
\<close>

lemma next_process_effect:
  assumes r: "ring s xs" and n: "next_ready s xs = Some n" and ok: "\<forall>x \<in> set xs. thread_ok (slot_proc s x)"
  shows "\<exists>t. next_process sp s = Some (t_userStack (thrs t (active_thread s (current t))), t) \<and>
    schedule (set_userStack (active_thread s (current s)) sp s) = Some t \<and>
    ring t (rotate (Suc n) xs) \<and> current t = rotate1 xs ! n \<and> slots t = slots s \<and>
    (\<forall>x. slot_pid t x = slot_pid s x) \<and>
    (\<forall>x \<in> set xs. slot_state t x = (if x = current t then RUNNING else demoted s x)) \<and>
    (\<forall>x. active_thread t x = active_thread s x) \<and>
    (\<forall>u. t_userStack (thrs t u) = (if u = active_thread s (current s) then sp else t_userStack (thrs s u))) \<and>
    (\<forall>x \<in> set xs. thread_ok (slot_proc t x)) \<and>
    buddyArray t = buddyArray s \<and> cmem t = cmem s \<and> sched.more t = sched.more s"
proof -
  let ?s = "set_userStack (active_thread s (current s)) sp s"
  have cur: "current s \<in> set xs" using ringD(1,2) [OF r] nth_mem [of 0 xs] by simp
  have r': "ring ?s xs" "next_ready ?s xs = Some n" using r n by simp_all
  obtain t where t: "schedule ?s = Some t" using schedule_ring [OF r'] by simp
  note eff = schedule_effect [OF r' t]
  have len: "n < length xs" using n by (auto simp: next_ready_def first_index_Some)
  have act: "active_thread t x = active_thread s x" for x
    by (simp add: active_thread_def eff(7,8))
  have ok': "thread_ok (slot_proc t x)" if "x \<in> set xs" for x
    using ok that by (simp add: thread_ok_def eff(7,8))
  have ct: "current t \<in> set xs" using eff(2) len by (metis length_rotate1 nth_mem set_rotate1)
  have us: "getCurrentUserStack t = Some (t_userStack (thrs t (active_thread s (current t))))"
    unfolding getCurrentUserStack_def thread_at_active [OF ok' [OF ct]] act by simp
  have "next_process sp s = Some (t_userStack (thrs t (active_thread s (current t))), t)"
    using ringD(3) [OF r] thread_at_active [OF ok [rule_format, OF cur]] t us
    by (simp add: next_process_def)
  moreover have "demoted ?s x = demoted s x" for x by (auto simp: demoted_def)
  ultimately show ?thesis
    using t eff act ok' by (intro exI [of _ t]) simp
qed

lemma next_process_stuck:
  assumes "ring s xs" "next_ready s xs = None"
  shows "next_process sp s = None"
  using assms schedule_stuck [of "set_userStack u sp s" xs for u]
  by (auto simp: next_process_def ringD(3) split: option.splits)

subsection \<open>The next thread of a process\<close>

lemma smod_pos: "0 \<le> (a::int) \<Longrightarrow> 0 < b \<Longrightarrow> a smod b = a mod b"
  by (cases "a = 0") (simp_all add: signed_modulo_int_def signed_divide_int_def minus_div_mult_eq_mod sgn_if)

lemma nextThread_loop_found:
  assumes ok: "thread_ok p" and nz: "p_thread p ! nat ((p_activeThread p + i + int d) mod 10) \<noteq> 0" and i: "0 \<le> i"
    and z: "\<And>e. e < d \<Longrightarrow> p_thread p ! nat ((p_activeThread p + i + int e) mod 10) = 0"
  shows "nextThread_loop p i = Some ((p_activeThread p + i + int d) mod 10)"
  using nz i z
proof (induction d arbitrary: i)
  case 0
  with ok show ?case
    by (subst nextThread_loop.simps) (simp add: thread_ok_def MAX_THREADS_def thread_at_def smod_pos nat_less_iff)
next
  case (Suc d)
  have "nextThread_loop p i = nextThread_loop p (i + 1)"
    using ok Suc.prems(2) Suc.prems(3) [of 0]
    by (subst nextThread_loop.simps) (simp add: thread_ok_def MAX_THREADS_def thread_at_def smod_pos nat_less_iff)
  also have "\<dots> = Some ((p_activeThread p + (i + 1) + int d) mod 10)"
    using Suc.prems(1,2) Suc.prems(3) [of "Suc e" for e] by (intro Suc.IH) (simp_all add: algebra_simps)
  finally show ?case by (simp add: algebra_simps)
qed


section \<open>The scheduler as a list of processes\<close>

text \<open>
  The abstract machine: identifiers and states, the process on the processor first. A turn
  makes it ready if it was running, and brings the next ready process to the front.
\<close>

definition table :: "'a sched_scheme \<Rightarrow> addr list \<Rightarrow> (int \<times> processState) list" where
  "table s xs = map (\<lambda>x. (slot_pid s x, slot_state s x)) xs"

fun release_front :: "(int \<times> processState) list \<Rightarrow> (int \<times> processState) list" where
  "release_front [] = []"
| "release_front ((p, st) # ps) = (p, if st = RUNNING then READY else st) # ps"

fun run_front :: "(int \<times> processState) list \<Rightarrow> (int \<times> processState) list" where
  "run_front [] = []"
| "run_front ((p, st) # ps) = (p, RUNNING) # ps"

definition abs_schedule :: "(int \<times> processState) list \<Rightarrow> (int \<times> processState) list option" where
  "abs_schedule ps =
     map_option (\<lambda>n. run_front (rotate (Suc n) (release_front ps)))
       (first_index (\<lambda>(p, st). st = READY) (rotate1 (release_front ps)))"

lemma find_from_map: "find_from P (map f xs) k = find_from (\<lambda>x. P (f x)) xs k"
  by (induction xs arbitrary: k) auto

lemma first_index_map: "first_index P (map f xs) = first_index (\<lambda>x. P (f x)) xs"
  by (simp add: first_index_def find_from_map)

lemma release_front_table:
  assumes "ring s xs"
  shows "release_front (table s xs) = map (\<lambda>x. (slot_pid s x, demoted s x)) xs"
proof (cases xs)
  case Nil
  then show ?thesis by (simp add: table_def)
next
  case (Cons x ys)
  with ringD(2,6) [OF assms] have "x = current s" "\<forall>y \<in> set ys. y \<noteq> current s" by auto
  with Cons show ?thesis by (auto simp: table_def demoted_def)
qed

lemma abs_schedule_table:
  assumes "ring s xs"
  shows "abs_schedule (table s xs) =
    map_option (\<lambda>n. run_front (map (\<lambda>x. (slot_pid s x, demoted s x)) (rotate (Suc n) xs))) (next_ready s xs)"
  by (simp add: abs_schedule_def release_front_table [OF assms] rotate1_map rotate_map first_index_map
      next_ready_def del: rotate_Suc)

lemma run_front_table:
  assumes "ring t ys" "\<forall>x. slot_pid t x = slot_pid s x"
    and "\<forall>x \<in> set ys. slot_state t x = (if x = current t then RUNNING else demoted s x)"
  shows "run_front (map (\<lambda>x. (slot_pid s x, demoted s x)) ys) = table t ys"
proof (cases ys)
  case Nil
  then show ?thesis by (simp add: table_def)
next
  case (Cons y zs)
  with ringD(2,6) [OF assms(1)] have "y = current t" "\<forall>z \<in> set zs. z \<noteq> current t" by auto
  with Cons assms(2,3) show ?thesis by (auto simp: table_def)
qed

lemma schedule_refines:
  assumes r: "ring s xs"
  shows "case schedule s of None \<Rightarrow> abs_schedule (table s xs) = None
    | Some t \<Rightarrow> \<exists>ys. ring t ys \<and> set ys = set xs \<and> abs_schedule (table s xs) = Some (table t ys)"
proof (cases "next_ready s xs")
  case None
  with schedule_stuck [OF r] abs_schedule_table [OF r] show ?thesis by simp
next
  case (Some n)
  then obtain t where t: "schedule s = Some t" using schedule_ring [OF r] by simp
  note eff = schedule_effect [OF r Some t]
  have "run_front (map (\<lambda>x. (slot_pid s x, demoted s x)) (rotate (Suc n) xs)) = table t (rotate (Suc n) xs)"
    using eff(4,5) by (intro run_front_table [OF eff(1)]) auto
  with Some t eff(1) abs_schedule_table [OF r] show ?thesis
    by (auto simp del: rotate_Suc intro!: exI [of _ "rotate (Suc n) xs"])
qed

section \<open>An example state\<close>

text \<open>Three processes: init running, one blocked, one ready. Used by the witnesses.\<close>

definition ex_proc :: "int \<Rightarrow> processState \<Rightarrow> addr \<Rightarrow> Process" where
  "ex_proc i st t = \<lparr>p_pid = i, p_state = st, p_description = 0, p_activeThread = 0, p_numberOfThreads = 1,
     p_thread = [t, 0, 0, 0, 0, 0, 0, 0, 0, 0], p_pipesOpened = 0, p_occupiedPosition = 0, p_pipePids = 0,
     p_blocked = 0, p_pipesStruct = 0, p_pipes = 0, p_heap = 0, p_pagesIndex = 0,
     p_pages = [0, 0, 0, 0, 0, 0, 0, 0, 0, 0]\<rparr>"

definition ex_thread :: "addr \<Rightarrow> Thread" where
  "ex_thread u = \<lparr>t_userStack = u, t_kernelStack = u + 4096, t_entryPoint = 0\<rparr>"

definition ex_frame :: StackFrame where
  "ex_frame = \<lparr>f_gs = 0, f_fs = 0, f_r15 = 0, f_r14 = 0, f_r13 = 0, f_r12 = 0, f_r11 = 0, f_r10 = 0,
     f_r9 = 0, f_r8 = 0, f_rsi = 0, f_rdi = 0, f_rbp = 0, f_rdx = 0, f_rcx = 0, f_rbx = 0, f_rax = 0,
     f_rip = 0, f_cs = 0, f_eflags = 0, f_rsp = 0, f_ss = 0, f_base = 0\<rparr>"

definition ex_sched :: sched where
  "ex_sched = \<lparr>buddyArray = createHeap buddy_bss,
     slots = (\<lambda>_. \<lparr>slot_next = 0, slot_process = 0\<rparr>)
       (100 := \<lparr>slot_next = 200, slot_process = 1000\<rparr>, 200 := \<lparr>slot_next = 300, slot_process = 2000\<rparr>,
        300 := \<lparr>slot_next = 100, slot_process = 3000\<rparr>),
     procs = (\<lambda>_. ex_proc (- 1) DEAD 0)
       (1000 := ex_proc 0 RUNNING 10, 2000 := ex_proc 1 BLOCKED 20, 3000 := ex_proc 2 READY 30),
     thrs = (\<lambda>_. ex_thread 0)(10 := ex_thread 11, 20 := ex_thread 22, 30 := ex_thread 33),
     frames = (\<lambda>_. ex_frame), cmem = (\<lambda>_. 0), current = 100, cardinal_processes = 3, next_pid = 3,
     rsp = 500, callProcess_addr = 0\<rparr>"

lemmas ex_sched_simps = ex_sched_def ex_proc_def ex_thread_def slot_proc_def

lemma ring_ex_sched: "ring ex_sched [100, 200, 300]"
  by (simp add: ring_def All_less_Suc ex_sched_simps)

lemma ex_threads_ok: "\<forall>x \<in> set [100, 200, 300]. thread_ok (slot_proc ex_sched x)"
  by (simp add: thread_ok_def MAX_THREADS_def ex_sched_simps)

lemma next_ready_ex_sched: "next_ready ex_sched [100, 200, 300] = Some 1"
  by (simp add: next_ready_def first_index_def demoted_def ex_sched_simps)


section \<open>Properties\<close>

text \<open>
  C4: one turn of the scheduler is one turn of the abstract round robin: it hangs exactly
  when no process is ready, and otherwise leaves a well-formed ring with the same slots in
  which the next ready process is at the front and runs.
\<close>

theorem schedule_implements_round_robin:
  assumes "ring s xs"
  shows "case schedule s of None \<Rightarrow> abs_schedule (table s xs) = None
    | Some t \<Rightarrow> \<exists>ys. ring t ys \<and> set ys = set xs \<and> abs_schedule (table s xs) = Some (table t ys)"
  using assms by (rule schedule_refines)

theorem schedule_implements_round_robin_witness:
  "\<exists>t ys. schedule ex_sched = Some t \<and> ring t ys \<and> abs_schedule [(0, RUNNING), (1, BLOCKED), (2, READY)] = Some (table t ys)"
proof -
  obtain t where "schedule ex_sched = Some t"
    using schedule_ring [OF ring_ex_sched next_ready_ex_sched] by simp
  moreover have "table ex_sched [100, 200, 300] = [(0, RUNNING), (1, BLOCKED), (2, READY)]"
    by (simp add: table_def ex_sched_simps)
  ultimately show ?thesis using schedule_implements_round_robin [OF ring_ex_sched] by auto
qed

text \<open>
  C5: no ready process starves: the process that is \<open>i\<close> slots away from the current one, and
  ready, runs after at most \<open>i\<close> turns.
\<close>

theorem ready_process_runs:
  assumes "ring s xs" "0 < i" "i < length xs" "slot_state s (xs ! i) = READY"
  shows "\<exists>n t. 0 < n \<and> n \<le> i \<and> schedules n s = Some t \<and> current t = xs ! i \<and> slot_state t (xs ! i) = RUNNING"
  by (rule ready_runs_within [OF assms(1,3,4,2)])

theorem ready_process_runs_witness:
  "\<exists>n t. 0 < n \<and> n \<le> 2 \<and> schedules n ex_sched = Some t \<and> current t = 300 \<and> slot_state t 300 = RUNNING"
  using ready_process_runs [OF ring_ex_sched, of 2] by (simp add: ex_sched_simps)

text \<open>
  C6: as long as the init process (identifier 0) is ready, or is the one that runs, the
  scheduler always finds a process, and it keeps at most one process running.
\<close>

theorem init_keeps_scheduler_alive:
  assumes "ring s xs" "one_running s xs" "x \<in> set xs" "slot_pid s x = INIT_PID"
    and "slot_state s x \<in> {READY, RUNNING}"
  shows "\<exists>t ys. schedule s = Some t \<and> ring t ys \<and> set ys = set xs \<and> one_running t ys \<and>
    slot_state t x \<in> {READY, RUNNING} \<and> slot_state t (current t) = RUNNING"
proof -
  have rdy: "demoted s x = READY" using assms(2,3,5) by (auto simp: demoted_def one_running_def)
  then have "next_ready s xs \<noteq> None"
    using assms(3) by (auto simp: next_ready_def first_index_None)
  then obtain n where n: "next_ready s xs = Some n" by blast
  then obtain t where t: "schedule s = Some t" using schedule_ring [OF assms(1)] by simp
  note eff = schedule_effect [OF assms(1) n t]
  have "one_running t xs" by (rule one_running_schedule [OF assms(1,2) t])
  then have "one_running t (rotate (Suc n) xs)" by (simp add: one_running_def)
  moreover have "current t \<in> set xs"
    using n nth_mem [of n "rotate1 xs"] by (auto simp: eff(2) next_ready_def first_index_Some)
  then have "slot_state t (current t) = RUNNING" using eff(5) by simp
  moreover have "slot_state t x \<in> {READY, RUNNING}" using eff(5) [OF assms(3)] rdy by simp
  ultimately show ?thesis using t eff(1) by (metis set_rotate)
qed

theorem init_keeps_scheduler_alive_witness:
  "\<exists>t ys. schedule ex_sched = Some t \<and> ring t ys \<and> one_running t ys"
proof -
  have "one_running ex_sched [100, 200, 300]" by (simp add: one_running_def ex_sched_simps)
  moreover have "slot_pid ex_sched 100 = INIT_PID" "slot_state ex_sched 100 \<in> {READY, RUNNING}"
    by (simp_all add: ex_sched_simps INIT_PID_def)
  ultimately show ?thesis using init_keeps_scheduler_alive [OF ring_ex_sched, of 100] by auto
qed

text \<open>
  C7: \<open>next_process\<close> parks the stack pointer it is given in the active thread of the
  outgoing process, touches no other parked stack pointer, and returns the one parked in
  the active thread of the process it switches to; so a process resumes where it left.
\<close>

theorem next_process_switches_stacks:
  assumes "ring s xs" "\<forall>x \<in> set xs. thread_ok (slot_proc s x)" "next_process sp s = Some (ans, t)"
  shows "t_userStack (thrs t (active_thread s (current s))) = sp \<and>
    (\<forall>u. u \<noteq> active_thread s (current s) \<longrightarrow> t_userStack (thrs t u) = t_userStack (thrs s u)) \<and>
    ans = t_userStack (thrs t (active_thread t (current t))) \<and>
    slot_state t (current t) = RUNNING \<and> current t \<in> set xs"
proof -
  obtain n where n: "next_ready s xs = Some n"
    using assms(3) next_process_stuck [OF assms(1)] by (cases "next_ready s xs") auto
  have "current t \<in> set xs"
    using next_process_effect [OF assms(1) n assms(2), of sp] assms(3) n nth_mem [of n "rotate1 xs"]
    by (auto simp: next_ready_def first_index_Some)
  then show ?thesis
    using next_process_effect [OF assms(1) n assms(2), of sp] assms(3) by auto
qed

theorem next_process_switches_stacks_witness:
  "\<exists>ans t. next_process 500 ex_sched = Some (ans, t) \<and> t_userStack (thrs t 10) = 500 \<and>
     ans = t_userStack (thrs t (active_thread t (current t)))"
proof -
  obtain ans t where t: "next_process 500 ex_sched = Some (ans, t)"
    using next_process_effect [OF ring_ex_sched next_ready_ex_sched ex_threads_ok, of 500] by blast
  moreover have "active_thread ex_sched (current ex_sched) = 10"
    by (simp add: active_thread_def ex_sched_simps)
  ultimately show ?thesis
    using next_process_switches_stacks [OF ring_ex_sched ex_threads_ok t] by auto
qed

text \<open>
  \<open>changeProcessState\<close> changes the state of the process with the given identifier and of
  no other; an identifier that is not in the ring changes nothing.
\<close>

theorem changeProcessState_exact:
  assumes "ring s xs"
  shows "(\<forall>x \<in> set xs. slot_state (changeProcessState pid st s) x =
       (if slot_pid s x = pid then st else slot_state s x)) \<and>
    ring (changeProcessState pid st s) xs \<and>
    (pid \<notin> slot_pid s ` set xs \<longrightarrow> changeProcessState pid st s = s)"
proof -
  have "changeProcessState pid st s = s" if "pid \<notin> slot_pid s ` set xs"
    using changeProcessState_cases [OF assms, of pid st] that by cases auto
  with assms show ?thesis by (simp add: changeProcessState_state)
qed

theorem changeProcessState_exact_witness:
  "slot_state (changeProcessState 1 READY ex_sched) 200 = READY \<and>
   slot_state (changeProcessState 1 READY ex_sched) 100 = RUNNING \<and>
   changeProcessState 7 READY ex_sched = ex_sched"
  using changeProcessState_exact [OF ring_ex_sched, of 1 READY]
    changeProcessState_exact [OF ring_ex_sched, of 7 READY] by (simp add: ex_sched_simps)

text \<open>
  \<open>getProcessById\<close> finds the current process, but not another process of the ring: it
  reads the memory behind the current slot, and answers with the null pointer unless that
  memory happens to look like a slot of the wanted process.
\<close>

lemma getProcessById_loop_none:
  "(\<And>j. i \<le> j \<Longrightarrow> j < i + left \<Longrightarrow> slot_pid s (current s + j * sizeof_ProcessSlot) \<noteq> pid) \<Longrightarrow>
   getProcessById_loop left i pid s = NULL"
  by (induction left arbitrary: i) auto

theorem getProcessById_finds_only_current:
  assumes r: "ring s xs" and x: "x \<in> set xs" "x \<noteq> current s"
    and mem: "\<And>j. 0 < j \<Longrightarrow> j < length xs \<Longrightarrow> slot_pid s (current s + j * sizeof_ProcessSlot) \<noteq> slot_pid s x"
  shows "getProcessById (slot_pid s x) s = NULL \<and>
    getProcessById (getCurrentPid s) s = getCurrentProcess s"
proof
  have cur: "current s \<in> set xs" using ringD(1,2) [OF r] nth_mem [of 0 xs] by simp
  have "slot_pid s (current s) \<noteq> slot_pid s x" using ring_pid_inj [OF r cur x(1)] x(2) by auto
  with mem show "getProcessById (slot_pid s x) s = NULL"
    unfolding getProcessById_def ringD(4) [OF r]
    by (intro getProcessById_loop_none) (metis add_0 gr0I mult_0 nat_int add_cancel_right_right)
  obtain l where "length xs = Suc l" using ringD(1) [OF r] by (cases xs) auto
  then have "nat (cardinal_processes s) = Suc l" using ringD(4) [OF r] by simp
  then show "getProcessById (getCurrentPid s) s = getCurrentProcess s"
    using ringD(3) [OF r] by (simp add: getProcessById_def getCurrentPid_def getCurrentProcess_def)
qed

theorem getProcessById_finds_only_current_witness:
  "getProcessById 2 ex_sched = NULL \<and> slot_pid ex_sched 300 = 2 \<and> getProcessById 0 ex_sched = 1000"
proof -
  have "slot_pid ex_sched (current ex_sched + j * sizeof_ProcessSlot) \<noteq> slot_pid ex_sched 300"
    if "0 < j" "j < length [100::nat, 200, 300]" for j
    using that by (auto simp: less_Suc_eq sizeof_ProcessSlot_def ex_sched_simps)
  then have "getProcessById (slot_pid ex_sched 300) ex_sched = NULL \<and>
      getProcessById (getCurrentPid ex_sched) ex_sched = getCurrentProcess ex_sched"
    by (intro getProcessById_finds_only_current [OF ring_ex_sched]) (auto simp: ex_sched_simps)
  then show ?thesis by (simp add: getCurrentPid_def getCurrentProcess_def ex_sched_simps)
qed

text \<open>
  The next thread of a process is found by turning over its thread array from the
  active one on; the search ends whenever the process has a thread at all, at the latest
  with the active thread itself.
\<close>

theorem nextThread_round_robin:
  assumes "thread_ok (procs s (getCurrentProcess s))"
    and "k < MAX_THREADS" "p_thread (procs s (getCurrentProcess s)) ! k \<noteq> NULL"
  shows "\<exists>d. 1 \<le> d \<and> d \<le> 10 \<and>
    nextThread s = Some ((p_activeThread (procs s (getCurrentProcess s)) + int d) mod 10) \<and>
    p_thread (procs s (getCurrentProcess s)) !
      nat ((p_activeThread (procs s (getCurrentProcess s)) + int d) mod 10) \<noteq> NULL \<and>
    (\<forall>e. 1 \<le> e \<and> e < d \<longrightarrow> p_thread (procs s (getCurrentProcess s)) !
      nat ((p_activeThread (procs s (getCurrentProcess s)) + int e) mod 10) = NULL)"
proof -
  let ?p = "procs s (getCurrentProcess s)"
  define a where "a = p_activeThread ?p"
  define Q where "Q = (\<lambda>e. p_thread ?p ! nat ((a + 1 + int e) mod 10) \<noteq> 0)"
  define e0 where "e0 = nat ((int k - a - 1) mod 10)"
  have "(a + 1 + int e0) mod 10 = int k"
  proof -
    have "(a + 1 + int e0) mod 10 = (a + 1 + (int k - a - 1) mod 10) mod 10" by (simp add: e0_def)
    also have "\<dots> = int k" using assms(2) by (simp add: mod_add_right_eq MAX_THREADS_def)
    finally show ?thesis .
  qed
  then have q0: "Q e0" "e0 \<le> 9" using assms(3) by (simp_all add: Q_def e0_def)
  define e where "e = (LEAST e. Q e)"
  have q: "Q e" "e \<le> e0" and qm: "\<And>e'. e' < e \<Longrightarrow> \<not> Q e'"
    using LeastI [of Q, OF q0(1)] Least_le [of Q, OF q0(1)] not_less_Least [of _ Q]
    unfolding e_def by blast+
  have "nextThread_loop ?p 1 = Some ((p_activeThread ?p + 1 + int e) mod 10)"
  proof (rule nextThread_loop_found [OF assms(1)])
    show "p_thread ?p ! nat ((p_activeThread ?p + 1 + int e) mod 10) \<noteq> 0"
      using q(1) unfolding Q_def a_def .
    show "p_thread ?p ! nat ((p_activeThread ?p + 1 + int e') mod 10) = 0" if "e' < e" for e'
      using qm [OF that] unfolding Q_def a_def by blast
  qed simp
  then have "nextThread s = Some ((a + 1 + int e) mod 10)" by (simp add: nextThread_def a_def)
  moreover have "p_thread ?p ! nat ((a + int e') mod 10) = NULL" if "1 \<le> e'" "e' < Suc e" for e'
    using qm [of "e' - 1"] that by (simp add: Q_def)
  ultimately show ?thesis
    using q(1,2) q0(2) unfolding a_def [symmetric]
    by (intro exI [of _ "Suc e"]) (auto simp: Q_def algebra_simps)
qed

theorem nextThread_round_robin_witness: "nextThread ex_sched = Some 0"
proof -
  have ok: "thread_ok (procs ex_sched (getCurrentProcess ex_sched))"
    by (simp add: thread_ok_def MAX_THREADS_def getCurrentProcess_def ex_sched_simps)
  obtain d where d: "1 \<le> d" "d \<le> 10" "nextThread ex_sched = Some (int d mod 10)"
    "p_thread (ex_proc 0 RUNNING 10) ! nat (int d mod 10) \<noteq> NULL"
    using nextThread_round_robin [OF ok, of 0]
    by (auto simp: MAX_THREADS_def getCurrentProcess_def ex_sched_simps)
  then have "d = 10" by (auto simp: ex_proc_def numeral_eq_Suc le_Suc_eq)
  with d show ?thesis by simp
qed

end
