(* ===== verification/Process.thy ===== *)
theory Process
  imports Scheduler
begin

text \<open>
  Processes and threads from creation to removal: \<open>Kernel/process.c\<close>, \<open>Kernel/threads.c\<close>
  and the functions of \<open>Kernel/scheduler.c\<close> that create and remove processes. A process and
  its threads live in pages of the allocator; a failed allocation is a null pointer that the
  code goes on to use. The lemmas show what a created process looks like, how the ring
  changes when processes come and go, and which pages are given back.
\<close>

section \<open>Constants\<close>

definition sizeof_StackFrame :: nat where "sizeof_StackFrame = 184"
definition sizeof_Thread :: nat where "sizeof_Thread = 24"
definition sizeof_Process :: nat where "sizeof_Process = 248"
definition sizeof_Pipe :: nat where "sizeof_Pipe = 64"
definition sizeof_int :: nat where "sizeof_int = 4"
definition offset_dataStart :: nat where "offset_dataStart = 28"

definition MAX_PAGES_PER_PROCESS :: int where "MAX_PAGES_PER_PROCESS = 10"
definition PIPE_LENGTH :: nat where "PIPE_LENGTH = 10"
definition MAX_PROCESS_PIPES :: nat where "MAX_PROCESS_PIPES = 3"
definition MAX_LISTENERS_IPC :: nat where "MAX_LISTENERS_IPC = 2"

section \<open>Threads\<close>

text \<open>The frame from which a new thread is started, written below the top of its stack.\<close>

definition fillStackFrame :: "addr \<Rightarrow> addr \<Rightarrow> addr \<Rightarrow> 'a sched_scheme \<Rightarrow> addr \<times> 'a sched_scheme" where
  "fillStackFrame entryPoint userStack args s =
     (let frame = ptr_sub userStack (2 * sizeof_StackFrame);
          f = \<lparr>f_gs = 0x001, f_fs = 0x002, f_r15 = 0x003, f_r14 = 0x004, f_r13 = 0x005, f_r12 = 0x006,
               f_r11 = 0x007, f_r10 = 0x008, f_r9 = 0x009, f_r8 = 0x00A, f_rsi = entryPoint,
               f_rdi = entryPoint, f_rbp = 0x00D, f_rdx = args, f_rcx = args, f_rbx = 0x010,
               f_rax = 0x011, f_rip = callProcess_addr s, f_cs = 0x008, f_eflags = 0x202,
               f_rsp = frame + 22 * 8, f_ss = 0x000,
               f_base = ptr_sub userStack (51 * sizeof_StackFrame)\<rparr>
      in (frame, s\<lparr>frames := (frames s)(frame := f)\<rparr>))"

definition initializeThreadArray :: "nat \<Rightarrow> addr list" where
  "initializeThreadArray dim = replicate dim NULL"

definition findNextSpot :: "addr list \<Rightarrow> nat \<Rightarrow> int \<times> addr list" where
  "findNextSpot t dim =
     (case first_index (\<lambda>x. x = NULL) (take dim t) of
        None \<Rightarrow> (- 1, t)
      | Some i \<Rightarrow> (int i, t[i := 1]))"

definition upd_proc :: "addr \<Rightarrow> (Process \<Rightarrow> Process) \<Rightarrow> 'a sched_scheme \<Rightarrow> 'a sched_scheme" where
  "upd_proc p f s = s\<lparr>procs := (procs s)(p := f (procs s p))\<rparr>"

definition alloc_st :: "nat \<Rightarrow> 'a sched_scheme \<Rightarrow> (addr \<times> 'a sched_scheme) option" where
  "alloc_st pages_n s = map_option (\<lambda>(a, b). (a, s\<lparr>buddyArray := b\<rparr>)) (allocPage (buddyArray s) pages_n)"

definition createThread :: "addr \<Rightarrow> addr \<Rightarrow> addr \<Rightarrow> 'a sched_scheme \<Rightarrow> (int \<times> 'a sched_scheme) option" where
  "createThread entryPoint args p s =
     (case alloc_st (NUMBER_OF_PAGES_TO_ALLOC sizeof_Thread) s of None \<Rightarrow> None | Some (t, s1) \<Rightarrow>
      case alloc_st 2 s1 of None \<Rightarrow> None | Some (page1, s2) \<Rightarrow>
      case alloc_st 2 s2 of None \<Rightarrow> None | Some (page2, s3) \<Rightarrow>
        let userStack = page1 + 2 * PAGE_SIZE;
            kernelStack = page2 + 2 * PAGE_SIZE;
            (stack, s4) = fillStackFrame entryPoint userStack args s3;
            (index, ts) = findNextSpot (p_thread (procs s4 p)) 3
        in if index = - 1 then Some (- 1, s4)
           else Some (0, upd_proc p (\<lambda>q. q\<lparr>p_numberOfThreads := p_numberOfThreads q + 1,
                             p_thread := ts[nat index := t]\<rparr>)
                  (s4\<lparr>thrs := (thrs s4)(t := \<lparr>t_userStack = stack, t_kernelStack = kernelStack,
                       t_entryPoint = entryPoint\<rparr>)\<rparr>)))"

definition thread_create :: "addr \<Rightarrow> addr \<Rightarrow> 'a sched_scheme \<Rightarrow> 'a sched_scheme option" where
  "thread_create entryPoint args s =
     map_option snd (createThread entryPoint args (getCurrentProcess s) s)"

text \<open>Releasing pages in order; \<open>None\<close> when one of them is outside the managed memory.\<close>

fun dealloc_all :: "addr list \<Rightarrow> 'a sched_scheme \<Rightarrow> 'a sched_scheme option" where
  "dealloc_all [] s = Some s"
| "dealloc_all (a # as) s =
     (case deallocPage a (buddyArray s) of
        None \<Rightarrow> None
      | Some (_, b) \<Rightarrow> dealloc_all as (s\<lparr>buddyArray := b\<rparr>))"

definition freeThreadPages :: "addr \<Rightarrow> 'a sched_scheme \<Rightarrow> 'a sched_scheme option" where
  "freeThreadPages t s = dealloc_all [t_userStack (thrs s t), t_kernelStack (thrs s t), t] s"

section \<open>Processes\<close>

definition initializePipeFields :: "addr \<Rightarrow> addr \<Rightarrow> 'a sched_scheme \<Rightarrow> 'a sched_scheme" where
  "initializePipeFields p infoPage =
     upd_proc p (\<lambda>q.
       let q1 = q\<lparr>p_pipes := infoPage, p_pipesOpened := 0\<rparr>;
           q2 = q1\<lparr>p_pipesStruct := p_pipes q1 + MAX_PROCESS_PIPES * PIPE_LENGTH\<rparr>;
           q3 = q2\<lparr>p_pipePids := p_pipesStruct q2 + MAX_PROCESS_PIPES * sizeof_Pipe\<rparr>;
           q4 = q3\<lparr>p_blocked := p_pipePids q3 + MAX_PROCESS_PIPES * MAX_LISTENERS_IPC * sizeof_int\<rparr>
       in q4\<lparr>p_occupiedPosition := p_blocked q4 + MAX_LISTENERS_IPC * MAX_PROCESS_PIPES * sizeof_int\<rparr>)"

fun initiatePipesForProcess_loop :: "nat \<Rightarrow> addr \<Rightarrow> 'a sched_scheme \<Rightarrow> 'a sched_scheme" where
  "initiatePipesForProcess_loop 0 a s = s"
| "initiatePipesForProcess_loop (Suc left) a s =
     initiatePipesForProcess_loop left (a + sizeof_int) (s\<lparr>cmem := st32 a 0 (cmem s)\<rparr>)"

definition initiatePipesForProcess :: "addr \<Rightarrow> 'a sched_scheme \<Rightarrow> 'a sched_scheme" where
  "initiatePipesForProcess occupiedPosition s =
     initiatePipesForProcess_loop MAX_PROCESS_PIPES occupiedPosition s"

definition getProcess :: "addr \<Rightarrow> addr \<Rightarrow> addr \<Rightarrow> 'a sched_scheme \<Rightarrow> (addr \<times> 'a sched_scheme) option" where
  "getProcess entryPoint description args s =
     (case alloc_st (NUMBER_OF_PAGES_TO_ALLOC sizeof_Process) s of None \<Rightarrow> None | Some (p, s1) \<Rightarrow>
        let infoPage = p + sizeof_Process;
            s2 = upd_proc p (\<lambda>q. q\<lparr>p_activeThread := 0, p_numberOfThreads := 0,
                   p_thread := initializeThreadArray MAX_THREADS\<rparr>) s1
        in case createThread entryPoint args p s2 of None \<Rightarrow> None | Some (_, s3) \<Rightarrow>
             let s4 = upd_proc p (\<lambda>q. q\<lparr>p_pid := next_pid s3, p_state := READY,
                        p_description := description, p_heap := NULL, p_pagesIndex := 0\<rparr>)
                        (s3\<lparr>next_pid := next_pid s3 + 1\<rparr>);
                 s5 = initializePipeFields p infoPage s4
             in Some (p, initiatePipesForProcess (p_occupiedPosition (procs s5 p)) s5))"

definition createProcess :: "addr \<Rightarrow> addr \<Rightarrow> addr \<Rightarrow> 'a sched_scheme \<Rightarrow> (int \<times> 'a sched_scheme) option" where
  "createProcess entryPoint description args s =
     (case getProcess entryPoint description args s of None \<Rightarrow> None | Some (p, s1) \<Rightarrow>
      case addProcess p s1 of None \<Rightarrow> None | Some s2 \<Rightarrow>
        let s3 = s2\<lparr>cardinal_processes := cardinal_processes s2 + 1\<rparr>
        in Some (p_pid (procs s3 p), s3))"

definition addPagesToProcess :: "addr \<Rightarrow> int \<Rightarrow> 'a sched_scheme \<Rightarrow> 'a sched_scheme" where
  "addPagesToProcess pageBase pid s =
     (let p = getProcessById pid s in
      if p = NULL \<or> p_pagesIndex (procs s p) \<ge> MAX_PAGES_PER_PROCESS then s
      else upd_proc p (\<lambda>q. q\<lparr>p_pages := (p_pages q)[nat (p_pagesIndex q) := pageBase],
                              p_pagesIndex := p_pagesIndex q + 1\<rparr>) s)"

definition initiatePagesForProcess :: "nat \<Rightarrow> addr list" where
  "initiatePagesForProcess pages_length = replicate pages_length NULL"

text \<open>
  \<open>freeProcessPages\<close> releases the page of the process, the stacks of its first
  \<open>numberOfThreads\<close> threads, the page behind its heap pointer, and its extra pages.
\<close>

definition freeProcessPages :: "int \<Rightarrow> 'a sched_scheme \<Rightarrow> 'a sched_scheme option" where
  "freeProcessPages pid s =
     (let p = getProcessById pid s; q = procs s p in
      if int (length (p_thread q)) < p_numberOfThreads q \<or> int (length (p_pages q)) < p_pagesIndex q then None
      else dealloc_all
        (p # concat (map (\<lambda>t. [t_userStack (thrs s t), t_kernelStack (thrs s t)])
                (take (nat (p_numberOfThreads q)) (p_thread q)))
           @ (p_heap q + offset_dataStart) # take (nat (p_pagesIndex q)) (p_pages q)) s)"

text \<open>\<open>_yield\<close> as the last thing a call does before it is resumed.\<close>

definition yield_exec :: "'a sched_scheme \<Rightarrow> ('a sched_scheme, unit) exec" where
  "yield_exec s =
     (case yield_step s of None \<Rightarrow> Fault
      | Some s1 \<Rightarrow> if current s = NULL then Done s1 () else Yielded s1 (\<lambda>s2. Done s2 ()))"

fun removeProcess_loop :: "nat \<Rightarrow> addr \<Rightarrow> addr \<Rightarrow> int \<Rightarrow> int \<Rightarrow> 'a sched_scheme \<Rightarrow> addr \<times> addr \<times> int" where
  "removeProcess_loop 0 prevSlot slotToRemove i pid s = (prevSlot, slotToRemove, i)"
| "removeProcess_loop (Suc left) prevSlot slotToRemove i pid s =
     (if slot_pid s slotToRemove \<noteq> pid
      then removeProcess_loop left slotToRemove (slot_next (slots s slotToRemove)) (i + 1) pid s
      else (prevSlot, slotToRemove, i))"

definition removeProcess :: "int \<Rightarrow> 'a sched_scheme \<Rightarrow> ('a sched_scheme, unit) exec" where
  "removeProcess pid s =
     (if pid = 0 then yield_exec s
      else if current s = NULL then Done s ()
      else if eqProcess (slot_process (slots s (current s)))
                (slot_process (slots s (slot_next (slots s (current s))))) s
              \<and> slot_pid s (current s) = pid then
        (if pid = 0 then Done s ()
         else (case freeProcessPages pid s of None \<Rightarrow> Fault
               | Some s1 \<Rightarrow> Done (s1\<lparr>current := NULL, cardinal_processes := cardinal_processes s1 - 1\<rparr>) ()))
      else
        (case removeProcess_loop (nat (cardinal_processes s)) (current s)
                (slot_next (slots s (current s))) 0 pid s of
           (prevSlot, slotToRemove, i) \<Rightarrow>
             if i = cardinal_processes s then Done s ()
             else
               let s1 = s\<lparr>slots := (slots s)(prevSlot := (slots s prevSlot)\<lparr>slot_next := slot_next (slots s slotToRemove)\<rparr>),
                          cardinal_processes := cardinal_processes s - 1\<rparr>
               in if eqProcess (slot_process (slots s1 slotToRemove)) (slot_process (slots s1 (current s1))) s1
                  then yield_exec s1 else Done s1 ()))"

text \<open>
  The walk of \<open>killAllExceptCurrent\<close>, one unit of fuel per slot it visits; the ring has
  \<open>cardinal_processes\<close> slots, which is enough.
\<close>

fun killAllExceptCurrent_loop :: "nat \<Rightarrow> addr \<Rightarrow> int \<Rightarrow> 'a sched_scheme \<Rightarrow> ('a sched_scheme, unit) exec" where
  "killAllExceptCurrent_loop fuel aux pid s =
     (if aux = current s then Done s ()
      else case fuel of
        0 \<Rightarrow> Fault
      | Suc fuel' \<Rightarrow>
          bind_exec
            (let currPid = slot_pid s aux in
             if currPid \<noteq> pid \<and> currPid \<noteq> INIT_PID then removeProcess currPid s else Done s ())
            (\<lambda>s1 _. killAllExceptCurrent_loop fuel' (slot_next (slots s1 aux)) pid s1))"

declare killAllExceptCurrent_loop.simps [simp del]

definition killAllExceptCurrent :: "'a sched_scheme \<Rightarrow> ('a sched_scheme, unit) exec" where
  "killAllExceptCurrent s =
     killAllExceptCurrent_loop (nat (cardinal_processes s)) (slot_next (slots s (current s))) (getCurrentPid s) s"

definition terminateThread :: "'a sched_scheme \<Rightarrow> ('a sched_scheme, unit) exec" where
  "terminateThread s =
     (let p = getCurrentProcess s; q = procs s p in
      if p_activeThread q = 0 then removeProcess (p_pid q) s
      else
        (case thread_at q (p_activeThread q) of None \<Rightarrow> Fault | Some t \<Rightarrow>
         case freeThreadPages t s of None \<Rightarrow> Fault | Some s1 \<Rightarrow>
           Done (upd_proc p (\<lambda>q. q\<lparr>p_thread := (p_thread q)[nat (p_activeThread q) := NULL],
                                    p_numberOfThreads := p_numberOfThreads q - 1\<rparr>) s1) ()))"

text \<open>
  \<open>callProcess\<close> is where a new thread starts: the program at its entry point runs (the
  argument \<open>run_entry\<close>), then the thread ends and gives up the processor.
\<close>

definition callProcess ::
  "(addr \<Rightarrow> addr \<Rightarrow> 'a sched_scheme \<Rightarrow> ('a sched_scheme, unit) exec) \<Rightarrow>
   addr \<Rightarrow> addr \<Rightarrow> addr \<Rightarrow> addr \<Rightarrow> 'a sched_scheme \<Rightarrow> ('a sched_scheme, unit) exec" where
  "callProcess run_entry entryPoint entryPoint2 args args2 s =
     bind_exec (run_entry entryPoint2 args2 s)
       (\<lambda>s1 _. bind_exec (terminateThread s1) (\<lambda>s2 _. yield_exec s2))"

section \<open>Unlinking a slot\<close>

text \<open>The links of a ring in one equation, and what removing an element does to it.\<close>

lemma ring_links: "(\<forall>i < length xs. slot_next (slots s (xs ! i)) = xs ! (Suc i mod length xs)) \<longleftrightarrow>
    map (step_next s) xs = rotate1 xs"
  by (simp add: list_eq_iff_nth_eq nth_rotate1)

lemma ring_alt:
  "ring s xs \<longleftrightarrow> xs \<noteq> [] \<and> hd xs = current s \<and> 0 \<notin> set xs \<and>
     cardinal_processes s = int (length xs) \<and> map (step_next s) xs = rotate1 xs \<and>
     distinct xs \<and> distinct (map (\<lambda>x. slot_process (slots s x)) xs) \<and> distinct (map (slot_pid s) xs)"
  by (simp add: ring_def ring_links)

definition unlink :: "addr \<Rightarrow> addr \<Rightarrow> 'a sched_scheme \<Rightarrow> 'a sched_scheme" where
  "unlink prev y s = s\<lparr>slots := (slots s)(prev := (slots s prev)\<lparr>slot_next := slot_next (slots s y)\<rparr>),
     cardinal_processes := cardinal_processes s - 1\<rparr>"

lemma unlink_frame [simp]:
  "current (unlink p y s) = current s" "procs (unlink p y s) = procs s" "thrs (unlink p y s) = thrs s"
  "buddyArray (unlink p y s) = buddyArray s" "rsp (unlink p y s) = rsp s"
  "slot_process (slots (unlink p y s) x) = slot_process (slots s x)"
  "slot_proc (unlink p y s) x = slot_proc s x"
  "step_next (unlink p y s) x = (if x = p then step_next s y else step_next s x)"
  "cardinal_processes (unlink p y s) = cardinal_processes s - 1"
  "sched.more (unlink p y s) = sched.more s"
  by (simp_all add: unlink_def slot_proc_def)

lemma rotate1_append_one: "rotate1 (as @ b # bs) = tl (as @ [b]) @ bs @ [hd (as @ [b])]"
  by (cases as) auto

lemma unlink_links:
  assumes l: "map (step_next s) (pre @ p # y # suf) = rotate1 (pre @ p # y # suf)"
    and d: "distinct (pre @ p # y # suf)"
  shows "map (step_next (unlink p y s)) (pre @ p # suf) = rotate1 (pre @ p # suf)"
proof -
  have "map (step_next s) (pre @ [p]) @ map (step_next s) (y # suf) =
      (tl (pre @ [p]) @ [y]) @ suf @ [hd (pre @ [p])]"
    using l by (simp add: rotate1_append_one)
  then have e: "map (step_next s) (pre @ [p]) = tl (pre @ [p]) @ [y]"
    "map (step_next s) (y # suf) = suf @ [hd (pre @ [p])]"
    by (subst (asm) append_eq_append_conv; simp)+
  have m: "map (step_next (unlink p y s)) pre = map (step_next s) pre"
    "map (step_next (unlink p y s)) suf = map (step_next s) suf"
    using d by (auto intro!: map_cong)
  have pre: "map (step_next s) pre = tl (pre @ [p])" using e(1) by simp
  have "map (step_next (unlink p y s)) (pre @ p # suf) = tl (pre @ [p]) @ map (step_next s) (y # suf)"
    unfolding map_append list.map m unfolding pre by simp
  then show ?thesis unfolding e(2) rotate1_append_one .
qed

lemma ring_unlink:
  assumes "ring s (pre @ p # y # suf)"
  shows "ring (unlink p y s) (pre @ p # suf)"
proof -
  have h: "hd (pre @ p # y # suf) = hd (pre @ p # suf)" by (cases pre) auto
  show ?thesis
    using assms unlink_links [of s pre p y suf] unfolding ring_alt h by auto
qed

lemma distinct_map_tl: "distinct (map f (x # xs)) \<Longrightarrow> distinct (map f xs)"
  by simp

text \<open>Removing the slot at the front leaves a ring of the others, entered at the second.\<close>

lemma ring_unlink_front:
  assumes r: "ring s (x # xs)" and ne: "xs \<noteq> []"
  shows "ring ((unlink (last xs) x s)\<lparr>current := step_next s x\<rparr>) xs" "step_next s x = hd xs"
proof -
  obtain ys z where xs: "xs = ys @ [z]" using ne by (cases xs rule: rev_cases) auto
  have l: "map (step_next s) (x # xs) = xs @ [x]" using r unfolding ring_alt by (metis rotate1.simps(2))
  then show h: "step_next s x = hd xs" using ne by (cases xs) auto
  have "map (step_next s) (ys @ [z]) = tl (ys @ [z]) @ [x]"
    using l unfolding xs by (cases ys) auto
  then have tl: "map (step_next s) ys = tl (ys @ [z])" by simp
  have d: "z \<notin> set ys" using r by (simp add: ring_alt xs)
  have "map (step_next (unlink z x s)) ys = map (step_next s) ys" using d by (auto intro!: map_cong)
  then have "map (step_next (unlink z x s)) (ys @ [z]) = tl (ys @ [z]) @ [hd (ys @ [z])]"
    unfolding map_append list.map tl using h by (simp add: xs)
  then have "map (step_next (unlink z x s)) (ys @ [z]) = rotate1 (ys @ [z])" by (cases ys) auto
  moreover have "slots ((unlink z x s)\<lparr>current := c\<rparr>) = slots (unlink z x s)"
    "slot_proc ((unlink z x s)\<lparr>current := c\<rparr>) = slot_proc (unlink z x s)" for c
    by (simp_all add: fun_eq_iff slot_proc_def)
  moreover have "distinct (map (\<lambda>x. slot_process (slots s x)) (ys @ [z]))" "distinct (map (slot_pid s) (ys @ [z]))"
    using ringD(7,8) [OF r] distinct_map_tl unfolding xs by metis+
  ultimately show "ring ((unlink (last xs) x s)\<lparr>current := step_next s x\<rparr>) xs"
    using r h unfolding ring_alt by (simp add: xs del: unlink_frame(8) map_append list.map(2))
qed

subsection \<open>The search of removeProcess\<close>

lemma removeProcess_loop_found:
  assumes "map (step_next s) W = tl W @ [z]" "k < length W" "k \<le> left" "slot_pid s (W ! k) = pid"
    and "\<And>m. m < k \<Longrightarrow> slot_pid s (W ! m) \<noteq> pid"
  shows "removeProcess_loop left prev (hd W) i pid s = ((prev # W) ! k, W ! k, i + int k)"
  using assms
proof (induction k arbitrary: W left prev i)
  case 0
  then have "hd W = W ! 0" by (cases W) auto
  with 0 show ?case by (cases left) auto
next
  case (Suc k)
  obtain w v W' where W: "W = w # v # W'" using Suc.prems(2) by (cases W; cases "tl W") auto
  obtain l where l: "left = Suc l" using Suc.prems(3) by (cases left) auto
  have "removeProcess_loop l w (hd (v # W')) (i + 1) pid s = ((w # v # W') ! k, (v # W') ! k, i + 1 + int k)"
    using Suc.prems(1-4) Suc.prems(5) [of "Suc _"] by (intro Suc.IH) (auto simp: W l)
  with Suc.prems(5) [of 0] Suc.prems(1) show ?case by (simp add: W l)
qed


section \<open>Removing processes\<close>

lemma removeProcess_unlink:
  assumes r: "ring s xs" and pid: "pid \<noteq> 0" and y: "y \<in> set (tl xs)" "slot_pid s y = pid"
  shows "\<exists>pre p suf. xs = pre @ p # y # suf \<and> removeProcess pid s = Done (unlink p y s) ()"
proof -
  obtain x ys where xs: "xs = x # ys" using ringD(1) [OF r] by (cases xs) auto
  have cur: "current s = x" using r by (simp add: ring_alt xs)
  obtain k where k: "k < length ys" "ys ! k = y" using y(1) by (auto simp: xs in_set_conv_nth)
  define W where "W = ys @ [x]"
  have links: "map (step_next s) (x # ys) = ys @ [x]" using r unfolding ring_alt xs by (metis rotate1.simps(2))
  have nx: "step_next s x = hd W" using links by (cases ys) (auto simp: W_def)
  have wl: "map (step_next s) W = tl W @ [hd W]" using links nx by (cases ys) (auto simp: W_def)
  have wk: "W ! k = y" "k < length W" using k by (simp_all add: W_def nth_append)
  have dis: "distinct W" "set W = set xs" using ringD(6) [OF r] by (auto simp: W_def xs)
  have first: "slot_pid s (W ! m) \<noteq> pid" if "m < k" for m
  proof
    assume "slot_pid s (W ! m) = pid"
    then have "W ! m = W ! k"
      using ring_pid_inj [OF r, of "W ! m" "W ! k"] y(2) wk dis that by (metis nth_mem order_less_trans)
    with dis(1) wk(2) that show False by (simp add: nth_eq_iff_index_eq)
  qed
  have cp: "cardinal_processes s = int (length W)" using ringD(4) [OF r] by (simp add: W_def xs)
  have loop: "removeProcess_loop (nat (cardinal_processes s)) x (hd W) 0 pid s = ((x # W) ! k, y, int k)"
    using removeProcess_loop_found [OF wl wk(2), of "length W" pid x 0] wk y(2) first cp by simp
  have pk: "(x # W) ! k = xs ! k" using k by (cases k) (auto simp: W_def xs nth_append)
  have yx: "y \<noteq> x" "y \<in> set xs" "x \<in> set xs" using y(1) ringD(6) [OF r] by (auto simp: xs)
  have pxy: "slot_pid s x \<noteq> pid" using ring_pid_inj [OF r yx(3,2)] yx(1) y(2) by auto
  have split: "xs = take k xs @ xs ! k # y # drop (Suc (Suc k)) xs"
  proof -
    have "xs = take k xs @ xs ! k # drop (Suc k) xs" using k by (intro id_take_nth_drop) (simp add: xs)
    also have "drop (Suc k) xs = y # drop (Suc (Suc k)) xs"
      using k by (simp add: xs Cons_nth_drop_Suc [symmetric])
    finally show ?thesis .
  qed
  have ik: "int k \<noteq> cardinal_processes s" using cp k by (simp add: W_def)
  have u: "s\<lparr>slots := (slots s)(xs ! k := (slots s (xs ! k))\<lparr>slot_next := slot_next (slots s y)\<rparr>),
      cardinal_processes := cardinal_processes s - 1\<rparr> = unlink (xs ! k) y s" by (simp add: unlink_def)
  have "\<not> eqProcess (slot_process (slots s y)) (slot_process (slots s x)) s"
    using pxy y(2) by (simp add: eqProcess_def slot_proc_def)
  then have "removeProcess pid s = Done (unlink (xs ! k) y s) ()"
    using pid ringD(3) [OF r] loop pxy ik
    by (simp add: removeProcess_def cur nx pk u Let_def eqProcess_def)
  with split show ?thesis by blast
qed



lemma ring_schedule_loop:
  assumes r: "ring s xs" and n: "first_index (\<lambda>x. slot_state s x = READY) xs = Some n"
  shows "schedule_loop s = Some (s\<lparr>current := xs ! n\<rparr>)"
proof -
  have it: "(step_next s ^^ m) (current s) = xs ! m" if "m \<le> n" for m
    using ring_iterate [OF r, of m] n that by (simp add: first_index_Some)
  then show ?thesis
    using schedule_loop_Some [of s n] n by (simp add: first_index_Some)
qed

lemma removeProcess_current_unlink:
  assumes r: "ring s (x # xs)" and ne: "xs \<noteq> []" and pid: "slot_pid s x \<noteq> 0"
  shows "removeProcess (slot_pid s x) s = yield_exec (unlink (last xs) x s)"
proof -
  define W where "W = xs @ [x]"
  define k where "k = length xs"
  have cur: "current s = x" "x \<noteq> 0" using r by (auto simp: ring_alt)
  have links: "map (step_next s) (x # xs) = xs @ [x]" using r unfolding ring_alt by (metis rotate1.simps(2))
  have nx: "step_next s x = hd xs" "hd xs = hd W" using links ne by (cases xs; simp add: W_def)+
  have wl: "map (step_next s) W = tl W @ [hd W]" using links nx ne by (cases xs) (auto simp: W_def)
  have wk: "W ! k = x" "k < length W" by (simp_all add: W_def k_def)
  have pids: "slot_pid s y \<noteq> slot_pid s x" if "y \<in> set xs" for y
    using ring_pid_inj [OF r, of y x] that ringD(6) [OF r] by auto
  have first: "slot_pid s (W ! m) \<noteq> slot_pid s x" if "m < k" for m
    using pids [of "xs ! m"] that by (simp add: W_def k_def nth_append)
  have cp: "cardinal_processes s = int (length W)" using ringD(4) [OF r] by (simp add: W_def)
  have "(x # W) ! k = last xs"
  proof (cases k)
    case 0
    then show ?thesis using ne by (simp add: k_def)
  next
    case (Suc j)
    then have "j = length xs - 1" "j < length xs" by (simp_all add: k_def)
    then show ?thesis using ne Suc by (simp add: W_def nth_append last_conv_nth)
  qed
  with removeProcess_loop_found [OF wl wk(2), of "length W" "slot_pid s x" x 0] wk first cp
  have loop: "removeProcess_loop (nat (cardinal_processes s)) x (hd xs) 0 (slot_pid s x) s = (last xs, x, int k)"
    by (simp add: nx)
  have ik: "int k \<noteq> cardinal_processes s" using cp by (simp add: W_def k_def)
  have u: "s\<lparr>slots := (slots s)(last xs := (slots s (last xs))\<lparr>slot_next := slot_next (slots s x)\<rparr>),
      cardinal_processes := cardinal_processes s - 1\<rparr> = unlink (last xs) x s" by (simp add: unlink_def)
  have "\<not> eqProcess (slot_process (slots s x)) (slot_process (slots s (hd xs))) s"
    using pids [of "hd xs"] ne by (simp add: eqProcess_def slot_proc_def)
  then show ?thesis
    using pid loop ik u [unfolded nx(1)] by (simp add: removeProcess_def cur nx(1) Let_def eqProcess_def)
qed

lemma set_state_current: "(set_state p st s)\<lparr>current := c\<rparr> = set_state p st (s\<lparr>current := c\<rparr>)"
  by (simp add: set_state_def)

text \<open>The turn of the scheduler after the front of the ring was unlinked.\<close>

lemma schedule_unlinked:
  assumes r: "ring s (x # xs)" and y: "y \<in> set xs" "slot_state s y = READY"
  shows "\<exists>t ys. schedule (unlink (last xs) x s) = Some t \<and> ring t ys \<and> set ys = set xs \<and>
    slot_state t (current t) = RUNNING \<and> thrs t = thrs s \<and> buddyArray t = buddyArray s \<and>
    (\<forall>z. p_thread (slot_proc t z) = p_thread (slot_proc s z) \<and>
         p_activeThread (slot_proc t z) = p_activeThread (slot_proc s z))"
proof -
  have ne: "xs \<noteq> []" using y(1) by auto
  let ?u = "unlink (last xs) x s"
  define v where "v = (if slot_state ?u x = RUNNING then set_state (slot_process (slots ?u x)) READY ?u else ?u)"
  define w where "w = v\<lparr>current := step_next s x\<rparr>"
  have cur: "current s = x" using r by (simp add: ring_alt)
  have lx: "x \<noteq> last xs" using ringD(6) [OF r] ne by auto
  have rw: "ring w xs"
    using ring_unlink_front(1) [OF r ne] by (simp add: w_def v_def set_state_current)
  have st: "slot_state w z = slot_state s z" if "z \<in> set xs" for z
  proof -
    have "slot_process (slots s z) \<noteq> slot_process (slots s x)"
      using ring_process_inj [OF r, of z x] that ringD(6) [OF r] by auto
    then show ?thesis by (simp add: w_def v_def slot_proc_def set_state_def)
  qed
  obtain n where n: "first_index (\<lambda>x. slot_state w x = READY) xs = Some n"
    using st [OF y(1)] y by (cases "first_index (\<lambda>x. slot_state w x = READY) xs") (auto simp: first_index_None)
  then have nl: "n < length xs" by (simp add: first_index_Some)
  define t where "t = set_state (slot_process (slots s (xs ! n))) RUNNING (w\<lparr>current := xs ! n\<rparr>)"
  have sl: "slot_process (slots w z) = slot_process (slots s z)" for z by (simp add: w_def v_def)
  have vw: "v\<lparr>current := slot_next (slots v (current v))\<rparr> = w" using lx cur by (simp add: w_def v_def)
  have "schedule ?u = map_option (\<lambda>s3. set_state (slot_process (slots s3 (current s3))) RUNNING s3)
      (schedule_loop (v\<lparr>current := slot_next (slots v (current v))\<rparr>))"
    unfolding schedule_def Let_def v_def by (simp only: unlink_frame(1) cur)
  then have "schedule ?u = Some t"
    unfolding vw ring_schedule_loop [OF rw n] by (simp add: t_def sl)
  moreover have "ring t (rotate n xs)" using ring_rotate [OF rw nl] by (simp add: t_def)
  moreover have "slot_state t (current t) = RUNNING" by (simp add: t_def set_state_state sl)
  moreover have "thrs t = thrs s" "buddyArray t = buddyArray s" by (simp_all add: t_def w_def v_def)
  moreover have "p_thread (slot_proc t z) = p_thread (slot_proc s z)"
    "p_activeThread (slot_proc t z) = p_activeThread (slot_proc s z)" for z
    by (simp_all add: t_def w_def v_def slot_proc_def set_state_def)
  ultimately show ?thesis by (intro exI [of _ t] exI [of _ "rotate n xs"]) simp
qed

lemma unlink_set_userStack: "set_userStack t v (unlink p y s) = unlink p y (set_userStack t v s)"
  by (simp add: set_userStack_def unlink_def)

lemma removeProcess_current:
  assumes r: "ring s (x # xs)" and pid: "slot_pid s x \<noteq> 0"
    and ok: "\<forall>z \<in> set (x # xs). thread_ok (slot_proc s z)" and y: "y \<in> set xs" "slot_state s y = READY"
  shows "\<exists>t k ys. removeProcess (slot_pid s x) s = Yielded t k \<and> ring t ys \<and> set ys = set xs \<and>
    slot_state t (current t) = RUNNING \<and> buddyArray t = buddyArray s"
proof -
  have ne: "xs \<noteq> []" using y(1) by auto
  have cur: "current s = x" "x \<noteq> 0" using r by (auto simp: ring_alt)
  let ?a = "active_thread s x"
  let ?s = "set_userStack ?a (rsp s) s"
  have "ring ?s (x # xs)" using r by simp
  then obtain t ys where t: "schedule (unlink (last xs) x ?s) = Some t" "ring t ys" "set ys = set xs"
    "slot_state t (current t) = RUNNING" "buddyArray t = buddyArray s"
    "\<And>z. p_thread (slot_proc t z) = p_thread (slot_proc s z)"
    "\<And>z. p_activeThread (slot_proc t z) = p_activeThread (slot_proc s z)"
    using schedule_unlinked [of ?s x xs y] y by auto
  have "current t \<in> set xs" using ringD(1,2) [OF t(2)] t(3) by (metis length_greater_0_conv nth_mem)
  then have "thread_ok (slot_proc t (current t))" using ok t(6,7) by (simp add: thread_ok_def)
  then obtain u where u: "getCurrentUserStack t = Some u"
    by (simp add: getCurrentUserStack_def thread_at_active)
  have "thread_at (slot_proc s x) (p_activeThread (slot_proc s x)) = Some ?a"
    using ok by (simp add: thread_at_active)
  then have "yield_step (unlink (last xs) x s) = Some (t\<lparr>rsp := u\<rparr>)"
    using t(1) u cur by (simp add: yield_step_def next_process_def unlink_set_userStack)
  then have "removeProcess (slot_pid s x) s = Yielded (t\<lparr>rsp := u\<rparr>) (\<lambda>s2. Done s2 ())"
    using cur by (simp add: removeProcess_current_unlink [OF r ne pid] yield_exec_def)
  moreover have "ring (t\<lparr>rsp := u\<rparr>) ys" "slot_state (t\<lparr>rsp := u\<rparr>) (current t) = RUNNING"
    using t(2,4) by (simp_all add: ring_def slot_proc_def)
  ultimately show ?thesis using t(3,5) by auto
qed

section \<open>Killing every other process\<close>


lemma killAll_loop:
  assumes "ring s (x # pre @ suf)" "length suf \<le> fuel" "aux = hd (suf @ [x])"
  shows "\<exists>t. killAllExceptCurrent_loop fuel aux (slot_pid s x) s = Done t () \<and>
    ring t (x # pre @ filter (\<lambda>y. slot_pid s y = INIT_PID) suf) \<and> procs t = procs s \<and> buddyArray t = buddyArray s \<and>
    (\<forall>z. slot_process (slots t z) = slot_process (slots s z))"
  using assms
proof (induction suf arbitrary: s pre fuel aux)
  case Nil
  then have "aux = current s" by (simp add: ring_alt)
  then have "killAllExceptCurrent_loop fuel aux (slot_pid s x) s = Done s ()"
    by (subst killAllExceptCurrent_loop.simps) simp
  with Nil show ?case by simp
next
  case (Cons y suf)
  from Cons.prems obtain fuel' where f: "fuel = Suc fuel'" "length suf \<le> fuel'" by (cases fuel) auto
  note r = Cons.prems(1)
  have cur: "current s = x" using r by (simp add: ring_alt)
  have aux: "aux = y" "y \<noteq> x" using Cons.prems(3) ringD(6) [OF r] by auto
  have py: "slot_pid s y \<noteq> slot_pid s x" using ring_pid_inj [OF r, of y x] aux by auto
  have "map (step_next s) (x # pre @ y # suf) = (pre @ y # suf) @ [x]"
    using r unfolding ring_alt by (metis rotate1.simps(2))
  then have "map (step_next s) (x # pre) @ map (step_next s) (y # suf) = (pre @ [y]) @ suf @ [x]" by simp
  then have "map (step_next s) (y # suf) = suf @ [x]" by (subst (asm) append_eq_append_conv) auto
  then have nx: "step_next s y = hd (suf @ [x])" by (cases suf) auto
  show ?case
  proof (cases "slot_pid s y = INIT_PID")
    case True
    have "ring s (x # (pre @ [y]) @ suf)" using r by simp
    from Cons.IH [OF this f(2) nx] True py aux nx f(1) cur show ?thesis
      by (subst killAllExceptCurrent_loop.simps) (simp add: bind_exec.simps)
  next
    case False
    then obtain pre' p suf' where u: "x # pre @ y # suf = pre' @ p # y # suf'"
      "removeProcess (slot_pid s y) s = Done (unlink p y s) ()"
      using removeProcess_unlink [OF r _ _ refl, of y] by (auto simp: INIT_PID_def)
    have "y \<notin> set pre" "y \<notin> set suf" "y \<notin> set pre'" "p \<noteq> y" "y \<notin> set suf'"
      using ringD(6) [OF r] u(1) by (auto dest!: arg_cong [of _ _ distinct])
    then have e: "x # pre = pre' @ [p]" "suf = suf'"
      using u(1) append_Cons_eq_iff [of y "x # pre" suf "pre' @ [p]" suf'] aux(2) by auto
    have "ring (unlink p y s) (x # pre @ suf)"
      using ring_unlink [of s pre' p y suf'] r u(1) e by (metis append.assoc append_Cons append_Nil)
    from Cons.IH [OF this f(2) nx] False py aux nx f(1) cur u(2) \<open>p \<noteq> y\<close> show ?thesis
      by (subst killAllExceptCurrent_loop.simps) (simp add: bind_exec.simps)
  qed
qed

section \<open>The first pages\<close>

lemma node_addr_boot [simp]:
  "node_addr 0x1000000 513 = 0x1002000" "node_addr 0x1000000 514 = 0x1004000"
  "node_addr 0x1000000 1030 = 0x1006000"
  by (simp_all add: node_addr_def node_level_eq [of 10] node_level_eq [of 9])

text \<open>A heap like \<open>b0\<close> in which exactly the given nodes are full and partially full.\<close>

definition marked :: "buddy \<Rightarrow> nat set \<Rightarrow> nat set \<Rightarrow> buddy \<Rightarrow> bool" where
  "marked b0 full partly b \<longleftrightarrow> heap_shape b \<and> heapLevel b = 11 \<and> baseMemory b = 0x1000000 \<and> base b = base b0 \<and>
     (\<forall>k. 1 \<le> k \<and> k \<le> HEAPSIZE \<longrightarrow> occ b k = (if k \<in> full then BUDDY_FULL else if k \<in> partly then PARTIALLY_FULL else EMPTY))"

lemma markedD:
  assumes "marked b0 full partly b"
  shows "heap_shape b" "heapLevel b = 11" "baseMemory b = 0x1000000" "base b = base b0"
    "\<And>k. 1 \<le> k \<Longrightarrow> k \<le> HEAPSIZE \<Longrightarrow> occ b k = (if k \<in> full then BUDDY_FULL else if k \<in> partly then PARTIALLY_FULL else EMPTY)"
  using assms by (auto simp: marked_def)

lemma boot_step1: "all_empty b0 \<Longrightarrow> \<exists>b. allocPage b0 1 = Some (0x1000000, b) \<and> marked b0 {1024} {1, 2, 4, 8, 16, 32, 64, 128, 256, 512} b"
  unfolding marked_def by (rule after_one_page) auto

lemma node_addr_more [simp]:
  "node_addr 0x1000000 517 = 0x100a000" "node_addr 0x1000000 518 = 0x100c000" "node_addr 0x1000000 1031 = 0x1007000" "node_addr 0x1000000 1032 = 0x1008000" "node_addr 0x1000000 1038 = 0x100e000"
  by (simp_all add: node_addr_def node_level_eq [of 10] node_level_eq [of 9])

lemma boot_step2:
  assumes "heap_ok b0" "marked b0 {1024} {1, 2, 4, 8, 16, 32, 64, 128, 256, 512} b"
  shows "\<exists>c. allocPage b 1 = Some (0x1001000, c) \<and> marked b0 {512, 1024, 1025} {1, 2, 4, 8, 16, 32, 64, 128, 256} c"
  unfolding marked_def by (simp add: alloc_eval markedD [OF assms(2)] heap_okD(5) [OF assms(1), of 1024, simplified])

lemma boot_step3:
  assumes "heap_ok b0" "marked b0 {512, 1024, 1025} {1, 2, 4, 8, 16, 32, 64, 128, 256} b"
  shows "\<exists>c. allocPage b 2 = Some (0x1002000, c) \<and> marked b0 {256, 512, 513, 1024, 1025} {1, 2, 4, 8, 16, 32, 64, 128} c"
  unfolding marked_def by (simp add: alloc_eval markedD [OF assms(2)] heap_okD(5) [OF assms(1), of 512, simplified])

lemma boot_step4:
  assumes "heap_ok b0" "marked b0 {256, 512, 513, 1024, 1025} {1, 2, 4, 8, 16, 32, 64, 128} b"
  shows "\<exists>c. allocPage b 2 = Some (0x1004000, c) \<and> marked b0 {256, 512, 513, 514, 1024, 1025} {1, 2, 4, 8, 16, 32, 64, 128, 257} c"
  unfolding marked_def by (simp add: alloc_eval markedD [OF assms(2)] heap_okD(5) [OF assms(1), of 513, simplified])

lemma boot_step5:
  assumes "heap_ok b0" "marked b0 {256, 512, 513, 514, 1024, 1025} {1, 2, 4, 8, 16, 32, 64, 128, 257} b"
  shows "\<exists>c. allocPage b 1 = Some (0x1006000, c) \<and> marked b0 {256, 512, 513, 514, 1024, 1025, 1030} {1, 2, 4, 8, 16, 32, 64, 128, 257, 515} c"
  unfolding marked_def by (simp add: alloc_eval markedD [OF assms(2)] heap_okD(5) [OF assms(1), of 1029, simplified])

lemma boot_step6:
  assumes "heap_ok b0" "marked b0 {256, 512, 513, 514, 1024, 1025, 1030} {1, 2, 4, 8, 16, 32, 64, 128, 257, 515} b"
  shows "\<exists>c. allocPage b 1 = Some (0x1007000, c) \<and> marked b0 {128, 256, 257, 512, 513, 514, 515, 1024, 1025, 1030, 1031} {1, 2, 4, 8, 16, 32, 64} c"
  unfolding marked_def by (simp add: alloc_eval markedD [OF assms(2)] heap_okD(5) [OF assms(1), of 1030, simplified])

lemma boot_step7:
  assumes "heap_ok b0" "marked b0 {128, 256, 257, 512, 513, 514, 515, 1024, 1025, 1030, 1031} {1, 2, 4, 8, 16, 32, 64} b"
  shows "\<exists>c. allocPage b 1 = Some (0x1008000, c) \<and> marked b0 {128, 256, 257, 512, 513, 514, 515, 1024, 1025, 1030, 1031, 1032} {1, 2, 4, 8, 16, 32, 64, 129, 258, 516} c"
  unfolding marked_def by (simp add: alloc_eval markedD [OF assms(2)] heap_okD(5) [OF assms(1), of 1031, simplified])

lemma boot_step8:
  assumes "heap_ok b0" "marked b0 {128, 256, 257, 512, 513, 514, 515, 1024, 1025, 1030, 1031, 1032} {1, 2, 4, 8, 16, 32, 64, 129, 258, 516} b"
  shows "\<exists>c. allocPage b 2 = Some (0x100a000, c) \<and> marked b0 {128, 256, 257, 258, 512, 513, 514, 515, 517, 1024, 1025, 1030, 1031, 1032} {1, 2, 4, 8, 16, 32, 64, 129, 516} c"
  unfolding marked_def by (simp add: alloc_eval markedD [OF assms(2)] heap_okD(5) [OF assms(1), of 516, simplified])

lemma boot_step9:
  assumes "heap_ok b0" "marked b0 {128, 256, 257, 258, 512, 513, 514, 515, 517, 1024, 1025, 1030, 1031, 1032} {1, 2, 4, 8, 16, 32, 64, 129, 516} b"
  shows "\<exists>c. allocPage b 2 = Some (0x100c000, c) \<and> marked b0 {128, 256, 257, 258, 512, 513, 514, 515, 517, 518, 1024, 1025, 1030, 1031, 1032} {1, 2, 4, 8, 16, 32, 64, 129, 259, 516} c"
  unfolding marked_def by (simp add: alloc_eval markedD [OF assms(2)] heap_okD(5) [OF assms(1), of 517, simplified])

lemma boot_step10:
  assumes "heap_ok b0" "marked b0 {128, 256, 257, 258, 512, 513, 514, 515, 517, 518, 1024, 1025, 1030, 1031, 1032} {1, 2, 4, 8, 16, 32, 64, 129, 259, 516} b"
  shows "\<exists>c. allocPage b 1 = Some (0x100e000, c) \<and> marked b0 {128, 256, 257, 258, 512, 513, 514, 515, 517, 518, 1024, 1025, 1030, 1031, 1032, 1038} {1, 2, 4, 8, 16, 32, 64, 129, 259, 516, 519} c"
  unfolding marked_def by (simp add: alloc_eval markedD [OF assms(2)] heap_okD(5) [OF assms(1), of 1037, simplified])

text \<open>The first blocks of a fresh heap: what the two processes that the kernel starts with are given.\<close>

lemma boot_run:
  assumes e: "all_empty b"
  obtains b5 b10 where "alloc_seq allocPage b [1, 1, 2, 2, 1] =
      Some ([0x1000000, 0x1001000, 0x1002000, 0x1004000, 0x1006000], b5)"
    "alloc_seq allocPage b5 [1, 1, 2, 2, 1] =
      Some ([0x1007000, 0x1008000, 0x100a000, 0x100c000, 0x100e000], b10)"
proof -
  have ok: "heap_ok b" using e by (simp add: all_empty_def)
  obtain b1 where a1: "allocPage b 1 = Some (0x1000000, b1)" and m1: "marked b {1024} {1, 2, 4, 8, 16, 32, 64, 128, 256, 512} b1"
    using boot_step1 [OF e] by blast
  obtain b2 where a2: "allocPage b1 1 = Some (0x1001000, b2)" and m2: "marked b {512, 1024, 1025} {1, 2, 4, 8, 16, 32, 64, 128, 256} b2"
    using boot_step2 [OF ok m1] by blast
  obtain b3 where a3: "allocPage b2 2 = Some (0x1002000, b3)" and m3: "marked b {256, 512, 513, 1024, 1025} {1, 2, 4, 8, 16, 32, 64, 128} b3"
    using boot_step3 [OF ok m2] by blast
  obtain b4 where a4: "allocPage b3 2 = Some (0x1004000, b4)" and m4: "marked b {256, 512, 513, 514, 1024, 1025} {1, 2, 4, 8, 16, 32, 64, 128, 257} b4"
    using boot_step4 [OF ok m3] by blast
  obtain b5 where a5: "allocPage b4 1 = Some (0x1006000, b5)" and m5: "marked b {256, 512, 513, 514, 1024, 1025, 1030} {1, 2, 4, 8, 16, 32, 64, 128, 257, 515} b5"
    using boot_step5 [OF ok m4] by blast
  obtain b6 where a6: "allocPage b5 1 = Some (0x1007000, b6)" and m6: "marked b {128, 256, 257, 512, 513, 514, 515, 1024, 1025, 1030, 1031} {1, 2, 4, 8, 16, 32, 64} b6"
    using boot_step6 [OF ok m5] by blast
  obtain b7 where a7: "allocPage b6 1 = Some (0x1008000, b7)" and m7: "marked b {128, 256, 257, 512, 513, 514, 515, 1024, 1025, 1030, 1031, 1032} {1, 2, 4, 8, 16, 32, 64, 129, 258, 516} b7"
    using boot_step7 [OF ok m6] by blast
  obtain b8 where a8: "allocPage b7 2 = Some (0x100a000, b8)" and m8: "marked b {128, 256, 257, 258, 512, 513, 514, 515, 517, 1024, 1025, 1030, 1031, 1032} {1, 2, 4, 8, 16, 32, 64, 129, 516} b8"
    using boot_step8 [OF ok m7] by blast
  obtain b9 where a9: "allocPage b8 2 = Some (0x100c000, b9)" and m9: "marked b {128, 256, 257, 258, 512, 513, 514, 515, 517, 518, 1024, 1025, 1030, 1031, 1032} {1, 2, 4, 8, 16, 32, 64, 129, 259, 516} b9"
    using boot_step9 [OF ok m8] by blast
  obtain b10 where a10: "allocPage b9 1 = Some (0x100e000, b10)" and m10: "marked b {128, 256, 257, 258, 512, 513, 514, 515, 517, 518, 1024, 1025, 1030, 1031, 1032, 1038} {1, 2, 4, 8, 16, 32, 64, 129, 259, 516, 519} b10"
    using boot_step10 [OF ok m9] by blast
  show ?thesis by (rule that [of b5 b10]) (simp_all add: a1 a2 a3 a4 a5 a6 a7 a8 a9 a10 del: One_nat_def)
qed

lemma boot_pages:
  assumes "all_empty b"
  shows "\<exists>b5. alloc_seq allocPage b [1, 1, 2, 2, 1] =
    Some ([0x1000000, 0x1001000, 0x1002000, 0x1004000, 0x1006000], b5)"
  by (rule boot_run [OF assms]) blast

section \<open>Creating processes and threads\<close>

lemma pages_one [simp]:
  "NUMBER_OF_PAGES_TO_ALLOC sizeof_Process = 1" "NUMBER_OF_PAGES_TO_ALLOC sizeof_Thread = 1"
  "NUMBER_OF_PAGES_TO_ALLOC sizeof_ProcessSlot = 1"
  by (simp_all add: NUMBER_OF_PAGES_TO_ALLOC_def sizeof_Process_def sizeof_Thread_def sizeof_ProcessSlot_def)

text \<open>The pages a call of \<open>createThread\<close> asks for, and what it leaves.\<close>

lemma createThread_effect:
  assumes "alloc_seq allocPage (buddyArray s) [1, 2, 2] = Some ([t, g1, g2], b)"
    and "first_index (\<lambda>x. x = 0) (take 3 (p_thread (procs s p))) = Some i"
  shows "createThread entryPoint args p s =
    Some (0, upd_proc p (\<lambda>q. q\<lparr>p_numberOfThreads := p_numberOfThreads q + 1,
               p_thread := (p_thread q)[i := t]\<rparr>)
       ((snd (fillStackFrame entryPoint (g1 + 2 * PAGE_SIZE) args (s\<lparr>buddyArray := b\<rparr>)))
         \<lparr>thrs := (thrs s)(t := \<lparr>t_userStack = ptr_sub (g1 + 2 * PAGE_SIZE) (2 * sizeof_StackFrame),
            t_kernelStack = g2 + 2 * PAGE_SIZE, t_entryPoint = entryPoint\<rparr>)\<rparr>))"
  using assms
  by (auto simp: createThread_def alloc_st_def findNextSpot_def fillStackFrame_def Let_def upd_proc_def
      split: option.splits)

lemma createThread_full:
  assumes "alloc_seq allocPage (buddyArray s) [1, 2, 2] = Some ([t, g1, g2], b)"
    and "first_index (\<lambda>x. x = 0) (take 3 (p_thread (procs s p))) = None"
  shows "createThread entryPoint args p s =
    Some (- 1, snd (fillStackFrame entryPoint (g1 + 2 * PAGE_SIZE) args (s\<lparr>buddyArray := b\<rparr>)))"
  using assms
  by (auto simp: createThread_def alloc_st_def findNextSpot_def fillStackFrame_def Let_def
      split: option.splits)

lemma upd_proc_frame [simp]:
  "slots (upd_proc p f s) = slots s" "current (upd_proc p f s) = current s"
  "cardinal_processes (upd_proc p f s) = cardinal_processes s" "buddyArray (upd_proc p f s) = buddyArray s"
  "thrs (upd_proc p f s) = thrs s" "frames (upd_proc p f s) = frames s" "cmem (upd_proc p f s) = cmem s"
  "next_pid (upd_proc p f s) = next_pid s" "callProcess_addr (upd_proc p f s) = callProcess_addr s"
  "procs (upd_proc p f s) = (procs s)(p := f (procs s p))"
  by (simp_all add: upd_proc_def)

lemma initiatePipes_loop_frame [simp]:
  "slots (initiatePipesForProcess_loop n a s) = slots s"
  "current (initiatePipesForProcess_loop n a s) = current s"
  "cardinal_processes (initiatePipesForProcess_loop n a s) = cardinal_processes s"
  "buddyArray (initiatePipesForProcess_loop n a s) = buddyArray s"
  "thrs (initiatePipesForProcess_loop n a s) = thrs s" "frames (initiatePipesForProcess_loop n a s) = frames s"
  "procs (initiatePipesForProcess_loop n a s) = procs s"
  "next_pid (initiatePipesForProcess_loop n a s) = next_pid s"
  by (induction n arbitrary: a s) simp_all

text \<open>What a created process looks like.\<close>

definition fresh_process :: "addr \<Rightarrow> addr \<Rightarrow> addr \<Rightarrow> int \<Rightarrow> Process \<Rightarrow> Process" where
  "fresh_process p t description pid q = q\<lparr>p_activeThread := 0, p_numberOfThreads := 1,
     p_thread := t # replicate 9 NULL, p_pid := pid, p_state := READY, p_description := description,
     p_heap := NULL, p_pagesIndex := 0, p_pipes := p + 248, p_pipesOpened := 0,
     p_pipesStruct := p + 278, p_pipePids := p + 470, p_blocked := p + 494, p_occupiedPosition := p + 518\<rparr>"

lemma getProcess_effect:
  assumes a: "alloc_seq allocPage (buddyArray s) [1, 1, 2, 2] = Some ([p, t, g1, g2], b)"
  shows "\<exists>u. getProcess entryPoint description args s = Some (p, u) \<and>
    procs u = (procs s)(p := fresh_process p t description (next_pid s) (procs s p)) \<and>
    slots u = slots s \<and> current u = current s \<and> cardinal_processes u = cardinal_processes s \<and>
    buddyArray u = b \<and> next_pid u = next_pid s + 1 \<and>
    thrs u = (thrs s)(t := \<lparr>t_userStack = ptr_sub (g1 + 2 * PAGE_SIZE) (2 * sizeof_StackFrame),
        t_kernelStack = g2 + 2 * PAGE_SIZE, t_entryPoint = entryPoint\<rparr>) \<and>
    frames u = frames (snd (fillStackFrame entryPoint (g1 + 2 * PAGE_SIZE) args s))"
proof -
  obtain b1 where b1: "allocPage (buddyArray s) 1 = Some (p, b1)"
    "alloc_seq allocPage b1 [1, 2, 2] = Some ([t, g1, g2], b)"
    using a by (auto split: option.splits)
  define s2 where "s2 = upd_proc p (\<lambda>q. q\<lparr>p_activeThread := 0, p_numberOfThreads := 0,
      p_thread := initializeThreadArray MAX_THREADS\<rparr>) (s\<lparr>buddyArray := b1\<rparr>)"
  have th: "p_thread (procs s2 p) = replicate 10 0" by (simp add: s2_def initializeThreadArray_def MAX_THREADS_def)
  have i: "first_index (\<lambda>x. x = 0) (take 3 (p_thread (procs s2 p))) = Some 0"
    unfolding th by (simp add: take_replicate)
  have r10: "(replicate 10 (0::nat))[0 := t] = t # replicate 9 0" by (simp add: numeral_eq_Suc)
  have "buddyArray s2 = b1" by (simp add: s2_def)
  note ct = createThread_effect [of s2, unfolded this, OF b1(2) i, of entryPoint args]
  show ?thesis
    using b1(1)
    by (simp add: getProcess_def alloc_st_def s2_def [symmetric] ct Let_def initializePipeFields_def
        initiatePipesForProcess_def fillStackFrame_def r10 fresh_process_def th)
      (simp add: s2_def fresh_process_def MAX_PROCESS_PIPES_def PIPE_LENGTH_def sizeof_Pipe_def sizeof_Process_def
        sizeof_int_def MAX_LISTENERS_IPC_def r10 add.commute [of p])
qed

section \<open>Properties\<close>

text \<open>
  The process table together with the allocator: the slots and the processes of the ring
  are not in pages that are still free, and the identifiers given out so far are below the next one.
\<close>

definition kernel_inv :: "'a sched_scheme \<Rightarrow> addr list \<Rightarrow> bool" where
  "kernel_inv s xs \<longleftrightarrow> ring s xs \<and>
     (\<exists>U. buddy_inv (buddyArray s) U \<and> set xs \<subseteq> U \<union> - managed \<and>
        (\<lambda>x. slot_process (slots s x)) ` set xs \<subseteq> U \<union> - managed) \<and>
     (\<forall>x \<in> set xs. slot_pid s x < next_pid s)"

lemma block_range_start: "0 < n \<Longrightarrow> p \<in> block_range p n"
  by (simp add: block_range_def)

lemma createProcess_kernel_inv:
  assumes inv: "kernel_inv s (x # xs)"
    and a: "alloc_seq allocPage (buddyArray s) [1, 1, 2, 2, 1] = Some ([p, t, g1, g2, sl], b)"
    and nz: "p \<noteq> 0" "sl \<noteq> 0"
  shows "\<exists>u. createProcess entryPoint description args s = Some (next_pid s, u) \<and>
    kernel_inv u (x # sl # xs) \<and> next_pid u = next_pid s + 1 \<and>
    slot_process (slots u sl) = p \<and>
    procs u = (procs s)(p := fresh_process p t description (next_pid s) (procs s p)) \<and>
    (\<forall>y \<in> set (x # xs). slot_proc u y = slot_proc s y) \<and>
    thrs u = (thrs s)(t := \<lparr>t_userStack = ptr_sub (g1 + 2 * PAGE_SIZE) (2 * sizeof_StackFrame),
        t_kernelStack = g2 + 2 * PAGE_SIZE, t_entryPoint = entryPoint\<rparr>) \<and>
    frames u = frames (snd (fillStackFrame entryPoint (g1 + 2 * PAGE_SIZE) args s))"
proof -
  from inv obtain U where U: "ring s (x # xs)" "buddy_inv (buddyArray s) U" "set (x # xs) \<subseteq> U \<union> - managed"
    "(\<lambda>x. slot_process (slots s x)) ` set (x # xs) \<subseteq> U \<union> - managed" "\<forall>y \<in> set (x # xs). slot_pid s y < next_pid s"
    unfolding kernel_inv_def by blast
  have fr: "p \<notin> U \<union> - managed" "sl \<notin> U \<union> - managed"
    using buddy.alloc_seq_fresh [OF U(2) a, of 0] buddy.alloc_seq_fresh [OF U(2) a, of 4] nz
      block_range_start [of 1 p] block_range_start [of 1 sl] by auto
  obtain b4 where b4: "alloc_seq allocPage (buddyArray s) [1, 1, 2, 2] = Some ([p, t, g1, g2], b4)"
    "allocPage b4 1 = Some (sl, b)"
    using a by (auto split: option.splits)
  from getProcess_effect [OF b4(1), of entryPoint description args] obtain u where
    u: "getProcess entryPoint description args s = Some (p, u)"
      "procs u = (procs s)(p := fresh_process p t description (next_pid s) (procs s p))"
      "slots u = slots s" "current u = current s" "cardinal_processes u = cardinal_processes s"
      "buddyArray u = b4" "next_pid u = next_pid s + 1"
      "thrs u = (thrs s)(t := \<lparr>t_userStack = ptr_sub (g1 + 2 * PAGE_SIZE) (2 * sizeof_StackFrame),
        t_kernelStack = g2 + 2 * PAGE_SIZE, t_entryPoint = entryPoint\<rparr>)"
      "frames u = frames (snd (fillStackFrame entryPoint (g1 + 2 * PAGE_SIZE) args s))"
    by auto
  have same: "slot_proc u y = slot_proc s y" if "y \<in> set (x # xs)" for y
    using U(4) fr(1) that by (auto simp: slot_proc_def u(2,3))
  have ru: "ring u (x # xs)"
  proof -
    have "map (slot_pid u) (x # xs) = map (slot_pid s) (x # xs)" using same by simp
    then show ?thesis using U(1) unfolding ring_def u(3-5) by metis
  qed
  have pidp: "p_pid (procs u p) = next_pid s" "p_state (procs u p) = READY"
    by (simp_all add: u(2) fresh_process_def)
  have pn: "p_pid (procs u p) \<notin> slot_pid u ` set (x # xs)"
  proof
    assume "p_pid (procs u p) \<in> slot_pid u ` set (x # xs)"
    then obtain y where "y \<in> set (x # xs)" "slot_pid s y = next_pid s"
      using same pidp(1) by fastforce
    with U(5) show False by fastforce
  qed
  have al: "allocPage (buddyArray u) 1 = Some (sl, b)" using b4(2) by (simp add: u(6))
  have pf: "sl \<notin> set (x # xs)" "p \<notin> (\<lambda>x. slot_process (slots u x)) ` set (x # xs)"
    using fr U(3,4) unfolding u(3) by blast+
  obtain v where v: "addProcess p u = Some v"
    "ring (v\<lparr>cardinal_processes := cardinal_processes u + 1\<rparr>) (x # sl # xs)" "procs v = procs u"
    "buddyArray v = b" "slot_process (slots v sl) = p"
    "next_pid v = next_pid u" "thrs v = thrs u" "frames v = frames u"
    "cardinal_processes v = cardinal_processes u"
    "\<forall>y \<in> set (x # xs). slot_process (slots v y) = slot_process (slots u y)"
    using addProcess_ring [OF ru al nz(2) pf pn] by (elim exE conjE) (rule that)
  define w where "w = v\<lparr>cardinal_processes := cardinal_processes v + 1\<rparr>"
  have w: "slots w = slots v" "procs w = procs v" "next_pid w = next_pid s + 1"
    by (simp_all add: w_def v(6) u(7))
  have sw: "slot_proc w y = slot_proc s y" if "y \<in> set (x # xs)" for y
    using same [OF that] bspec [OF v(10) that] by (simp add: slot_proc_def w v(3))
  obtain U' where U': "buddy_inv b U'" "U \<subseteq> U'" "p \<in> U'" "sl \<in> U'"
    using buddy.alloc_seq_inv [OF U(2) a] nz block_range_start [of 1 p] block_range_start [of 1 sl]
    by (auto simp: all_less_Suc_shift)
  have "kernel_inv w (x # sl # xs)"
    unfolding kernel_inv_def
  proof (intro conjI exI [of _ U'])
    show "ring w (x # sl # xs)" using v(2,9) by (simp add: w_def)
    show "buddy_inv (buddyArray w) U'" "set (x # sl # xs) \<subseteq> U' \<union> - managed"
      using U' U(3) by (auto simp: w_def v(4))
    have "slot_process (slots w y) \<in> U' \<union> - managed" if "y \<in> set (x # sl # xs)" for y
    proof (cases "y = sl")
      case False
      then have "y \<in> set (x # xs)" using that by auto
      then show ?thesis using U(4) U'(2) v(10) by (auto simp: w u(3))
    qed (simp add: w v(5) U'(3))
    then show "(\<lambda>x. slot_process (slots w x)) ` set (x # sl # xs) \<subseteq> U' \<union> - managed" by blast
    have "slot_pid w sl = next_pid s" by (simp add: slot_proc_def w v(3,5) pidp)
    then show "\<forall>y \<in> set (x # sl # xs). slot_pid w y < next_pid w" using U(5) sw by (auto simp: w(3))
  qed
  moreover have "createProcess entryPoint description args s = Some (next_pid s, w)"
    using u(1) v(1) pidp by (simp add: createProcess_def w_def v(3))
  ultimately show ?thesis using sw v u w by (intro exI [of _ w]) (simp add: w_def)
qed

text \<open>Without a page for its slot the process is linked at address 0.\<close>

lemma createProcess_unchecked:
  assumes a: "alloc_seq allocPage (buddyArray s) [1, 1, 2, 2, 1] = Some ([p, t, g1, g2, sl], b)"
    and cur: "current s = x" "x \<noteq> 0"
  shows "\<exists>u. createProcess entryPoint description args s = Some (next_pid s, u) \<and> current u = x \<and>
    (sl = 0 \<longrightarrow> step_next u x = NULL)"
proof -
  obtain b4 where b4: "alloc_seq allocPage (buddyArray s) [1, 1, 2, 2] = Some ([p, t, g1, g2], b4)"
    "allocPage b4 1 = Some (sl, b)"
    using a by (auto split: option.splits)
  from getProcess_effect [OF b4(1), of entryPoint description args] obtain u where
    u: "getProcess entryPoint description args s = Some (p, u)" "current u = current s" "buddyArray u = b4"
      "procs u = (procs s)(p := fresh_process p t description (next_pid s) (procs s p))" by blast
  then show ?thesis
    using b4(2) cur by (simp add: createProcess_def addProcess_def newProcessSlot_def Let_def fresh_process_def)
qed

lemma ring_next_nonzero: "ring s xs \<Longrightarrow> step_next s (current s) \<noteq> 0"
proof -
  assume r: "ring s xs"
  have "current s \<in> set xs" using ringD(1,2) [OF r] by (metis length_greater_0_conv nth_mem)
  then have "step_next s (current s) \<in> set (map (step_next s) xs)" by simp
  also have "map (step_next s) xs = rotate1 xs" using r by (simp add: ring_alt)
  finally have "step_next s (current s) \<in> set xs" by simp
  moreover have "0 \<notin> set xs" using r by (simp add: ring_alt)
  ultimately show ?thesis by metis
qed

text \<open>The first process of all: its slot is the whole ring.\<close>

lemma createProcess_first:
  assumes inv: "buddy_inv (buddyArray s) U" "current s = NULL" "cardinal_processes s = 0"
    and a: "alloc_seq allocPage (buddyArray s) [1, 1, 2, 2, 1] = Some ([p, t, g1, g2, sl], b)"
    and nz: "p \<noteq> 0" "sl \<noteq> 0"
  shows "\<exists>u. createProcess entryPoint description args s = Some (next_pid s, u) \<and>
    kernel_inv u [sl] \<and> next_pid u = next_pid s + 1 \<and> buddyArray u = b \<and>
    slot_proc u sl = fresh_process p t description (next_pid s) (procs s p) \<and>
    thrs u = (thrs s)(t := \<lparr>t_userStack = ptr_sub (g1 + 2 * PAGE_SIZE) (2 * sizeof_StackFrame),
        t_kernelStack = g2 + 2 * PAGE_SIZE, t_entryPoint = entryPoint\<rparr>) \<and>
    frames u = frames (snd (fillStackFrame entryPoint (g1 + 2 * PAGE_SIZE) args s))"
proof -
  obtain b4 where b4: "alloc_seq allocPage (buddyArray s) [1, 1, 2, 2] = Some ([p, t, g1, g2], b4)"
    "allocPage b4 1 = Some (sl, b)"
    using a by (auto split: option.splits)
  from getProcess_effect [OF b4(1), of entryPoint description args] obtain u where
    u: "getProcess entryPoint description args s = Some (p, u)"
      "procs u = (procs s)(p := fresh_process p t description (next_pid s) (procs s p))"
      "current u = NULL" "cardinal_processes u = 0" "buddyArray u = b4" "next_pid u = next_pid s + 1"
      "thrs u = (thrs s)(t := \<lparr>t_userStack = ptr_sub (g1 + 2 * PAGE_SIZE) (2 * sizeof_StackFrame),
        t_kernelStack = g2 + 2 * PAGE_SIZE, t_entryPoint = entryPoint\<rparr>)"
      "frames u = frames (snd (fillStackFrame entryPoint (g1 + 2 * PAGE_SIZE) args s))"
    using inv(2,3) by auto
  define w where "w = u\<lparr>buddyArray := b, current := sl,
    slots := (slots u)(sl := (slots u sl)\<lparr>slot_process := p, slot_next := sl\<rparr>), cardinal_processes := 1\<rparr>"
  have run: "createProcess entryPoint description args s = Some (next_pid s, w)"
    using u b4(2)
    by (simp add: createProcess_def addProcess_def newProcessSlot_def w_def fresh_process_def)
  obtain U' where U': "buddy_inv b U'" "p \<in> U'" "sl \<in> U'"
    using buddy.alloc_seq_inv [OF inv(1) a] nz block_range_start [of 1 p] block_range_start [of 1 sl]
    by (auto simp: all_less_Suc_shift)
  have sp: "slot_proc w sl = fresh_process p t description (next_pid s) (procs s p)"
    by (simp add: slot_proc_def w_def u(2))
  have "kernel_inv w [sl]"
    unfolding kernel_inv_def
  proof (intro conjI exI [of _ U'])
    show "ring w [sl]" using nz(2) by (simp add: ring_def w_def)
    show "buddy_inv (buddyArray w) U'" "set [sl] \<subseteq> U' \<union> - managed"
      "(\<lambda>x. slot_process (slots w x)) ` set [sl] \<subseteq> U' \<union> - managed"
      using U' by (simp_all add: w_def)
    show "\<forall>x \<in> set [sl]. slot_pid w x < next_pid w" by (simp add: sp fresh_process_def) (simp add: w_def u(6))
  qed
  then show ?thesis using run sp by (intro exI [of _ w]) (simp add: w_def u(6,7,8))
qed

lemma all_empty_bss: "all_empty (createHeap buddy_bss)"
  by (rule all_empty_createHeap [OF heap_shape_bss])

lemma kernel_inv_ex_sched: "kernel_inv ex_sched [100, 200, 300]"
  unfolding kernel_inv_def
  using ring_ex_sched buddy_inv_createHeap [OF heap_shape_bss]
  by (intro conjI exI [of _ "{}"]) (auto simp: ex_sched_simps managed_def)

lemma example_pages:
  obtains b where "alloc_seq allocPage (buddyArray ex_sched) [1, 1, 2, 2, 1] =
    Some ([0x1000000, 0x1001000, 0x1002000, 0x1004000, 0x1006000], b)"
  using boot_pages [OF all_empty_bss] by (auto simp: ex_sched_def)

text \<open>
  C8: when the allocator has a page for the process and one for its slot, \<open>createProcess\<close>
  returns a new identifier and leaves a well-formed process table and allocator in which the new
  process comes right after the current one, ready, with one thread whose first frame starts
  \<open>callProcess\<close> with the entry point and its argument; every other process is as before. The code
  does not look at the answers of the allocator: without a page for the slot the call returns a
  new identifier as well, but the current slot then points to null, and no ring is left.
\<close>

theorem createProcess_enters_ring:
  assumes "kernel_inv s (x # xs)"
    and "alloc_seq allocPage (buddyArray s) [1, 1, 2, 2, 1] = Some ([p, t, g1, g2, sl], b)"
  shows "\<exists>u. createProcess entryPoint description args s = Some (next_pid s, u) \<and>
    (p \<noteq> 0 \<and> sl \<noteq> 0 \<longrightarrow>
      kernel_inv u (x # sl # xs) \<and> slot_pid u sl = next_pid s \<and> slot_state u sl = READY \<and>
      active_thread u sl = t \<and> p_numberOfThreads (slot_proc u sl) = 1 \<and>
      f_rip (frames u (t_userStack (thrs u t))) = callProcess_addr s \<and>
      f_rsi (frames u (t_userStack (thrs u t))) = entryPoint \<and>
      f_rcx (frames u (t_userStack (thrs u t))) = args \<and>
      (\<forall>y \<in> set (x # xs). slot_proc u y = slot_proc s y)) \<and>
    (sl = 0 \<longrightarrow> current u = x \<and> step_next u x = NULL \<and> (\<forall>ys. \<not> ring u ys))"
proof (cases "p \<noteq> 0 \<and> sl \<noteq> 0")
  case True
  obtain u where u: "createProcess entryPoint description args s = Some (next_pid s, u)"
    "kernel_inv u (x # sl # xs)" "slot_process (slots u sl) = p"
    "procs u = (procs s)(p := fresh_process p t description (next_pid s) (procs s p))"
    "\<forall>y \<in> set (x # xs). slot_proc u y = slot_proc s y"
    "thrs u = (thrs s)(t := \<lparr>t_userStack = ptr_sub (g1 + 2 * PAGE_SIZE) (2 * sizeof_StackFrame),
        t_kernelStack = g2 + 2 * PAGE_SIZE, t_entryPoint = entryPoint\<rparr>)"
    "frames u = frames (snd (fillStackFrame entryPoint (g1 + 2 * PAGE_SIZE) args s))"
    using createProcess_kernel_inv [OF assms conjunct1 [OF True] conjunct2 [OF True], of entryPoint description args]
    by (elim exE conjE) (rule that)
  have "slot_proc u sl = fresh_process p t description (next_pid s) (procs s p)"
    by (simp add: slot_proc_def u(3,4))
  then show ?thesis
    using True u(1,2,5) by (intro exI [of _ u]) (simp add: u(6,7) fresh_process_def fillStackFrame_def Let_def active_thread_def)
next
  case False
  have "ring s (x # xs)" using assms(1) by (simp add: kernel_inv_def)
  then have "current s = x" "x \<noteq> 0" by (auto simp: ring_alt)
  then obtain u where u: "createProcess entryPoint description args s = Some (next_pid s, u)" "current u = x"
    "sl = 0 \<longrightarrow> step_next u x = NULL"
    using createProcess_unchecked [OF assms(2)] by blast
  have "\<not> ring u ys" if "sl = 0" for ys using u(2,3) that ring_next_nonzero [of u ys] by auto
  then show ?thesis using False u by blast
qed

theorem createProcess_enters_ring_witness:
  "\<exists>u. createProcess 7 8 9 ex_sched = Some (3, u) \<and> kernel_inv u [100, 0x1006000, 200, 300] \<and>
     slot_state u 0x1006000 = READY"
proof -
  obtain b where "alloc_seq allocPage (buddyArray ex_sched) [1, 1, 2, 2, 1] =
    Some ([0x1000000, 0x1001000, 0x1002000, 0x1004000, 0x1006000], b)" by (rule example_pages)
  from createProcess_enters_ring [OF kernel_inv_ex_sched this, of 7 8 9] show ?thesis
    by (auto simp: ex_sched_def)
qed



text \<open>
  A process that removes itself (the end of \<open>callProcess\<close>, or \<open>exit\<close>) leaves the ring and
  never runs again: the call switches to a ready process of the others.
\<close>

theorem removing_itself_switches:
  assumes "ring s (x # xs)" "slot_pid s x \<noteq> INIT_PID"
    and "\<forall>z \<in> set (x # xs). thread_ok (slot_proc s z)" "y \<in> set xs" "slot_state s y = READY"
  shows "\<exists>t k ys. removeProcess (getCurrentPid s) s = Yielded t k \<and> ring t ys \<and> set ys = set xs \<and>
    slot_state t (current t) = RUNNING \<and> buddyArray t = buddyArray s"
proof -
  have "current s = x" "x \<noteq> 0" using assms(1) by (auto simp: ring_alt)
  then show ?thesis
    using removeProcess_current [OF assms(1) _ assms(3,4,5)] assms(2)
    by (simp add: getCurrentPid_def INIT_PID_def)
qed

definition ex_sched_user :: sched where
  "ex_sched_user = ex_sched\<lparr>current := 300, procs := (procs ex_sched)(1000 := ex_proc 0 READY 10,
     3000 := ex_proc 2 RUNNING 30)\<rparr>"

lemma ring_ex_sched_user: "ring ex_sched_user [300, 100, 200]"
  by (simp add: ring_def All_less_Suc ex_sched_user_def ex_sched_simps)

theorem removing_itself_switches_witness:
  "\<exists>t k ys. removeProcess 2 ex_sched_user = Yielded t k \<and> ring t ys \<and> set ys = {100, 200}"
proof -
  have "\<forall>z \<in> set [300, 100, 200]. thread_ok (slot_proc ex_sched_user z)"
    by (simp add: thread_ok_def MAX_THREADS_def ex_sched_user_def ex_sched_simps)
  moreover have "slot_pid ex_sched_user 300 = 2" "slot_state ex_sched_user 100 = READY"
    "getCurrentPid ex_sched_user = 2"
    by (simp_all add: getCurrentPid_def ex_sched_user_def ex_sched_simps)
  ultimately have "\<exists>t k ys. removeProcess 2 ex_sched_user = Yielded t k \<and> ring t ys \<and> set ys = set [100, 200] \<and>
      slot_state t (current t) = RUNNING \<and> buddyArray t = buddyArray ex_sched_user"
    using removing_itself_switches [OF ring_ex_sched_user, of 100] by (simp add: INIT_PID_def)
  then show ?thesis by simp blast
qed

text \<open>
  C10: \<open>killAllExceptCurrent\<close> returns, and leaves in the ring exactly the current process and
  init, in their order.
\<close>

theorem killAll_leaves_current_and_init:
  assumes "ring s (x # xs)"
  shows "\<exists>t. killAllExceptCurrent s = Done t () \<and>
    ring t (x # filter (\<lambda>y. slot_pid s y = INIT_PID) xs) \<and> procs t = procs s"
proof -
  have cur: "current s = x" "x \<noteq> 0" "nat (cardinal_processes s) = Suc (length xs)"
    using assms by (auto simp: ring_alt)
  have "map (step_next s) (x # xs) = xs @ [x]" using assms unfolding ring_alt by (metis rotate1.simps(2))
  then have "step_next s x = hd (xs @ [x])" by (cases xs) auto
  from killAll_loop [of s x "[]" xs "Suc (length xs)", OF _ _ this] assms cur show ?thesis
    by (auto simp: killAllExceptCurrent_def getCurrentPid_def)
qed

theorem killAll_leaves_current_and_init_witness:
  "\<exists>t. killAllExceptCurrent ex_sched_user = Done t () \<and> ring t [300, 100]"
  using killAll_leaves_current_and_init [OF ring_ex_sched_user]
  by (auto simp: INIT_PID_def ex_sched_user_def ex_sched_simps)

text \<open>
  The array of a process has room for ten threads, but \<open>createThread\<close> only looks at
  the first three places: the fourth thread is refused after its five pages were taken, and
  none of them is given back. The kernel stack of a thread that is created starts behind
  the block that was requested for it.
\<close>

theorem fourth_thread_refused:
  assumes "alloc_seq allocPage (buddyArray s) [1, 2, 2] = Some ([t, g1, g2], b)"
  shows "((\<forall>i < 3. i < length (p_thread (procs s p)) \<longrightarrow> p_thread (procs s p) ! i \<noteq> NULL) \<longrightarrow>
      (\<exists>u. createThread entryPoint args p s = Some (- 1, u) \<and> procs u = procs s \<and> thrs u = thrs s \<and>
         buddyArray u = b)) \<and>
    ((\<exists>i < 3. i < length (p_thread (procs s p)) \<and> p_thread (procs s p) ! i = NULL) \<longrightarrow>
      (\<exists>u. createThread entryPoint args p s = Some (0, u) \<and> buddyArray u = b \<and>
         p_numberOfThreads (procs u p) = p_numberOfThreads (procs s p) + 1 \<and>
         t_kernelStack (thrs u t) \<notin> block_range g2 2))"
proof (intro conjI impI)
  let ?P = "\<lambda>x. x = (0::nat)"
  assume "\<forall>i < 3. i < length (p_thread (procs s p)) \<longrightarrow> p_thread (procs s p) ! i \<noteq> NULL"
  then have "first_index ?P (take 3 (p_thread (procs s p))) = None" by (auto simp: first_index_None_nth)
  from createThread_full [OF assms this]
  show "\<exists>u. createThread entryPoint args p s = Some (- 1, u) \<and> procs u = procs s \<and> thrs u = thrs s \<and>
      buddyArray u = b" by (simp add: fillStackFrame_def Let_def)
next
  let ?P = "\<lambda>x. x = (0::nat)"
  assume "\<exists>i < 3. i < length (p_thread (procs s p)) \<and> p_thread (procs s p) ! i = NULL"
  then have "first_index ?P (take 3 (p_thread (procs s p))) \<noteq> None" by (auto simp: first_index_None_nth)
  then obtain i where i: "first_index ?P (take 3 (p_thread (procs s p))) = Some i" by blast
  from createThread_effect [OF assms i]
  show "\<exists>u. createThread entryPoint args p s = Some (0, u) \<and> buddyArray u = b \<and>
         p_numberOfThreads (procs u p) = p_numberOfThreads (procs s p) + 1 \<and>
         t_kernelStack (thrs u t) \<notin> block_range g2 2"
    by (simp add: fillStackFrame_def Let_def block_range_def)
qed

definition ex_sched_threads :: sched where
  "ex_sched_threads = ex_sched\<lparr>procs := (procs ex_sched)(1000 := (ex_proc 0 RUNNING 10)
     \<lparr>p_numberOfThreads := 3, p_thread := [10, 20, 30, 0, 0, 0, 0, 0, 0, 0]\<rparr>)\<rparr>"

theorem fourth_thread_refused_witness:
  "\<exists>u. createThread 7 8 1000 ex_sched_threads = Some (- 1, u) \<and> procs u = procs ex_sched_threads"
proof -
  obtain t g1 g2 b where al: "alloc_seq allocPage (buddyArray ex_sched_threads) [1, 2, 2] = Some ([t, g1, g2], b)"
    using buddy.alloc_seq_total [OF buddy_inv_createHeap [OF heap_shape_bss], of "[1, 2, 2]"]
    by (auto simp: ex_sched_threads_def ex_sched_def length_Suc_conv numeral_eq_Suc)
  have "\<forall>i < 3. i < length (p_thread (procs ex_sched_threads 1000)) \<longrightarrow>
      p_thread (procs ex_sched_threads 1000) ! i \<noteq> NULL"
    by (auto simp: ex_sched_threads_def numeral_eq_Suc less_Suc_eq)
  with fourth_thread_refused [OF al, of 1000 7 8] show ?thesis by blast
qed

end
