(* ===== verification/WaitQueue.thy ===== *)
theory WaitQueue
  imports Prelude "HOL-Library.Multiset"
begin

text \<open>
  The queue of blocked processes that every mutex and every semaphore carries: an array of
  \<open>MAX_BLOCKED_QUEUE_SIZE\<close> places, the value \<open>NO_BLOCKED_QUEUE_VALUE\<close> for a free one. A
  process is put into the first free place and taken from the first occupied one, so it is
  not first come, first served: the last section shows that one in a later place may wait for
  ever. The interface states what a lock needs from it.
\<close>

definition MAX_BLOCKED_QUEUE_SIZE :: nat where "MAX_BLOCKED_QUEUE_SIZE = 20"
definition NO_BLOCKED_QUEUE_VALUE :: int where "NO_BLOCKED_QUEUE_VALUE = - 1"
definition NO_SPACE_LEFT_M :: int where "NO_SPACE_LEFT_M = - 2"

definition clearArray :: "nat \<Rightarrow> int \<Rightarrow> int list" where
  "clearArray n value = replicate n value"

definition getFreeSpotInBlockedQueue :: "int list \<Rightarrow> nat \<Rightarrow> int" where
  "getFreeSpotInBlockedQueue blocked n =
     (case first_index (\<lambda>x. x = NO_BLOCKED_QUEUE_VALUE) (take n blocked) of
        None \<Rightarrow> NO_SPACE_LEFT_M | Some i \<Rightarrow> int i)"

definition queue_put :: "int list \<Rightarrow> int \<Rightarrow> int list option" where
  "queue_put q pid =
     (let index = getFreeSpotInBlockedQueue q MAX_BLOCKED_QUEUE_SIZE in
      if index = NO_SPACE_LEFT_M then None else Some (q[nat index := pid]))"

definition queue_take :: "int list \<Rightarrow> (int \<times> int list) option" where
  "queue_take q =
     (case first_index (\<lambda>x. x \<noteq> NO_BLOCKED_QUEUE_VALUE) (take MAX_BLOCKED_QUEUE_SIZE q) of
        None \<Rightarrow> None | Some i \<Rightarrow> Some (q ! i, q[i := NO_BLOCKED_QUEUE_VALUE]))"

text \<open>The processes that wait in a queue.\<close>

definition waiting :: "int list \<Rightarrow> int multiset" where
  "waiting q = filter_mset (\<lambda>x. x \<noteq> NO_BLOCKED_QUEUE_VALUE) (mset q)"

definition queue_ok :: "int list \<Rightarrow> bool" where
  "queue_ok q \<longleftrightarrow> length q = MAX_BLOCKED_QUEUE_SIZE"

section \<open>The interface\<close>

locale wait_queue =
  fixes put :: "'q \<Rightarrow> int \<Rightarrow> 'q option"
    and take_one :: "'q \<Rightarrow> (int \<times> 'q) option"
    and content :: "'q \<Rightarrow> int multiset"
    and ok :: "'q \<Rightarrow> bool"
    and free :: int
    and capacity :: nat
  assumes put_adds: "ok q \<Longrightarrow> pid \<noteq> free \<Longrightarrow> put q pid = Some q' \<Longrightarrow>
      ok q' \<and> content q' = add_mset pid (content q)"
    and put_room: "ok q \<Longrightarrow> size (content q) < capacity \<Longrightarrow> \<exists>q'. put q pid = Some q'"
    and put_full: "ok q \<Longrightarrow> size (content q) = capacity \<Longrightarrow> put q pid = None"
    and bounded: "ok q \<Longrightarrow> size (content q) \<le> capacity"
    and take_removes: "ok q \<Longrightarrow> take_one q = Some (pid, q') \<Longrightarrow>
      ok q' \<and> pid \<noteq> free \<and> content q = add_mset pid (content q')"
    and take_empty: "ok q \<Longrightarrow> take_one q = None \<longleftrightarrow> content q = {#}"
begin

lemma put_cases:
  assumes "ok q" "pid \<noteq> free"
  obtains (full) "put q pid = None" "size (content q) = capacity"
  | (put) q' where "put q pid = Some q'" "ok q'" "content q' = add_mset pid (content q)"
      "size (content q) < capacity"
proof (cases "size (content q) = capacity")
  case True
  show ?thesis by (rule full [OF put_full [OF assms(1) True] True])
next
  case False
  then have "size (content q) < capacity" using bounded [OF assms(1)] by simp
  with put_room [OF assms(1)] obtain q' where "put q pid = Some q'" by blast
  with put_adds [OF assms this] \<open>size (content q) < capacity\<close> show ?thesis by (intro that(2)) auto
qed

lemma take_nonempty:
  assumes "ok q" "content q \<noteq> {#}"
  obtains pid q' where "take_one q = Some (pid, q')" "ok q'" "pid \<noteq> free" "content q = add_mset pid (content q')"
  using assms take_empty take_removes by (metis not_None_eq surj_pair)

text \<open>Everybody who waits is taken after as many turns as there are processes that wait.\<close>

fun drain :: "nat \<Rightarrow> 'q \<Rightarrow> int list \<times> 'q" where
  "drain 0 q = ([], q)"
| "drain (Suc n) q = (case take_one q of None \<Rightarrow> ([], q)
     | Some (pid, q') \<Rightarrow> (let (ps, q'') = drain n q' in (pid # ps, q'')))"

lemma drain_all:
  "ok q \<Longrightarrow> size (content q) \<le> n \<Longrightarrow> mset (fst (drain n q)) = content q \<and> content (snd (drain n q)) = {#}"
proof (induction n arbitrary: q)
  case 0
  then show ?case by simp
next
  case (Suc n)
  show ?case
  proof (cases "content q = {#}")
    case True
    with take_empty [OF Suc.prems(1)] show ?thesis by simp
  next
    case False
    then obtain pid q' where t: "take_one q = Some (pid, q')" "ok q'" "content q = add_mset pid (content q')"
      using take_nonempty [OF Suc.prems(1)] by metis
    with Suc.IH [OF t(2)] Suc.prems(2) show ?thesis by (auto split: prod.splits)
  qed
qed

end

section \<open>The array provides it\<close>

lemma mset_update_at: "i < length q \<Longrightarrow> mset (q[i := x]) = add_mset x (mset q - {#q ! i#})"
  by (rule mset_update)

lemma waiting_put:
  assumes "i < length q" "q ! i = NO_BLOCKED_QUEUE_VALUE" "pid \<noteq> NO_BLOCKED_QUEUE_VALUE"
  shows "waiting (q[i := pid]) = add_mset pid (waiting q)"
  using assms by (simp add: waiting_def mset_update filter_diff_mset)

lemma waiting_take:
  assumes "i < length q" "q ! i \<noteq> NO_BLOCKED_QUEUE_VALUE"
  shows "waiting q = add_mset (q ! i) (waiting (q[i := NO_BLOCKED_QUEUE_VALUE]))"
proof -
  have "q ! i \<in># waiting q" using assms by (simp add: waiting_def)
  moreover have "waiting (q[i := NO_BLOCKED_QUEUE_VALUE]) = waiting q - {#q ! i#}"
    unfolding waiting_def mset_update [OF assms(1)] filter_diff_mset [symmetric]
    using assms(2) by (simp only: filter_mset_add_mset filter_diff_mset filter_single_mset filter_empty_mset simp_thms if_True if_False)
  ultimately show ?thesis by simp
qed

lemma size_waiting_le: "size (waiting q) \<le> length q"
  by (metis waiting_def size_filter_mset_lesseq size_mset)

lemma size_waiting_full: "size (waiting q) = length q \<longleftrightarrow> (\<forall>x \<in> set q. x \<noteq> NO_BLOCKED_QUEUE_VALUE)"
proof -
  have "size (waiting q) = length (filter (\<lambda>x. x \<noteq> NO_BLOCKED_QUEUE_VALUE) q)"
    unfolding waiting_def mset_filter [symmetric] size_mset ..
  then show ?thesis using count_where_full [of _ q] by (simp add: count_where_def)
qed

lemma queue_put_Some:
  assumes "queue_ok q"
  shows "queue_put q pid = (case first_index (\<lambda>x. x = NO_BLOCKED_QUEUE_VALUE) q of None \<Rightarrow> None
    | Some i \<Rightarrow> Some (q[i := pid]))"
  using assms by (auto simp: queue_put_def getFreeSpotInBlockedQueue_def queue_ok_def NO_SPACE_LEFT_M_def
      split: option.splits)

lemma queue_take_Some:
  assumes "queue_ok q"
  shows "queue_take q = (case first_index (\<lambda>x. x \<noteq> NO_BLOCKED_QUEUE_VALUE) q of None \<Rightarrow> None
    | Some i \<Rightarrow> Some (q ! i, q[i := NO_BLOCKED_QUEUE_VALUE]))"
  using assms by (simp add: queue_take_def queue_ok_def)

interpretation wq: wait_queue queue_put queue_take waiting queue_ok NO_BLOCKED_QUEUE_VALUE MAX_BLOCKED_QUEUE_SIZE
proof
  fix q q' :: "int list" and pid
  assume ok: "queue_ok q"
  show "size (waiting q) \<le> MAX_BLOCKED_QUEUE_SIZE" using size_waiting_le [of q] ok by (simp add: queue_ok_def)
  show "queue_put q pid = Some q' \<Longrightarrow> pid \<noteq> NO_BLOCKED_QUEUE_VALUE \<Longrightarrow>
      queue_ok q' \<and> waiting q' = add_mset pid (waiting q)"
    using ok unfolding queue_put_Some [OF ok]
    by (auto simp: first_index_Some waiting_put queue_ok_def split: option.splits)
  show "\<exists>q'. queue_put q pid = Some q'" if "size (waiting q) < MAX_BLOCKED_QUEUE_SIZE"
    using that ok size_waiting_full [of q] unfolding queue_put_Some [OF ok]
    by (cases "first_index (\<lambda>x. x = NO_BLOCKED_QUEUE_VALUE) q") (auto simp: first_index_None queue_ok_def)
  show "queue_put q pid = None" if "size (waiting q) = MAX_BLOCKED_QUEUE_SIZE"
  proof -
    have "first_index (\<lambda>x. x = NO_BLOCKED_QUEUE_VALUE) q = None"
      using that ok size_waiting_full [of q] by (simp add: first_index_None queue_ok_def)
    then show ?thesis by (simp add: queue_put_Some [OF ok])
  qed
  show "queue_take q = Some (pid, q') \<Longrightarrow>
      queue_ok q' \<and> pid \<noteq> NO_BLOCKED_QUEUE_VALUE \<and> waiting q = add_mset pid (waiting q')"
    using ok waiting_take [of _ q] unfolding queue_take_Some [OF ok]
    by (auto simp: first_index_Some queue_ok_def split: option.splits)
  show "queue_take q = None \<longleftrightarrow> waiting q = {#}"
  proof -
    have "queue_take q = None \<longleftrightarrow> first_index (\<lambda>x. x \<noteq> NO_BLOCKED_QUEUE_VALUE) q = None"
      by (simp add: queue_take_Some [OF ok] split: option.splits)
    then show ?thesis by (auto simp: first_index_None waiting_def)
  qed
qed

lemma queue_ok_clear [simp]: "queue_ok (clearArray MAX_BLOCKED_QUEUE_SIZE NO_BLOCKED_QUEUE_VALUE)"
  by (simp add: queue_ok_def clearArray_def)

lemma waiting_clear [simp]: "waiting (clearArray n NO_BLOCKED_QUEUE_VALUE) = {#}"
  by (induction n) (simp_all add: clearArray_def waiting_def)

section \<open>Not first come, first served\<close>

text \<open>
  A lock that is always wanted: whoever is woken asks for it again, so that every \<open>take\<close> is followed
  by a \<open>put\<close>. The result is the list of those that were woken, and the queue that is left.
\<close>

primrec wait_rounds :: "int list \<Rightarrow> int list \<Rightarrow> (int list \<times> int list) option" where
  "wait_rounds [] q = Some ([], q)"
| "wait_rounds (pid # pids) q =
     (case queue_take q of
        None \<Rightarrow> None
      | Some (woken, q1) \<Rightarrow>
          (case queue_put q1 pid of
             None \<Rightarrow> None
           | Some q2 \<Rightarrow> map_option (\<lambda>(ws, q3). (woken # ws, q3)) (wait_rounds pids q2)))"

lemma take_and_put:
  assumes ok: "queue_ok q" and i: "i < j" "q ! i \<noteq> NO_BLOCKED_QUEUE_VALUE" and j: "j < MAX_BLOCKED_QUEUE_SIZE"
    and pid: "pid \<noteq> NO_BLOCKED_QUEUE_VALUE"
  obtains m n where "m < j" "n < j" "q ! m \<noteq> NO_BLOCKED_QUEUE_VALUE" "queue_take q = Some (q ! m, q[m := NO_BLOCKED_QUEUE_VALUE])"
    "queue_put (q[m := NO_BLOCKED_QUEUE_VALUE]) pid = Some (q[m := NO_BLOCKED_QUEUE_VALUE, n := pid])"
proof -
  have len: "length q = MAX_BLOCKED_QUEUE_SIZE" using ok by (simp add: queue_ok_def)
  obtain m where m: "first_index (\<lambda>x. x \<noteq> NO_BLOCKED_QUEUE_VALUE) q = Some m"
    using i j len by (cases "first_index (\<lambda>x. x \<noteq> NO_BLOCKED_QUEUE_VALUE) q") (auto simp: first_index_None_nth)
  then have "q ! m \<noteq> NO_BLOCKED_QUEUE_VALUE" "\<not> i < m" using i(2) by (auto simp: first_index_Some)
  then have mj: "m < j" "q ! m \<noteq> NO_BLOCKED_QUEUE_VALUE" using i(1) by simp_all
  let ?q = "q[m := NO_BLOCKED_QUEUE_VALUE]"
  have ok': "queue_ok ?q" using len by (simp add: queue_ok_def)
  have free: "?q ! m = NO_BLOCKED_QUEUE_VALUE" "m < length ?q" using mj j len by simp_all
  then obtain n where n: "first_index (\<lambda>x. x = NO_BLOCKED_QUEUE_VALUE) ?q = Some n"
    by (cases "first_index (\<lambda>x. x = NO_BLOCKED_QUEUE_VALUE) ?q") (auto simp: first_index_None_nth)
  then have "\<not> m < n" using free(1) by (auto simp: first_index_Some)
  then show ?thesis
    using that [of m n] mj m n by (simp add: queue_take_Some [OF ok] queue_put_Some [OF ok'])
qed

theorem later_place_is_overtaken:
  assumes "queue_ok q" "i < j" "q ! i \<noteq> NO_BLOCKED_QUEUE_VALUE" "j < MAX_BLOCKED_QUEUE_SIZE"
    and "\<forall>pid \<in> set pids. pid \<noteq> NO_BLOCKED_QUEUE_VALUE"
  shows "\<exists>ws q'. wait_rounds pids q = Some (ws, q') \<and> q' ! j = q ! j \<and> set ws \<subseteq> set (take j q) \<union> set pids - {NO_BLOCKED_QUEUE_VALUE}"
  using assms
proof (induction pids arbitrary: q i)
  case Nil
  then show ?case by simp
next
  case (Cons pid pids)
  have len: "length q = MAX_BLOCKED_QUEUE_SIZE" using Cons.prems(1) by (simp add: queue_ok_def)
  obtain m n where mn: "m < j" "n < j" "q ! m \<noteq> NO_BLOCKED_QUEUE_VALUE"
      "queue_take q = Some (q ! m, q[m := NO_BLOCKED_QUEUE_VALUE])"
      "queue_put (q[m := NO_BLOCKED_QUEUE_VALUE]) pid = Some (q[m := NO_BLOCKED_QUEUE_VALUE, n := pid])"
    using take_and_put [OF Cons.prems(1-4), of pid] Cons.prems(5) by auto
  let ?q = "q[m := NO_BLOCKED_QUEUE_VALUE, n := pid]"
  have put: "?q ! n = pid" "pid \<noteq> NO_BLOCKED_QUEUE_VALUE" using mn(2) Cons.prems(4,5) len by auto
  obtain ws q' where r: "wait_rounds pids ?q = Some (ws, q')" "q' ! j = ?q ! j"
      "set ws \<subseteq> set (take j ?q) \<union> set pids - {NO_BLOCKED_QUEUE_VALUE}"
    using Cons.IH [of ?q n] put mn(2) len Cons.prems(4,5) by (auto simp: queue_ok_def)
  have there: "q ! m \<in> set (take j q)" using mn(1) len Cons.prems(4) by (auto simp: in_set_conv_nth)
  have "set (take j ?q) \<subseteq> insert pid (insert NO_BLOCKED_QUEUE_VALUE (set (take j q)))"
    unfolding take_update_swap by (rule order_trans [OF set_update_subset_insert insert_mono [OF set_update_subset_insert]])
  then have "set (q ! m # ws) \<subseteq> set (take j q) \<union> set (pid # pids) - {NO_BLOCKED_QUEUE_VALUE}"
    using r(3) there mn(3) by auto
  moreover have "?q ! j = q ! j" using mn(1,2) by simp
  ultimately show ?case using mn(4,5) r(1,2) by simp
qed

text \<open>Processes 2 and 3 take turns while 7 waits in the second place.\<close>

lemma later_place_is_overtaken_example:
  "map_option (\<lambda>(ws, q). (ws, q ! 1)) (wait_rounds [3, 2, 3]
      ((clearArray MAX_BLOCKED_QUEUE_SIZE NO_BLOCKED_QUEUE_VALUE)[0 := 2, 1 := 7])) = Some ([2, 3, 2], 7)"
  by code_simp

end
