(* ===== verification/Mutex.thy ===== *)
theory Mutex
  imports Process WaitQueue Cstring
begin

text \<open>
  The mutexes of the kernel, \<open>Kernel/mutex.c\<close> over \<open>asm/lock.asm\<close>: a table of named locks
  with a queue of blocked processes each. A name is the address of a string; the strings
  themselves are a view of memory (\<open>strs\<close>), because they live in user programs. The lemmas
  show which process holds a lock, who is woken when it is released, and how the table of
  names behaves.
\<close>

section \<open>State\<close>

record Mutex =
  m_used :: bool
  m_name :: addr
  m_queue :: "int list"
  m_usingPids :: "int list"
  m_mutex :: int
  m_cardinalBlocked :: int
  m_cardinalUsing :: int
  m_pidCreator :: int

text \<open>
  The globals of \<open>mutex.c\<close>, the strings reachable by address, what the kernel has printed,
  and the value of an uninitialised local \<open>int\<close>.
\<close>

record msched = sched +
  mutexes :: "Mutex list"
  adminMutex :: int
  strs :: "addr \<Rightarrow> cstring"
  console :: "string"
  junk :: int

definition MAX_MUTEXES :: nat where "MAX_MUTEXES = 100"
definition MUTEX_NOT_FOUND :: int where "MUTEX_NOT_FOUND = - 1"
definition ACQUIRED :: int where "ACQUIRED = 1"
definition ERROR :: int where "ERROR = - 4"

definition mutex_bss :: Mutex where
  "mutex_bss = \<lparr>m_used = False, m_name = NULL, m_queue = replicate 20 0, m_usingPids = replicate 20 0,
     m_mutex = 0, m_cardinalBlocked = 0, m_cardinalUsing = 0, m_pidCreator = 0\<rparr>"

definition upd_mutex :: "nat \<Rightarrow> (Mutex \<Rightarrow> Mutex) \<Rightarrow> 'a msched_scheme \<Rightarrow> 'a msched_scheme" where
  "upd_mutex i f s = s\<lparr>mutexes := (mutexes s)[i := f (mutexes s ! i)]\<rparr>"

definition ncPrint_str :: "string \<Rightarrow> 'a msched_scheme \<Rightarrow> 'a msched_scheme" where
  "ncPrint_str str s = s\<lparr>console := console s @ str\<rparr>"

section \<open>The table of mutexes\<close>

definition cleanMutex :: "nat \<Rightarrow> 'a msched_scheme \<Rightarrow> 'a msched_scheme" where
  "cleanMutex index s =
     (if index \<ge> MAX_MUTEXES then s
      else upd_mutex index (\<lambda>m. m\<lparr>m_used := False, m_name := NULL, m_cardinalBlocked := 0, m_mutex := 0,
             m_queue := clearArray MAX_BLOCKED_QUEUE_SIZE NO_BLOCKED_QUEUE_VALUE\<rparr>) s)"

fun initializeMutexes_loop :: "nat \<Rightarrow> nat \<Rightarrow> 'a msched_scheme \<Rightarrow> 'a msched_scheme" where
  "initializeMutexes_loop 0 i s = s"
| "initializeMutexes_loop (Suc left) i s = initializeMutexes_loop left (Suc i) (cleanMutex i s)"

definition initializeMutexes :: "'a msched_scheme \<Rightarrow> 'a msched_scheme" where
  "initializeMutexes s =
     (let s1 = (initializeMutexes_loop MAX_MUTEXES 0 s)\<lparr>adminMutex := 0\<rparr>
      in upd_mutex (nat (adminMutex s1)) (\<lambda>m. m\<lparr>m_used := True\<rparr>) s1)"

definition getIndex :: "addr \<Rightarrow> 'a msched_scheme \<Rightarrow> int" where
  "getIndex mutexName s =
     (case first_index (\<lambda>m. strcmp (strs s (m_name m)) (strs s mutexName) = 0 \<and> m_used m) (mutexes s) of
        None \<Rightarrow> MUTEX_NOT_FOUND | Some i \<Rightarrow> int i)"

definition getFreeSpot :: "'a msched_scheme \<Rightarrow> int" where
  "getFreeSpot s =
     (case first_index (\<lambda>m. \<not> m_used m) (mutexes s) of None \<Rightarrow> NO_SPACE_LEFT_M | Some i \<Rightarrow> int i)"

definition createMutex :: "addr \<Rightarrow> 'a msched_scheme \<Rightarrow> int \<times> 'a msched_scheme" where
  "createMutex mutexName s =
     (let pid = getCurrentPid s; index = getFreeSpot s in
      if index = NO_SPACE_LEFT_M then (ERROR, s)
      else (index, upd_mutex (nat index)
              (\<lambda>m. m\<lparr>m_used := True, m_name := mutexName, m_pidCreator := pid\<rparr>) s))"

text \<open>An index below the array is an access outside of it: \<open>None\<close>.\<close>

definition isValidMutex :: "int \<Rightarrow> 'a msched_scheme \<Rightarrow> bool option" where
  "isValidMutex mutex s =
     (if mutex \<ge> int MAX_MUTEXES then Some False
      else if mutex < 0 then None else Some (m_used (mutexes s ! nat mutex)))"

section \<open>Locking\<close>

definition isQueueFull :: "nat \<Rightarrow> 'a msched_scheme \<Rightarrow> bool" where
  "isQueueFull mutex s \<longleftrightarrow> m_cardinalBlocked (mutexes s ! mutex) \<ge> int MAX_BLOCKED_QUEUE_SIZE"

definition addToBlocked :: "nat \<Rightarrow> int \<Rightarrow> 'a msched_scheme \<Rightarrow> 'a msched_scheme" where
  "addToBlocked mutex pid s =
     (let index = getFreeSpotInBlockedQueue (m_queue (mutexes s ! mutex)) MAX_BLOCKED_QUEUE_SIZE in
      if index = NO_SPACE_LEFT_M then ncPrint_str ''MUERTE5'' s
      else upd_mutex mutex (\<lambda>m. m\<lparr>m_queue := (m_queue m)[nat index := pid],
             m_cardinalBlocked := m_cardinalBlocked m + 1\<rparr>) s)"

definition getFreeSpotInUsingQueue :: "int list \<Rightarrow> nat \<Rightarrow> int" where
  "getFreeSpotInUsingQueue using_pids n =
     (case first_index (\<lambda>x. x = - 1) (take n using_pids) of None \<Rightarrow> NO_SPACE_LEFT_M | Some i \<Rightarrow> int i)"

text \<open>
  \<open>_testAndSet\<close> compares eight bytes, the lock and the \<open>cardinalBlocked\<close> that follows it, with
  zero; when they are zero it stores 1 in the first four and 0 in the others.
\<close>

definition testAndSet :: "nat \<Rightarrow> 'a msched_scheme \<Rightarrow> int \<times> 'a msched_scheme" where
  "testAndSet mutex s =
     (if m_mutex (mutexes s ! mutex) = 0 \<and> m_cardinalBlocked (mutexes s ! mutex) = 0
      then (1, upd_mutex mutex (\<lambda>m. m\<lparr>m_mutex := 1, m_cardinalBlocked := 0\<rparr>) s)
      else (0, s))"

definition lockMutex :: "int \<Rightarrow> 'a msched_scheme \<Rightarrow> ('a msched_scheme, unit) exec" where
  "lockMutex mutex s =
     (case isValidMutex mutex s of
        None \<Rightarrow> Fault
      | Some valid \<Rightarrow>
          if \<not> valid then Done s ()
          else
            (let (lock, s1) = testAndSet (nat mutex) s in
             if lock \<noteq> ACQUIRED then
               (let (pid, s2) =
                  (if isQueueFull (nat mutex) s1 then (junk s1, s1)
                   else (getCurrentPid s1, addToBlocked (nat mutex) (getCurrentPid s1) s1))
                in yield_exec (changeProcessState pid BLOCKED s2))
             else Done s1 ()))"

definition unblockProcess :: "nat \<Rightarrow> 'a msched_scheme \<Rightarrow> 'a msched_scheme" where
  "unblockProcess mutex s =
     (let q = m_queue (mutexes s ! mutex) in
      case first_index (\<lambda>x. x \<noteq> NO_BLOCKED_QUEUE_VALUE) (take MAX_BLOCKED_QUEUE_SIZE q) of
        None \<Rightarrow> s
      | Some i \<Rightarrow> upd_mutex mutex (\<lambda>m. m\<lparr>m_queue := (m_queue m)[i := NO_BLOCKED_QUEUE_VALUE]\<rparr>)
                    (changeProcessState (q ! i) READY s))"

definition freeMutex :: "int \<Rightarrow> 'a msched_scheme \<Rightarrow> ('a msched_scheme, unit) exec" where
  "freeMutex mutex s =
     (case isValidMutex mutex s of
        None \<Rightarrow> Fault
      | Some valid \<Rightarrow>
          if \<not> valid then Done s ()
          else if m_cardinalBlocked (mutexes s ! nat mutex) > 0 then
            Done (upd_mutex (nat mutex) (\<lambda>m. m\<lparr>m_cardinalBlocked := m_cardinalBlocked m - 1\<rparr>)
                   (unblockProcess (nat mutex) s)) ()
          else Done (upd_mutex (nat mutex) (\<lambda>m. m\<lparr>m_mutex := 0\<rparr>) s) ())"

definition getMutex :: "addr \<Rightarrow> 'a msched_scheme \<Rightarrow> ('a msched_scheme, int) exec" where
  "getMutex mutexName s =
     bind_exec (lockMutex (adminMutex s) s) (\<lambda>s1 _.
       let (index, s2) = (let index = getIndex mutexName s1 in
             if index = MUTEX_NOT_FOUND then createMutex mutexName s1 else (index, s1))
       in bind_exec (freeMutex (adminMutex s2) s2) (\<lambda>s3 _. Done s3 index))"

definition closeMutex :: "int \<Rightarrow> 'a msched_scheme \<Rightarrow> 'a msched_scheme option" where
  "closeMutex index s =
     (case isValidMutex index s of
        None \<Rightarrow> None
      | Some valid \<Rightarrow>
          if \<not> valid then Some s
          else if getCurrentPid s = m_pidCreator (mutexes s ! nat index)
          then Some (upd_mutex (nat index) (\<lambda>m. m\<lparr>m_used := False\<rparr>) s) else Some s)"

section \<open>The kernel around a mutex\<close>

lemma upd_mutex_frame [simp]:
  "slots (upd_mutex i f s) = slots s" "procs (upd_mutex i f s) = procs s" "current (upd_mutex i f s) = current s"
  "cardinal_processes (upd_mutex i f s) = cardinal_processes s" "buddyArray (upd_mutex i f s) = buddyArray s"
  "thrs (upd_mutex i f s) = thrs s" "rsp (upd_mutex i f s) = rsp s" "cmem (upd_mutex i f s) = cmem s"
  "slot_proc (upd_mutex i f s) x = slot_proc s x" "getCurrentPid (upd_mutex i f s) = getCurrentPid s"
  "adminMutex (upd_mutex i f s) = adminMutex s" "strs (upd_mutex i f s) = strs s"
  "junk (upd_mutex i f s) = junk s" "console (upd_mutex i f s) = console s"
  "length (mutexes (upd_mutex i f s)) = length (mutexes s)"
  "ring (upd_mutex i f s) xs = ring s xs"
  by (simp_all add: upd_mutex_def slot_proc_def getCurrentPid_def ring_def)

lemma mutexes_upd [simp]:
  "i < length (mutexes s) \<Longrightarrow> mutexes (upd_mutex i f s) ! i = f (mutexes s ! i)"
  "j \<noteq> i \<Longrightarrow> mutexes (upd_mutex i f s) ! j = mutexes s ! j"
  by (simp_all add: upd_mutex_def)

text \<open>What only concerns processes leaves the mutexes alone.\<close>

lemma more_eqD:
  assumes "sched.more t = sched.more s"
  shows "mutexes t = mutexes s" "adminMutex t = adminMutex s" "strs t = strs s" "console t = console s"
    "junk t = junk s" "msched.more t = msched.more s"
  using assms by (cases s; cases t; simp)+

lemmas changeProcessState_more [frame, simp] = more_eqD [OF changeProcessState_frame(11)]

lemma schedule_loop_more:
  assumes "schedule_loop s = Some t"
  shows "sched.more t = sched.more s"
proof (rule schedule_loop.raw_induct [where P = "\<lambda>s t. sched.more t = sched.more s", OF _ assms])
  fix f :: "'a sched_scheme \<Rightarrow> 'a sched_scheme option" and s t :: "'a sched_scheme"
  assume IH: "\<And>s t. f s = Some t \<Longrightarrow> sched.more t = sched.more s"
    and eq: "(if slot_state s (current s) \<noteq> READY then f (s\<lparr>current := step_next s (current s)\<rparr>)
      else Some s) = Some t"
  then show "sched.more t = sched.more s" by (auto split: if_splits dest!: IH)
qed

lemma schedule_more: "schedule s = Some t \<Longrightarrow> sched.more t = sched.more s"
  by (auto simp: schedule_def Let_def dest!: schedule_loop_more split: if_splits)

lemma yield_step_more: "yield_step s = Some t \<Longrightarrow> sched.more t = sched.more s"
  by (auto simp: yield_step_def next_process_def dest!: schedule_more split: if_splits option.splits)

lemma yield_exec_cases:
  assumes "current s \<noteq> NULL"
  obtains (fault) "yield_exec s = Fault" "yield_step s = None"
  | (switch) t where "yield_exec s = Yielded t (\<lambda>u. Done u ())" "yield_step s = Some t"
      "sched.more t = sched.more s"
  using assms by (cases "yield_step s") (auto simp: yield_exec_def dest: yield_step_more)

section \<open>What a lock and a release do\<close>

definition mutex_ok :: "Mutex \<Rightarrow> bool" where
  "mutex_ok m \<longleftrightarrow> queue_ok (m_queue m) \<and> m_cardinalBlocked m = int (size (waiting (m_queue m))) \<and>
     m_mutex m \<in> {0, 1} \<and> (m_mutex m = 0 \<longrightarrow> waiting (m_queue m) = {#})"

definition table_ok :: "'a msched_scheme \<Rightarrow> bool" where
  "table_ok s \<longleftrightarrow> length (mutexes s) = MAX_MUTEXES"

lemma isValid_used [simp]: "i < MAX_MUTEXES \<Longrightarrow> isValidMutex (int i) s = Some (m_used (mutexes s ! i))"
  by (simp add: isValidMutex_def)

lemma addToBlocked_put:
  assumes "queue_ok (m_queue (mutexes s ! i))" "queue_put (m_queue (mutexes s ! i)) pid = Some q"
  shows "addToBlocked i pid s =
    upd_mutex i (\<lambda>m. m\<lparr>m_queue := q, m_cardinalBlocked := m_cardinalBlocked m + 1\<rparr>) s"
  using assms by (auto simp: addToBlocked_def queue_put_def Let_def upd_mutex_def split: if_splits)

lemma unblock_take:
  assumes "queue_take (m_queue (mutexes s ! i)) = Some (pid, q)"
  shows "unblockProcess i s = upd_mutex i (\<lambda>m. m\<lparr>m_queue := q\<rparr>) (changeProcessState pid READY s)"
  using assms by (auto simp: unblockProcess_def queue_take_def Let_def upd_mutex_def split: option.splits)

lemma lock_free_mutex:
  assumes "table_ok s" "i < MAX_MUTEXES" "m_used (mutexes s ! i)" "mutex_ok (mutexes s ! i)"
    "m_mutex (mutexes s ! i) = 0"
  shows "lockMutex (int i) s = Done (upd_mutex i (\<lambda>m. m\<lparr>m_mutex := 1\<rparr>) s) ()"
proof -
  have c: "m_cardinalBlocked (mutexes s ! i) = 0" using assms(4,5) by (simp add: mutex_ok_def)
  have "upd_mutex i (\<lambda>m. m\<lparr>m_mutex := 1, m_cardinalBlocked := 0\<rparr>) s = upd_mutex i (\<lambda>m. m\<lparr>m_mutex := 1\<rparr>) s"
    using c unfolding upd_mutex_def by (cases "mutexes s ! i") simp
  with assms(2,3,5) c show ?thesis
    by (simp add: lockMutex_def testAndSet_def ACQUIRED_def)
qed

lemma lock_taken_mutex:
  assumes "table_ok s" "i < MAX_MUTEXES" "m_used (mutexes s ! i)" "mutex_ok (mutexes s ! i)"
    "m_mutex (mutexes s ! i) = 1" "\<not> isQueueFull i s" "getCurrentPid s \<noteq> - 1"
  obtains q where "queue_put (m_queue (mutexes s ! i)) (getCurrentPid s) = Some q" "queue_ok q"
    "waiting q = add_mset (getCurrentPid s) (waiting (m_queue (mutexes s ! i)))"
    "lockMutex (int i) s = yield_exec (changeProcessState (getCurrentPid s) BLOCKED
       (upd_mutex i (\<lambda>m. m\<lparr>m_queue := q, m_cardinalBlocked := m_cardinalBlocked m + 1\<rparr>) s))"
proof -
  have ok: "queue_ok (m_queue (mutexes s ! i))" using assms(4) by (simp add: mutex_ok_def)
  have "size (waiting (m_queue (mutexes s ! i))) < MAX_BLOCKED_QUEUE_SIZE"
    using assms(4,6) by (simp add: mutex_ok_def isQueueFull_def)
  then obtain q where q: "queue_put (m_queue (mutexes s ! i)) (getCurrentPid s) = Some q"
    using wq.put_room [OF ok] by blast
  have "lockMutex (int i) s = yield_exec (changeProcessState (getCurrentPid s) BLOCKED
      (upd_mutex i (\<lambda>m. m\<lparr>m_queue := q, m_cardinalBlocked := m_cardinalBlocked m + 1\<rparr>) s))"
    using assms(2,3,5,6) addToBlocked_put [OF ok q] by (simp add: lockMutex_def testAndSet_def ACQUIRED_def)
  with q wq.put_adds [OF ok _ q] assms(7) that show ?thesis by (simp add: NO_BLOCKED_QUEUE_VALUE_def)
qed

lemma lock_full_mutex:
  assumes "i < MAX_MUTEXES" "m_used (mutexes s ! i)" "m_mutex (mutexes s ! i) = 1" "isQueueFull i s"
  shows "lockMutex (int i) s = yield_exec (changeProcessState (junk s) BLOCKED s)"
  using assms by (simp add: lockMutex_def testAndSet_def ACQUIRED_def)

lemma yield_exec_Done: "current s \<noteq> 0 \<Longrightarrow> yield_exec s \<noteq> Done t ()"
  by (auto simp: yield_exec_def split: option.splits)

lemma getCurrentPid_nonneg: "0 \<le> getCurrentPid s \<Longrightarrow> current s \<noteq> 0 \<and> getCurrentPid s \<noteq> - 1"
  by (auto simp: getCurrentPid_def split: if_splits)

lemma lock_Done:
  assumes "table_ok s" "i < MAX_MUTEXES" "m_used (mutexes s ! i)" "mutex_ok (mutexes s ! i)"
    "m_mutex (mutexes s ! i) = 1" "0 \<le> getCurrentPid s"
  shows "lockMutex (int i) s \<noteq> Done t ()"
proof (cases "isQueueFull i s")
  case True
  then show ?thesis
    using lock_full_mutex [OF assms(2,3,5)] getCurrentPid_nonneg [OF assms(6)] by (simp add: yield_exec_Done)
next
  case False
  obtain q where "lockMutex (int i) s = yield_exec (changeProcessState (getCurrentPid s) BLOCKED
       (upd_mutex i (\<lambda>m. m\<lparr>m_queue := q, m_cardinalBlocked := m_cardinalBlocked m + 1\<rparr>) s))"
    by (rule lock_taken_mutex [OF assms(1-5) False]) (use getCurrentPid_nonneg [OF assms(6)] in auto)
  then show ?thesis using getCurrentPid_nonneg [OF assms(6)] by (simp add: yield_exec_Done)
qed

lemma free_mutex_nobody:
  assumes "i < MAX_MUTEXES" "m_used (mutexes s ! i)" "mutex_ok (mutexes s ! i)" "waiting (m_queue (mutexes s ! i)) = {#}"
  shows "freeMutex (int i) s = Done (upd_mutex i (\<lambda>m. m\<lparr>m_mutex := 0\<rparr>) s) ()"
  using assms by (simp add: freeMutex_def mutex_ok_def)

lemma free_mutex_waiter:
  assumes "table_ok s" "i < MAX_MUTEXES" "m_used (mutexes s ! i)" "mutex_ok (mutexes s ! i)"
    "waiting (m_queue (mutexes s ! i)) \<noteq> {#}"
  obtains pid q where "queue_take (m_queue (mutexes s ! i)) = Some (pid, q)" "queue_ok q" "pid \<noteq> - 1"
    "waiting (m_queue (mutexes s ! i)) = add_mset pid (waiting q)"
    "freeMutex (int i) s = Done (upd_mutex i
       (\<lambda>m. m\<lparr>m_queue := q, m_cardinalBlocked := m_cardinalBlocked m - 1\<rparr>) (changeProcessState pid READY s)) ()"
proof -
  have ok: "queue_ok (m_queue (mutexes s ! i))" using assms(4) by (simp add: mutex_ok_def)
  obtain pid q where q: "queue_take (m_queue (mutexes s ! i)) = Some (pid, q)" "queue_ok q"
    "pid \<noteq> NO_BLOCKED_QUEUE_VALUE" "waiting (m_queue (mutexes s ! i)) = add_mset pid (waiting q)"
    by (rule wq.take_nonempty [OF ok assms(5)])
  have "upd_mutex i (\<lambda>m. m\<lparr>m_cardinalBlocked := m_cardinalBlocked m - 1\<rparr>)
      (upd_mutex i (\<lambda>m. m\<lparr>m_queue := q\<rparr>) (changeProcessState pid READY s)) =
    upd_mutex i (\<lambda>m. m\<lparr>m_queue := q, m_cardinalBlocked := m_cardinalBlocked m - 1\<rparr>) (changeProcessState pid READY s)"
    using assms(1,2) by (simp add: upd_mutex_def table_ok_def)
  moreover have "m_cardinalBlocked (mutexes s ! i) > 0"
    using assms(4) q(4) by (simp add: mutex_ok_def)
  ultimately have "freeMutex (int i) s = Done (upd_mutex i
       (\<lambda>m. m\<lparr>m_queue := q, m_cardinalBlocked := m_cardinalBlocked m - 1\<rparr>) (changeProcessState pid READY s)) ()"
    using assms(2,3) unblock_take [OF q(1)] by (simp add: freeMutex_def)
  with q that show ?thesis by (simp add: NO_BLOCKED_QUEUE_VALUE_def)
qed

text \<open>
  What \<open>lockMutex\<close> and \<open>freeMutex\<close> do to the mutex itself: whether the caller has it at once, and
  whom a release wakes, who has it then.
\<close>

definition mutex_acquire :: "int \<Rightarrow> Mutex \<Rightarrow> bool \<times> Mutex" where
  "mutex_acquire pid m =
     (if m_mutex m = 0 then (True, m\<lparr>m_mutex := 1, m_cardinalBlocked := 0\<rparr>)
      else case queue_put (m_queue m) pid of
        None \<Rightarrow> (False, m)
      | Some q \<Rightarrow> (False, m\<lparr>m_queue := q, m_cardinalBlocked := m_cardinalBlocked m + 1\<rparr>))"

definition mutex_release :: "Mutex \<Rightarrow> int option \<times> Mutex" where
  "mutex_release m =
     (if m_cardinalBlocked m > 0 then
        (case queue_take (m_queue m) of
           None \<Rightarrow> (None, m\<lparr>m_cardinalBlocked := m_cardinalBlocked m - 1\<rparr>)
         | Some (pid, q) \<Rightarrow> (Some pid, m\<lparr>m_queue := q, m_cardinalBlocked := m_cardinalBlocked m - 1\<rparr>))
      else (None, m\<lparr>m_mutex := 0\<rparr>))"

lemma lockMutex_acquires:
  assumes "table_ok s" "i < MAX_MUTEXES" "m_used (mutexes s ! i)" "mutex_ok (mutexes s ! i)" "\<not> isQueueFull i s" "getCurrentPid s \<noteq> - 1"
  shows "lockMutex (int i) s = (let (now, m) = mutex_acquire (getCurrentPid s) (mutexes s ! i); t = upd_mutex i (\<lambda>_. m) s
    in if now then Done t () else yield_exec (changeProcessState (getCurrentPid s) BLOCKED t))"
proof (cases "m_mutex (mutexes s ! i) = 0")
  case True
  have "m_cardinalBlocked (mutexes s ! i) = 0" using assms(4) True by (simp add: mutex_ok_def)
  then have "upd_mutex i (\<lambda>m. m\<lparr>m_mutex := 1\<rparr>) s = upd_mutex i (\<lambda>_. (mutexes s ! i)\<lparr>m_mutex := 1, m_cardinalBlocked := 0\<rparr>) s"
    unfolding upd_mutex_def by (cases "mutexes s ! i") simp
  then show ?thesis using lock_free_mutex [OF assms(1-4) True] True by (simp add: mutex_acquire_def)
next
  case False
  then have m: "m_mutex (mutexes s ! i) = 1" using assms(4) by (simp add: mutex_ok_def)
  obtain q where q: "queue_put (m_queue (mutexes s ! i)) (getCurrentPid s) = Some q"
    "lockMutex (int i) s = yield_exec (changeProcessState (getCurrentPid s) BLOCKED
       (upd_mutex i (\<lambda>m. m\<lparr>m_queue := q, m_cardinalBlocked := m_cardinalBlocked m + 1\<rparr>) s))"
    by (rule lock_taken_mutex [OF assms(1-4) m assms(5,6)])
  have "upd_mutex i (\<lambda>m. m\<lparr>m_queue := q, m_cardinalBlocked := m_cardinalBlocked m + 1\<rparr>) s =
      upd_mutex i (\<lambda>_. (mutexes s ! i)\<lparr>m_queue := q, m_cardinalBlocked := m_cardinalBlocked (mutexes s ! i) + 1\<rparr>) s"
    by (simp add: upd_mutex_def)
  then show ?thesis using q m by (simp add: mutex_acquire_def)
qed

lemma freeMutex_releases:
  assumes "table_ok s" "i < MAX_MUTEXES" "m_used (mutexes s ! i)" "mutex_ok (mutexes s ! i)"
  shows "freeMutex (int i) s = (let (woken, m) = mutex_release (mutexes s ! i); s1 = (case woken of None \<Rightarrow> s | Some pid \<Rightarrow> changeProcessState pid READY s)
    in Done (upd_mutex i (\<lambda>_. m) s1) ())"
proof (cases "waiting (m_queue (mutexes s ! i)) = {#}")
  case True
  then have "m_cardinalBlocked (mutexes s ! i) = 0" using assms(4) by (simp add: mutex_ok_def)
  then show ?thesis using free_mutex_nobody [OF assms(2-4) True] by (simp add: mutex_release_def upd_mutex_def)
next
  case False
  then have pos: "m_cardinalBlocked (mutexes s ! i) > 0" using assms(4) by (simp add: mutex_ok_def nonempty_has_size)
  obtain pid q where q: "queue_take (m_queue (mutexes s ! i)) = Some (pid, q)"
    "freeMutex (int i) s = Done (upd_mutex i (\<lambda>m. m\<lparr>m_queue := q, m_cardinalBlocked := m_cardinalBlocked m - 1\<rparr>) (changeProcessState pid READY s)) ()"
    by (rule free_mutex_waiter [OF assms False])
  have "mutexes (changeProcessState pid READY s) = mutexes s" by (rule more_eqD) simp
  then show ?thesis using q pos by (simp add: mutex_release_def upd_mutex_def)
qed

section \<open>Runs of several processes on one mutex\<close>

text \<open>
  One step of the system as seen by mutex \<open>i\<close>, with the processes that are between \<open>lockMutex\<close>
  and \<open>freeMutex\<close>. A process that was blocked is inside as soon as the release takes it
  from the queue, because what is left of its call only returns. Everything that leaves
  entry \<open>i\<close> of the table alone is a step of the surroundings: switching, creating and
  removing processes, the other mutexes.
\<close>

inductive mutex_step :: "nat \<Rightarrow> 'a msched_scheme \<times> int multiset \<Rightarrow> 'a msched_scheme \<times> int multiset \<Rightarrow> bool"
  for i where
  acquire: "0 \<le> getCurrentPid s \<Longrightarrow> lockMutex (int i) s = Done t () \<Longrightarrow>
    mutex_step i (s, inside) (t, add_mset (getCurrentPid s) inside)"
| block: "0 \<le> getCurrentPid s \<Longrightarrow> \<not> isQueueFull i s \<Longrightarrow> lockMutex (int i) s = Yielded t k \<Longrightarrow>
    mutex_step i (s, inside) (t, inside)"
| release: "getCurrentPid s \<in># inside \<Longrightarrow> freeMutex (int i) s = Done t () \<Longrightarrow>
    mutex_step i (s, inside) (t, inside - {#getCurrentPid s#} +
      (waiting (m_queue (mutexes s ! i)) - waiting (m_queue (mutexes t ! i))))"
| surroundings: "length (mutexes t) = length (mutexes s) \<Longrightarrow> mutexes t ! i = mutexes s ! i \<Longrightarrow>
    mutex_step i (s, inside) (t, inside)"

inductive_cases mutex_stepE: "mutex_step i (s, inside) (t, inside')"

definition mutex_inv :: "nat \<Rightarrow> 'a msched_scheme \<times> int multiset \<Rightarrow> bool" where
  "mutex_inv i c \<longleftrightarrow> (case c of (s, inside) \<Rightarrow> table_ok s \<and> m_used (mutexes s ! i) \<and> mutex_ok (mutexes s ! i) \<and>
     int (size inside) = m_mutex (mutexes s ! i))"

lemma mutex_inv_step [inv_pres]:
  assumes i: "i < MAX_MUTEXES" and inv: "mutex_inv i (s, I)" and st: "mutex_step i (s, I) (t, I')"
  shows "mutex_inv i (t, I')"
proof -
  from inv have s: "table_ok s" "m_used (mutexes s ! i)" "mutex_ok (mutexes s ! i)"
    "int (size I) = m_mutex (mutexes s ! i)" by (auto simp: mutex_inv_def)
  have il: "i < length (mutexes s)" using s(1) i by (simp add: table_ok_def)
  have val: "m_mutex (mutexes s ! i) = 0 \<or> m_mutex (mutexes s ! i) = 1" using s(3) by (auto simp: mutex_ok_def)
  from st show ?thesis
  proof cases
    case acquire
    show ?thesis
    proof (cases "m_mutex (mutexes s ! i) = 0")
      case True
      then have "t = upd_mutex i (\<lambda>m. m\<lparr>m_mutex := 1\<rparr>) s" using lock_free_mutex [OF s(1) i s(2,3)] acquire by simp
      then show ?thesis using s il True acquire(1) by (auto simp: mutex_inv_def mutex_ok_def table_ok_def)
    next
      case False
      then have False using lock_Done [OF s(1) i s(2,3) _ acquire(2)] acquire(3) val by blast
      then show ?thesis ..
    qed
  next
    case (block k)
    have one: "m_mutex (mutexes s ! i) = 1"
      using val lock_free_mutex [OF s(1) i s(2,3)] block(4) by auto
    have pid: "getCurrentPid s \<noteq> - 1" "current s \<noteq> 0" using block(2) by (auto simp: getCurrentPid_def split: if_splits)
    obtain q where q: "queue_ok q" "waiting q = add_mset (getCurrentPid s) (waiting (m_queue (mutexes s ! i)))"
      "lockMutex (int i) s = yield_exec (changeProcessState (getCurrentPid s) BLOCKED
       (upd_mutex i (\<lambda>m. m\<lparr>m_queue := q, m_cardinalBlocked := m_cardinalBlocked m + 1\<rparr>) s))"
      by (rule lock_taken_mutex [OF s(1) i s(2,3) one block(3) pid(1)])
    let ?u = "changeProcessState (getCurrentPid s) BLOCKED
       (upd_mutex i (\<lambda>m. m\<lparr>m_queue := q, m_cardinalBlocked := m_cardinalBlocked m + 1\<rparr>) s)"
    have "sched.more t = sched.more ?u"
      using block(4) pid(2) yield_exec_cases [of ?u] by (auto simp: q(3))
    then have "mutexes t = mutexes ?u" by (rule more_eqD)
    then show ?thesis using s one q(1,2) il block(1) by (simp add: mutex_inv_def mutex_ok_def table_ok_def)
  next
    case release
    have m1: "m_mutex (mutexes s ! i) = 1" using val release(2) s(4) by auto
    then obtain a where "I = {#a#}" using s(4) size_1_singleton_mset [of I] by auto
    then have one: "m_mutex (mutexes s ! i) = 1" "I = {#getCurrentPid s#}" using m1 release(2) by auto
    show ?thesis
    proof (cases "waiting (m_queue (mutexes s ! i)) = {#}")
      case True
      with free_mutex_nobody [OF i s(2,3)] release have "t = upd_mutex i (\<lambda>m. m\<lparr>m_mutex := 0\<rparr>) s" by simp
      then show ?thesis using s one il True release(1) by (simp add: mutex_inv_def mutex_ok_def table_ok_def)
    next
      case False
      then obtain pid q where q: "queue_ok q" "waiting (m_queue (mutexes s ! i)) = add_mset pid (waiting q)"
        "freeMutex (int i) s = Done (upd_mutex i
          (\<lambda>m. m\<lparr>m_queue := q, m_cardinalBlocked := m_cardinalBlocked m - 1\<rparr>) (changeProcessState pid READY s)) ()"
        by (rule free_mutex_waiter [OF s(1) i s(2,3)])
      then have "t = upd_mutex i (\<lambda>m. m\<lparr>m_queue := q, m_cardinalBlocked := m_cardinalBlocked m - 1\<rparr>)
          (changeProcessState pid READY s)" using release by simp
      then show ?thesis using s one il q release(1) by (simp add: mutex_inv_def mutex_ok_def table_ok_def)
    qed
  next
    case surroundings
    then show ?thesis using s by (simp add: mutex_inv_def table_ok_def)
  qed
qed

lemma mutual_exclusion_run:
  "(mutex_step i)\<^sup>*\<^sup>* (s, I) (t, I') \<Longrightarrow> i < MAX_MUTEXES \<Longrightarrow> mutex_inv i (s, I) \<Longrightarrow> mutex_inv i (t, I')"
proof (induction rule: rtranclp_induct2)
  case refl
  then show ?case by simp
next
  case (step u J v K)
  then show ?case using mutex_inv_step by blast
qed

section \<open>Starting up\<close>

definition clean :: "Mutex \<Rightarrow> Mutex" where
  "clean m = m\<lparr>m_used := False, m_name := NULL, m_cardinalBlocked := 0, m_mutex := 0,
     m_queue := clearArray MAX_BLOCKED_QUEUE_SIZE NO_BLOCKED_QUEUE_VALUE\<rparr>"

lemma mutex_ok_clean [simp]: "mutex_ok (clean m)"
  by (simp add: mutex_ok_def clean_def)

lemma initializeMutexes_loop_effect:
  "length (mutexes s) = MAX_MUTEXES \<Longrightarrow> i + left = MAX_MUTEXES \<Longrightarrow>
   initializeMutexes_loop left i s =
     s\<lparr>mutexes := take i (mutexes s) @ map clean (drop i (mutexes s))\<rparr>"
proof (induction left arbitrary: i s)
  case 0
  then show ?case by simp
next
  case (Suc left)
  then have i: "i < MAX_MUTEXES" "i < length (mutexes s)" by simp_all
  have c: "cleanMutex i s = s\<lparr>mutexes := (mutexes s)[i := clean (mutexes s ! i)]\<rparr>"
    using i by (simp add: cleanMutex_def upd_mutex_def clean_def)
  have "take (Suc i) ((mutexes s)[i := clean (mutexes s ! i)]) = take i (mutexes s) @ [clean (mutexes s ! i)]"
    using i(2) by (simp add: take_Suc_conv_app_nth)
  then show ?case
    using Suc.IH [of "cleanMutex i s" "Suc i"] Suc.prems i(2) by (simp add: c Cons_nth_drop_Suc [symmetric])
qed

lemma initializeMutexes_effect:
  assumes "length (mutexes s) = MAX_MUTEXES"
  shows "initializeMutexes s = s\<lparr>mutexes := (map clean (mutexes s))[0 := (clean (mutexes s ! 0))\<lparr>m_used := True\<rparr>],
    adminMutex := 0\<rparr>"
  using assms by (simp add: initializeMutexes_def initializeMutexes_loop_effect upd_mutex_def Let_def MAX_MUTEXES_def)

section \<open>The table of names\<close>

text \<open>The table while nobody works on it: the lock that protects it is free.\<close>

definition names_ok :: "'a msched_scheme \<Rightarrow> bool" where
  "names_ok s \<longleftrightarrow> table_ok s \<and> adminMutex s = 0 \<and> m_used (mutexes s ! 0) \<and> mutex_ok (mutexes s ! 0) \<and>
     m_mutex (mutexes s ! 0) = 0"

definition find_or_create :: "addr \<Rightarrow> 'a msched_scheme \<Rightarrow> int \<times> 'a msched_scheme" where
  "find_or_create a s = (let index = getIndex a s in if index = MUTEX_NOT_FOUND then createMutex a s else (index, s))"

definition named :: "'a msched_scheme \<Rightarrow> addr \<Rightarrow> Mutex \<Rightarrow> bool" where
  "named s a m \<longleftrightarrow> strs s (m_name m) = strs s a \<and> m_used m"

lemma getIndex_named: "getIndex a s = (case first_index (named s a) (mutexes s) of
    None \<Rightarrow> - 1 | Some i \<Rightarrow> int i)"
  by (auto simp: getIndex_def named_def [abs_def] MUTEX_NOT_FOUND_def split: option.splits)

lemma lock_admin:
  assumes "names_ok s"
  shows "lockMutex (adminMutex s) s = Done (upd_mutex 0 (\<lambda>m. m\<lparr>m_mutex := 1\<rparr>) s) ()"
  using lock_free_mutex [of s 0] assms by (simp add: names_ok_def MAX_MUTEXES_def)

lemma createMutex_effect:
  "createMutex a s = (case first_index (\<lambda>m. \<not> m_used m) (mutexes s) of None \<Rightarrow> (ERROR, s)
     | Some i \<Rightarrow> (int i, upd_mutex i (\<lambda>m. m\<lparr>m_used := True, m_name := a, m_pidCreator := getCurrentPid s\<rparr>) s))"
  by (auto simp: createMutex_def getFreeSpot_def NO_SPACE_LEFT_M_def split: option.splits)

lemma first_index_update:
  assumes "i < length xs" "P y \<longleftrightarrow> P (xs ! i)"
  shows "first_index P (xs[i := y]) = first_index P xs"
proof -
  have "P (xs[i := y] ! j) \<longleftrightarrow> P (xs ! j)" if "j < length xs" for j
    using assms that by (cases "j = i") auto
  then have "first_index P (xs[i := y]) = Some j \<longleftrightarrow> first_index P xs = Some j" for j
    by (auto simp: first_index_Some)
  then show ?thesis by (metis not_Some_eq)
qed

lemma upd_mutex_0_twice:
  "upd_mutex i f (upd_mutex i g s) = upd_mutex i (f \<circ> g) s" if "i < length (mutexes s)"
  using that by (simp add: upd_mutex_def)

lemma upd_mutex_commute: "i \<noteq> j \<Longrightarrow> upd_mutex i f (upd_mutex j g s) = upd_mutex j g (upd_mutex i f s)"
  by (simp add: upd_mutex_def list_update_swap)

lemma getMutex_effect:
  assumes "names_ok s"
  shows "getMutex a s = Done (snd (find_or_create a s)) (fst (find_or_create a s))"
    "names_ok (snd (find_or_create a s))"
proof -
  let ?l = "\<lambda>m::Mutex. m\<lparr>m_mutex := 1\<rparr>"
  let ?s1 = "upd_mutex 0 ?l s"
  have len: "0 < length (mutexes s)" "(0::nat) < MAX_MUTEXES"
    using assms by (simp_all add: names_ok_def table_ok_def MAX_MUTEXES_def)
  have idx: "getIndex a ?s1 = getIndex a s"
    unfolding getIndex_named using first_index_update [of 0 "mutexes s" "named s a" "?l (mutexes s ! 0)"] len(1)
    by (simp add: upd_mutex_def named_def [abs_def])
  have fs: "first_index (\<lambda>m. \<not> m_used m) (mutexes ?s1) = first_index (\<lambda>m. \<not> m_used m) (mutexes s)"
    using first_index_update [of 0 "mutexes s" "\<lambda>m. \<not> m_used m" "?l (mutexes s ! 0)"] len(1)
    by (simp add: upd_mutex_def)
  have nz: "i \<noteq> 0" if "first_index (\<lambda>m. \<not> m_used m) (mutexes s) = Some i" for i
    using that assms by (auto simp: first_index_Some names_ok_def intro!: gr0I)
  have fc: "find_or_create a ?s1 = (fst (find_or_create a s), upd_mutex 0 ?l (snd (find_or_create a s)))"
    using nz upd_mutex_commute [of _ 0]
    by (auto simp: find_or_create_def idx createMutex_effect fs Let_def split: option.splits)
  let ?r = "snd (find_or_create a s)"
  have r: "mutexes ?r ! 0 = mutexes s ! 0" "length (mutexes ?r) = length (mutexes s)" "adminMutex ?r = adminMutex s"
    using nz by (auto simp: find_or_create_def createMutex_effect Let_def split: option.splits)
  then show ok: "names_ok ?r" using assms by (simp add: names_ok_def table_ok_def)
  let ?s2 = "upd_mutex 0 ?l ?r"
  have m2: "mutexes ?s2 ! 0 = ?l (mutexes s ! 0)" using r len by simp
  have wz: "waiting (m_queue (mutexes s ! 0)) = {#}" "queue_ok (m_queue (mutexes s ! 0))"
    "m_cardinalBlocked (mutexes s ! 0) = 0" using assms by (auto simp: names_ok_def mutex_ok_def)
  have "freeMutex 0 ?s2 = Done (upd_mutex 0 (\<lambda>m. m\<lparr>m_mutex := 0\<rparr>) ?s2) ()"
    using free_mutex_nobody [of 0 ?s2] assms m2 wz len(2) by (simp add: mutex_ok_def names_ok_def)
  also have "upd_mutex 0 (\<lambda>m. m\<lparr>m_mutex := 0\<rparr>) ?s2 = ?r"
  proof -
    have "(\<lambda>m. m\<lparr>m_mutex := 0\<rparr>) (?l (mutexes ?r ! 0)) = mutexes ?r ! 0"
      using assms r(1) by (cases "mutexes s ! 0") (simp add: names_ok_def)
    then have "(mutexes ?r)[0 := (\<lambda>m. m\<lparr>m_mutex := 0\<rparr>) (?l (mutexes ?r ! 0))] = mutexes ?r"
      by simp
    moreover have "upd_mutex 0 (\<lambda>m. m\<lparr>m_mutex := 0\<rparr>) ?s2 =
        ?r\<lparr>mutexes := (mutexes ?r)[0 := (\<lambda>m. m\<lparr>m_mutex := 0\<rparr>) (?l (mutexes ?r ! 0))]\<rparr>"
      using r(2) len(1) by (simp add: upd_mutex_def)
    ultimately show ?thesis by simp
  qed
  finally have fr: "freeMutex 0 ?s2 = Done ?r ()" .
  have "adminMutex ?s2 = 0" using r(3) assms by (simp add: names_ok_def)
  with fr fc show "getMutex a s = Done ?r (fst (find_or_create a s))"
    by (simp add: getMutex_def lock_admin [OF assms] find_or_create_def [symmetric])
qed

lemma find_or_create_named:
  assumes "find_or_create a s = (i, t)" "0 \<le> i" "table_ok s"
  shows "i < int MAX_MUTEXES \<and> named t a (mutexes t ! nat i) \<and> strs t = strs s \<and>
    (\<forall>b. strs s b = strs s a \<longrightarrow> getIndex b t = i)"
proof (cases "first_index (named s a) (mutexes s)")
  case (Some j)
  then have "find_or_create a s = (int j, s)" by (simp add: find_or_create_def getIndex_named MUTEX_NOT_FOUND_def)
  then have ij: "i = int j" "t = s" using assms(1) by auto
  have "getIndex b s = int j" if "strs s b = strs s a" for b
  proof -
    have "named s b = named s a" using that by (intro ext) (simp add: named_def)
    then show ?thesis using Some unfolding getIndex_named by simp
  qed
  then show ?thesis using Some assms(3) by (simp add: ij first_index_Some table_ok_def)
next
  case None
  then have fc: "find_or_create a s = createMutex a s"
    by (simp add: find_or_create_def getIndex_named MUTEX_NOT_FOUND_def)
  with assms(1,2) obtain j where j: "first_index (\<lambda>m. \<not> m_used m) (mutexes s) = Some j" "i = int j"
    "t = upd_mutex j (\<lambda>m. m\<lparr>m_used := True, m_name := a, m_pidCreator := getCurrentPid s\<rparr>) s"
    by (auto simp: createMutex_effect ERROR_def split: option.splits)
  have jl: "j < length (mutexes s)" using j(1) by (simp add: first_index_Some)
  have "getIndex b t = int j" if b: "strs s b = strs s a" for b
  proof -
    have "first_index (named t b) (mutexes t) = Some j"
      using None jl b by (auto simp: first_index_Some first_index_None_nth named_def j(3))
    then show ?thesis by (simp add: getIndex_named)
  qed
  then show ?thesis using jl assms(3) by (simp add: j(2,3) named_def table_ok_def)
qed

section \<open>An example state\<close>

text \<open>
  The example process table with the mutexes of a kernel that has started; mutex 1 is held
  by the current process, mutex 2 is free. The strings at 50 and 60 are two names.
\<close>

definition ex_mutex :: "addr \<Rightarrow> int \<Rightarrow> Mutex" where
  "ex_mutex a l = (clean mutex_bss)\<lparr>m_used := True, m_name := a, m_mutex := l\<rparr>"

definition ex_strs :: "addr \<Rightarrow> cstring" where
  "ex_strs = (\<lambda>_. [])(50 := [97], 51 := [97], 60 := [98])"

definition ex_msched :: msched where
  "ex_msched = sched.extend ex_sched
     \<lparr>mutexes = ex_mutex 0 0 # ex_mutex 50 1 # ex_mutex 60 0 # replicate 97 (clean mutex_bss),
      adminMutex = 0, strs = ex_strs, console = [], junk = - 7\<rparr>"

lemma ex_msched_sched [simp]:
  "slots ex_msched = slots ex_sched" "procs ex_msched = procs ex_sched" "current ex_msched = current ex_sched"
  "cardinal_processes ex_msched = cardinal_processes ex_sched" "buddyArray ex_msched = buddyArray ex_sched"
  "thrs ex_msched = thrs ex_sched" "rsp ex_msched = rsp ex_sched" "cmem ex_msched = cmem ex_sched"
  "slot_proc ex_msched x = slot_proc ex_sched x" "getCurrentPid ex_msched = getCurrentPid ex_sched"
  "adminMutex ex_msched = 0" "strs ex_msched = ex_strs" "junk ex_msched = - 7"
  by (simp_all add: ex_msched_def sched.defs ex_sched_def slot_proc_def getCurrentPid_def)

lemma ex_msched_mutexes [simp]:
  "mutexes ex_msched = ex_mutex 0 0 # ex_mutex 50 1 # ex_mutex 60 0 # replicate 97 (clean mutex_bss)"
  by (simp add: ex_msched_def sched.defs)

lemma ex_pid [simp]: "getCurrentPid ex_sched = 0"
  by (simp add: getCurrentPid_def ex_sched_simps)

lemma ring_ex_msched: "ring ex_msched [100, 200, 300]"
  using ring_ex_sched by (simp add: ring_def)

lemma table_ok_ex: "table_ok ex_msched"
  by (simp add: table_ok_def MAX_MUTEXES_def)

lemma mutex_ok_ex [simp]: "mutex_ok (ex_mutex a l) \<longleftrightarrow> l = 0 \<or> l = 1" "m_used (ex_mutex a l)"
  "m_mutex (ex_mutex a l) = l" "m_name (ex_mutex a l) = a" "m_pidCreator (ex_mutex a l) = 0"
  by (auto simp: mutex_ok_def ex_mutex_def clean_def mutex_bss_def)

lemma names_ok_ex: "names_ok ex_msched"
  by (simp add: names_ok_def table_ok_ex)

section \<open>Properties\<close>

text \<open>
  C11: mutual exclusion, as long as only a process that is inside releases the mutex and no
  process asks for it while twenty others wait: however the processes are interleaved with each
  other and with the rest of the kernel, at most one of them is between \<open>lockMutex\<close> and
  \<open>freeMutex\<close>; the lock bit says whether there is one, and nobody waits for a free lock. A process
  that asks while twenty wait is put into no queue and keeps its state (the state of a process whose
  number is left in an uninitialised variable changes instead), and its call returns as if it
  had the mutex when it gets the processor again.
\<close>

theorem mutual_exclusion:
  assumes "i < MAX_MUTEXES" "table_ok s" "m_used (mutexes s ! i)" "mutex_ok (mutexes s ! i)"
    "m_mutex (mutexes s ! i) = 0" "(mutex_step i)\<^sup>*\<^sup>* (s, {#}) (t, inside)"
  shows "size inside \<le> 1 \<and> (inside = {#} \<longleftrightarrow> m_mutex (mutexes t ! i) = 0) \<and> mutex_ok (mutexes t ! i) \<and>
    (inside = {#} \<longrightarrow> waiting (m_queue (mutexes t ! i)) = {#}) \<and>
    (size (waiting (m_queue (mutexes t ! i))) = MAX_BLOCKED_QUEUE_SIZE \<longrightarrow>
      lockMutex (int i) t = yield_exec (changeProcessState (junk t) BLOCKED t))"
proof -
  have inv: "mutex_inv i (t, inside)"
    by (rule mutual_exclusion_run [OF assms(6,1)]) (use assms in \<open>simp add: mutex_inv_def\<close>)
  have "lockMutex (int i) t = yield_exec (changeProcessState (junk t) BLOCKED t)"
    if full: "size (waiting (m_queue (mutexes t ! i))) = MAX_BLOCKED_QUEUE_SIZE"
  proof (rule lock_full_mutex [OF assms(1)])
    have "waiting (m_queue (mutexes t ! i)) \<noteq> {#}" using full by (auto simp: MAX_BLOCKED_QUEUE_SIZE_def)
    then show "m_used (mutexes t ! i)" "m_mutex (mutexes t ! i) = 1" "isQueueFull i t"
      using inv full by (auto simp: mutex_inv_def mutex_ok_def isQueueFull_def)
  qed
  then show ?thesis using inv by (auto simp: mutex_inv_def mutex_ok_def)
qed

theorem mutual_exclusion_witness:
  "\<exists>t. lockMutex 2 ex_msched = Done t () \<and> mutex_ok (mutexes t ! 2) \<and> m_mutex (mutexes t ! 2) \<noteq> 0"
proof -
  let ?t = "upd_mutex 2 (\<lambda>m. m\<lparr>m_mutex := 1\<rparr>) ex_msched"
  have i: "(2::nat) < MAX_MUTEXES" by (simp add: MAX_MUTEXES_def)
  have l: "lockMutex (int 2) ex_msched = Done ?t ()"
    by (rule lock_free_mutex [OF table_ok_ex i]) simp_all
  then have "mutex_step 2 (ex_msched, {#}) (?t, {#0#})"
    using mutex_step.acquire [of ex_msched 2 ?t "{#}"] by simp
  then have "(mutex_step 2)\<^sup>*\<^sup>* (ex_msched, {#}) (?t, {#0#})" by blast
  with mutual_exclusion [OF i table_ok_ex _ _ _ this] l show ?thesis by simp
qed

text \<open>
  A release hands the lock over: when processes wait, exactly one of them is taken from
  the queue and made ready, the lock bit stays set, so that nobody else gets in before it;
  when nobody waits the bit is cleared and no process changes its state.
\<close>

theorem freeMutex_hands_over:
  assumes "ring s xs" "table_ok s" "i < MAX_MUTEXES" "m_used (mutexes s ! i)" "mutex_ok (mutexes s ! i)"
  shows "\<exists>t. freeMutex (int i) s = Done t () \<and> mutex_ok (mutexes t ! i) \<and> ring t xs \<and>
    (if waiting (m_queue (mutexes s ! i)) = {#}
     then m_mutex (mutexes t ! i) = 0 \<and> procs t = procs s
     else m_mutex (mutexes t ! i) = m_mutex (mutexes s ! i) \<and>
       (\<exists>pid. waiting (m_queue (mutexes s ! i)) = add_mset pid (waiting (m_queue (mutexes t ! i))) \<and>
          (\<forall>x \<in> set xs. slot_state t x = (if slot_pid s x = pid then READY else slot_state s x))))"
proof (cases "waiting (m_queue (mutexes s ! i)) = {#}")
  case True
  then show ?thesis
    using free_mutex_nobody [OF assms(3,4,5)] assms by (simp add: table_ok_def mutex_ok_def)
next
  case False
  obtain pid q where q: "queue_ok q" "waiting (m_queue (mutexes s ! i)) = add_mset pid (waiting q)"
    "freeMutex (int i) s = Done (upd_mutex i
       (\<lambda>m. m\<lparr>m_queue := q, m_cardinalBlocked := m_cardinalBlocked m - 1\<rparr>) (changeProcessState pid READY s)) ()"
    by (rule free_mutex_waiter [OF assms(2-5) False])
  have il: "i < length (mutexes s)" using assms(2,3) by (simp add: table_ok_def)
  let ?t = "upd_mutex i (\<lambda>m. m\<lparr>m_queue := q, m_cardinalBlocked := m_cardinalBlocked m - 1\<rparr>) (changeProcessState pid READY s)"
  have m: "mutexes ?t ! i = (mutexes s ! i)\<lparr>m_queue := q, m_cardinalBlocked := m_cardinalBlocked (mutexes s ! i) - 1\<rparr>"
    using il by simp
  have wq: "waiting (m_queue (mutexes ?t ! i)) = waiting q" unfolding m by simp
  have st: "\<forall>x \<in> set xs. slot_state ?t x = (if slot_pid s x = pid then READY else slot_state s x)"
    by (simp add: changeProcessState_state [OF assms(1)])
  have ok: "mutex_ok (mutexes ?t ! i)" "m_mutex (mutexes ?t ! i) = m_mutex (mutexes s ! i)"
    using assms(5) q(1,2) unfolding m by (auto simp: mutex_ok_def)
  have "ring ?t xs" using assms(1) by simp
  then show ?thesis
    unfolding if_not_P [OF False] using q(2,3) st ok wq by (intro exI [of _ ?t] conjI exI [of _ pid]) simp_all
qed

theorem freeMutex_hands_over_witness:
  "\<exists>t. freeMutex 1 ex_msched = Done t () \<and> m_mutex (mutexes t ! 1) = 0"
proof -
  have i: "(1::nat) < MAX_MUTEXES" by (simp add: MAX_MUTEXES_def)
  have "waiting (m_queue (mutexes ex_msched ! 1)) = {#}" by (simp add: ex_mutex_def clean_def)
  then show ?thesis using freeMutex_hands_over [OF ring_ex_msched table_ok_ex i] by auto
qed

text \<open>
  C12: a name stands for one mutex: when \<open>getMutex\<close> returns a mutex for a name, every later
  call with an equal string returns the same one, and no call with a different string does;
  the lock of the table is free again after each call.
\<close>

theorem getMutex_name_is_identity:
  assumes "names_ok s" "getMutex a s = Done t i" "0 \<le> i"
  shows "i < int MAX_MUTEXES \<and> names_ok t \<and> m_used (mutexes t ! nat i) \<and>
    (\<forall>b. \<exists>u j. getMutex b t = Done u j \<and> names_ok u \<and> (j = i \<longleftrightarrow> strs t b = strs t a))"
proof -
  note e = getMutex_effect [OF assms(1), of a]
  have foc: "find_or_create a s = (i, t)" using e(1) assms(2) by (simp add: prod_eq_iff)
  have tok: "names_ok t" "table_ok s" using e(2) foc assms(1) by (simp_all add: names_ok_def)
  note nm = find_or_create_named [OF foc assms(3) tok(2)]
  have "\<exists>u j. getMutex b t = Done u j \<and> names_ok u \<and> (j = i \<longleftrightarrow> strs t b = strs t a)" for b
  proof -
    note eb = getMutex_effect [OF tok(1), of b]
    obtain j u where fb: "find_or_create b t = (j, u)" by fastforce
    have "j = i" if "strs t b = strs t a"
    proof -
      have "getIndex b t = i" using nm that by simp
      then show ?thesis using fb assms(3) by (simp add: find_or_create_def MUTEX_NOT_FOUND_def)
    qed
    moreover have "j \<noteq> i" if "strs t b \<noteq> strs t a"
    proof
      assume j: "j = i"
      have tt: "table_ok t" using tok(1) by (simp add: names_ok_def)
      show False
      proof (cases "getIndex b t = MUTEX_NOT_FOUND")
        case True
        with fb j assms(3) obtain k where "first_index (\<lambda>m. \<not> m_used m) (mutexes t) = Some k" "i = int k"
          by (auto simp: find_or_create_def createMutex_effect ERROR_def split: option.splits)
        then show False using nm by (simp add: named_def first_index_Some)
      next
        case False
        then have "getIndex b t = i" using fb j by (auto simp: find_or_create_def Let_def)
        then have "named t b (mutexes t ! nat i)"
          using assms(3) by (auto simp: getIndex_named first_index_Some split: option.splits)
        with nm that show False unfolding named_def by metis
      qed
    qed
    ultimately show ?thesis using eb fb by auto
  qed
  with nm tok show ?thesis by (simp add: named_def)
qed

theorem getMutex_name_is_identity_witness:
  "\<exists>u. getMutex 51 ex_msched = Done u 1"
proof -
  have "named ex_msched 50 = (\<lambda>m. ex_strs (m_name m) = [97] \<and> m_used m)"
    by (simp add: named_def fun_eq_iff ex_strs_def)
  then have "getIndex 50 ex_msched = 1"
    by (simp add: getIndex_named first_index_def ex_strs_def)
  then have g: "getMutex 50 ex_msched = Done ex_msched 1"
    using getMutex_effect(1) [OF names_ok_ex, of 50] by (simp add: find_or_create_def MUTEX_NOT_FOUND_def)
  have "strs ex_msched 51 = strs ex_msched 50" by (simp add: ex_strs_def)
  then show ?thesis
    using getMutex_name_is_identity [OF names_ok_ex g] by (metis zero_le_one)
qed

text \<open>
  Closing a mutex that is locked loses it: the place is given to the next name with the
  lock bit still set, and the first process that locks the new mutex is blocked although
  nobody holds it.
\<close>

theorem closed_locked_mutex_is_reused_locked:
  assumes "ring s xs" "table_ok s" "i < MAX_MUTEXES" "m_used (mutexes s ! i)" "m_mutex (mutexes s ! i) = 1"
    "mutex_ok (mutexes s ! i)" "waiting (m_queue (mutexes s ! i)) = {#}"
    "getCurrentPid s = m_pidCreator (mutexes s ! i)" "getCurrentPid s \<noteq> - 1" "\<forall>j < i. m_used (mutexes s ! j)"
  shows "\<exists>t u v. closeMutex (int i) s = Some t \<and> createMutex a t = (int i, u) \<and>
    lockMutex (int i) u = yield_exec v \<and> current v = current s \<and> slot_state v (current v) = BLOCKED"
proof -
  have il: "i < length (mutexes s)" using assms(2,3) by (simp add: table_ok_def)
  define t where "t = upd_mutex i (\<lambda>m. m\<lparr>m_used := False\<rparr>) s"
  have t: "closeMutex (int i) s = Some t" using assms(3,4,8) by (simp add: closeMutex_def t_def)
  have "first_index (\<lambda>m. \<not> m_used m) (mutexes t) = Some i"
    using il assms(10) by (simp add: first_index_Some t_def)
  then obtain u where u: "createMutex a t = (int i, u)"
    "u = upd_mutex i (\<lambda>m. m\<lparr>m_used := True, m_name := a, m_pidCreator := getCurrentPid t\<rparr>) t"
    by (simp add: createMutex_effect)
  have m: "table_ok u" "m_used (mutexes u ! i)" "mutex_ok (mutexes u ! i)" "m_mutex (mutexes u ! i) = 1"
    "getCurrentPid u \<noteq> - 1" "\<not> isQueueFull i u" "ring u xs" "current u = current s"
    using assms il by (simp_all add: u(2) t_def table_ok_def mutex_ok_def isQueueFull_def MAX_BLOCKED_QUEUE_SIZE_def)
  obtain q where l: "lockMutex (int i) u = yield_exec (changeProcessState (getCurrentPid u) BLOCKED
      (upd_mutex i (\<lambda>m. m\<lparr>m_queue := q, m_cardinalBlocked := m_cardinalBlocked m + 1\<rparr>) u))"
    by (rule lock_taken_mutex [OF m(1) assms(3) m(2,3,4,6,5)])
  let ?w = "upd_mutex i (\<lambda>m. m\<lparr>m_queue := q, m_cardinalBlocked := m_cardinalBlocked m + 1\<rparr>) u"
  have rw: "ring ?w xs" using m(7) by simp
  have "current u \<in> set xs" using ringD(1,2) [OF m(7)] by (metis length_greater_0_conv nth_mem)
  moreover have "slot_pid u (current u) = getCurrentPid u" using ringD(3) [OF m(7)] by (simp add: getCurrentPid_def)
  ultimately have "slot_state (changeProcessState (getCurrentPid u) BLOCKED ?w) (current u) = BLOCKED"
    by (simp add: changeProcessState_state [OF rw])
  with t u(1) l m(8) show ?thesis by (auto simp del: upd_mutex_frame(5) intro!: exI)
qed

theorem closed_locked_mutex_is_reused_locked_witness:
  "\<exists>t u v. closeMutex 1 ex_msched = Some t \<and> createMutex 70 t = (1, u) \<and> lockMutex 1 u = yield_exec v \<and>
     slot_state v (current v) = BLOCKED"
proof -
  have i: "(1::nat) < MAX_MUTEXES" by (simp add: MAX_MUTEXES_def)
  have "waiting (m_queue (mutexes ex_msched ! 1)) = {#}" by (simp add: ex_mutex_def clean_def)
  from closed_locked_mutex_is_reused_locked [OF ring_ex_msched table_ok_ex i _ _ _ this, of 70]
  show ?thesis by fastforce
qed

end
