(* ===== verification/Semaphores.thy ===== *)
theory Semaphores
  imports Mutex
begin

text \<open>
  The counting semaphores of \<open>Kernel/semaphores.c\<close>: a table of names over the mutexes, a
  counter that goes below zero by the number of processes that wait, and the same queue of
  blocked processes that a mutex has. The lemmas show what \<open>wait\<close> and \<open>signal\<close> do to counter,
  queue and process states, and how creating a semaphore can leave its table locked.
\<close>

section \<open>State\<close>

record Semaphore =
  sem_used :: bool
  sem_name :: addr
  sem_queue :: "int list"
  sem_semaphore :: int
  sem_cardinalBlocked :: int
  sem_mutex :: int
  sem_pidCreator :: int

text \<open>\<open>sem_literal\<close> is the address of the string \<open>"semaphoreMutex"\<close> in the kernel.\<close>

record ssched = msched +
  semaphores :: "Semaphore list"
  semaphoreMutex :: int
  sem_literal :: addr

definition MAX_SEMAPHORES :: nat where "MAX_SEMAPHORES = MAX_MUTEXES div 2"
definition SEMAPHORE_NOT_FOUND :: int where "SEMAPHORE_NOT_FOUND = - 1"

definition upd_sem :: "nat \<Rightarrow> (Semaphore \<Rightarrow> Semaphore) \<Rightarrow> 'a ssched_scheme \<Rightarrow> 'a ssched_scheme" where
  "upd_sem i f s = s\<lparr>semaphores := (semaphores s)[i := f (semaphores s ! i)]\<rparr>"

section \<open>The table of semaphores\<close>

definition cleanSemaphore :: "nat \<Rightarrow> 'a ssched_scheme \<Rightarrow> 'a ssched_scheme" where
  "cleanSemaphore i s = upd_sem i (\<lambda>m. m\<lparr>sem_used := False, sem_semaphore := 0, sem_cardinalBlocked := 0,
     sem_queue := clearArray MAX_BLOCKED_QUEUE_SIZE NO_BLOCKED_QUEUE_VALUE\<rparr>) s"

fun initializeSemaphores_loop :: "nat \<Rightarrow> nat \<Rightarrow> 'a ssched_scheme \<Rightarrow> 'a ssched_scheme" where
  "initializeSemaphores_loop 0 i s = s"
| "initializeSemaphores_loop (Suc left) i s = initializeSemaphores_loop left (Suc i) (cleanSemaphore i s)"

definition initializeSemaphores :: "'a ssched_scheme \<Rightarrow> ('a ssched_scheme, unit) exec" where
  "initializeSemaphores s =
     bind_exec (getMutex (sem_literal s) (initializeSemaphores_loop MAX_SEMAPHORES 0 s))
       (\<lambda>s1 m. Done (s1\<lparr>semaphoreMutex := m\<rparr>) ())"

definition isValidSemaphore :: "int \<Rightarrow> 'a ssched_scheme \<Rightarrow> bool option" where
  "isValidSemaphore index s =
     (if index \<ge> int MAX_SEMAPHORES then Some False
      else if index < 0 then None else Some (sem_used (semaphores s ! nat index)))"

definition isSemaphoreQueueFull :: "nat \<Rightarrow> 'a ssched_scheme \<Rightarrow> bool" where
  "isSemaphoreQueueFull index s \<longleftrightarrow> sem_cardinalBlocked (semaphores s ! index) \<ge> int MAX_BLOCKED_QUEUE_SIZE"

definition getSemIndex :: "addr \<Rightarrow> 'a ssched_scheme \<Rightarrow> int" where
  "getSemIndex name s =
     (case first_index (\<lambda>m. strcmp (strs s (sem_name m)) (strs s name) = 0 \<and> sem_used m) (semaphores s) of
        None \<Rightarrow> SEMAPHORE_NOT_FOUND | Some i \<Rightarrow> int i)"

definition semOpen :: "addr \<Rightarrow> 'a ssched_scheme \<Rightarrow> int" where
  "semOpen name s = (let index = getSemIndex name s in if index = MUTEX_NOT_FOUND then ERROR else index)"

definition semClose :: "int \<Rightarrow> 'a ssched_scheme \<Rightarrow> 'a ssched_scheme option" where
  "semClose index s =
     (case isValidSemaphore index s of
        None \<Rightarrow> None
      | Some valid \<Rightarrow>
          if \<not> valid then Some s
          else if getCurrentPid s = sem_pidCreator (semaphores s ! nat index)
          then Some (upd_sem (nat index) (\<lambda>m. m\<lparr>sem_used := False\<rparr>) s) else Some s)"

definition getFreePositionSemaphores :: "'a ssched_scheme \<Rightarrow> int" where
  "getFreePositionSemaphores s =
     (case first_index (\<lambda>m. \<not> sem_used m) (semaphores s) of None \<Rightarrow> NO_SPACE_LEFT_M | Some i \<Rightarrow> int i)"

definition createSemaphore :: "addr \<Rightarrow> int \<Rightarrow> 'a ssched_scheme \<Rightarrow> ('a ssched_scheme, int) exec" where
  "createSemaphore semName start s =
     (let pid = getCurrentPid s; index = getFreePositionSemaphores s in
      if index = NO_SPACE_LEFT_M then Done s ERROR
      else
        bind_exec (getMutex semName (upd_sem (nat index) (\<lambda>m. m\<lparr>sem_used := True, sem_name := semName\<rparr>) s))
          (\<lambda>s1 mtx. Done (upd_sem (nat index)
             (\<lambda>m. m\<lparr>sem_mutex := mtx, sem_semaphore := start, sem_pidCreator := pid\<rparr>) s1) index))"

definition semCreate :: "addr \<Rightarrow> int \<Rightarrow> 'a ssched_scheme \<Rightarrow> ('a ssched_scheme, int) exec" where
  "semCreate name start s =
     bind_exec (lockMutex (semaphoreMutex s) s) (\<lambda>s1 _.
       if getSemIndex name s1 \<noteq> MUTEX_NOT_FOUND then Done s1 ERROR
       else bind_exec (createSemaphore name start s1) (\<lambda>s2 index.
         bind_exec (freeMutex (semaphoreMutex s2) s2) (\<lambda>s3 _. Done s3 index)))"

section \<open>Waiting and signalling\<close>

definition addToSemBlocked :: "nat \<Rightarrow> int \<Rightarrow> 'a ssched_scheme \<Rightarrow> 'a ssched_scheme" where
  "addToSemBlocked i pid s =
     (let index = getFreeSpotInBlockedQueue (sem_queue (semaphores s ! i)) MAX_BLOCKED_QUEUE_SIZE in
      if index = NO_SPACE_LEFT_M then ncPrint_str ''MUERTE3'' s
      else upd_sem i (\<lambda>m. m\<lparr>sem_queue := (sem_queue m)[nat index := pid],
             sem_cardinalBlocked := sem_cardinalBlocked m + 1\<rparr>) s)"

definition addToBlockedQueueSemaphore :: "nat \<Rightarrow> int \<Rightarrow> 'a ssched_scheme \<Rightarrow> 'a ssched_scheme" where
  "addToBlockedQueueSemaphore sem pid s =
     (let index = getFreeSpotInBlockedQueue (sem_queue (semaphores s ! sem)) MAX_BLOCKED_QUEUE_SIZE in
      if index = NO_SPACE_LEFT_M then ncPrint_str ''MUERTE2'' s
      else upd_sem sem (\<lambda>m. m\<lparr>sem_queue := (sem_queue m)[nat index := pid],
             sem_cardinalBlocked := sem_cardinalBlocked m + 1\<rparr>) s)"

definition wait :: "int \<Rightarrow> 'a ssched_scheme \<Rightarrow> ('a ssched_scheme, unit) exec" where
  "wait semaphore s =
     (case isValidSemaphore semaphore s of
        None \<Rightarrow> Fault
      | Some valid \<Rightarrow>
          if \<not> valid then Done s ()
          else
            let i = nat semaphore in
            bind_exec (lockMutex (sem_mutex (semaphores s ! i)) s) (\<lambda>s1 _.
              let s2 = upd_sem i (\<lambda>m. m\<lparr>sem_semaphore := sem_semaphore m - 1\<rparr>) s1 in
              if sem_semaphore (semaphores s2 ! i) \<ge> 0
              then freeMutex (sem_mutex (semaphores s2 ! i)) s2
              else
                let pid = getCurrentPid s2;
                    s3 = changeProcessState pid BLOCKED (addToSemBlocked i pid s2)
                in bind_exec (freeMutex (sem_mutex (semaphores s3 ! i)) s3) (\<lambda>s4 _. yield_exec s4)))"

definition unblockProcessSemaphore :: "nat \<Rightarrow> 'a ssched_scheme \<Rightarrow> 'a ssched_scheme" where
  "unblockProcessSemaphore sem s =
     (let q = sem_queue (semaphores s ! sem) in
      case first_index (\<lambda>x. x \<noteq> NO_BLOCKED_QUEUE_VALUE) (take MAX_BLOCKED_QUEUE_SIZE q) of
        None \<Rightarrow> s
      | Some i \<Rightarrow> upd_sem sem (\<lambda>m. m\<lparr>sem_queue := (sem_queue m)[i := NO_BLOCKED_QUEUE_VALUE]\<rparr>)
                    (changeProcessState (q ! i) READY s))"

definition signal :: "int \<Rightarrow> 'a ssched_scheme \<Rightarrow> 'a ssched_scheme option" where
  "signal semaphore s =
     (case isValidSemaphore semaphore s of
        None \<Rightarrow> None
      | Some valid \<Rightarrow>
          if \<not> valid then Some s
          else
            let i = nat semaphore;
                s1 = (if sem_cardinalBlocked (semaphores s ! i) > 0
                      then upd_sem i (\<lambda>m. m\<lparr>sem_cardinalBlocked := sem_cardinalBlocked m - 1\<rparr>)
                             (unblockProcessSemaphore i s)
                      else s)
            in Some (upd_sem i (\<lambda>m. m\<lparr>sem_semaphore := sem_semaphore m + 1\<rparr>) s1))"

section \<open>What belongs together\<close>

definition sem_ok :: "Semaphore \<Rightarrow> bool" where
  "sem_ok m \<longleftrightarrow> queue_ok (sem_queue m) \<and> sem_cardinalBlocked m = int (size (waiting (sem_queue m))) \<and>
     sem_cardinalBlocked m = max 0 (- sem_semaphore m)"

lemma upd_sem_frame [simp]:
  "slots (upd_sem i f s) = slots s" "procs (upd_sem i f s) = procs s" "current (upd_sem i f s) = current s"
  "cardinal_processes (upd_sem i f s) = cardinal_processes s"
  "slot_proc (upd_sem i f s) x = slot_proc s x" "getCurrentPid (upd_sem i f s) = getCurrentPid s"
  "adminMutex (upd_sem i f s) = adminMutex s" "strs (upd_sem i f s) = strs s" "mutexes (upd_sem i f s) = mutexes s"
  "semaphoreMutex (upd_sem i f s) = semaphoreMutex s"
  "length (semaphores (upd_sem i f s)) = length (semaphores s)" "ring (upd_sem i f s) xs = ring s xs"
  by (simp_all add: upd_sem_def slot_proc_def getCurrentPid_def ring_def)

lemma semaphores_upd [simp]:
  "i < length (semaphores s) \<Longrightarrow> semaphores (upd_sem i f s) ! i = f (semaphores s ! i)"
  "j \<noteq> i \<Longrightarrow> semaphores (upd_sem i f s) ! j = semaphores s ! j"
  "semaphores (upd_mutex k g s) = semaphores s" "semaphoreMutex (upd_mutex k g s) = semaphoreMutex s"
  by (simp_all add: upd_sem_def upd_mutex_def)

lemma changeProcessState_sem [frame, simp]:
  "semaphores (changeProcessState pid st s) = semaphores s"
  "semaphoreMutex (changeProcessState pid st s) = semaphoreMutex s"
  using changeProcessState_frame(11) [of pid st s]
  by (cases s; cases "changeProcessState pid st s"; simp)+

lemma upd_mutex_sem_commute: "upd_mutex j g (upd_sem i f s) = upd_sem i f (upd_mutex j g s)"
  by (simp add: upd_mutex_def upd_sem_def)

lemma addToSemBlocked_put:
  assumes "queue_ok (sem_queue (semaphores s ! i))" "queue_put (sem_queue (semaphores s ! i)) pid = Some q"
  shows "addToSemBlocked i pid s =
    upd_sem i (\<lambda>m. m\<lparr>sem_queue := q, sem_cardinalBlocked := sem_cardinalBlocked m + 1\<rparr>) s"
  using assms by (auto simp: addToSemBlocked_def queue_put_def Let_def upd_sem_def split: if_splits)

lemma unblock_sem_take:
  assumes "queue_take (sem_queue (semaphores s ! i)) = Some (pid, q)"
  shows "unblockProcessSemaphore i s = upd_sem i (\<lambda>m. m\<lparr>sem_queue := q\<rparr>) (changeProcessState pid READY s)"
  using assms by (auto simp: unblockProcessSemaphore_def queue_take_def Let_def upd_sem_def split: option.splits)

text \<open>A mutex that is locked and released within one call is as it was.\<close>

lemma lock_then_free:
  assumes "i < length (mutexes s)" "m_mutex (mutexes s ! i) = 0"
  shows "upd_mutex i (\<lambda>m. m\<lparr>m_mutex := 0\<rparr>) (upd_mutex i (\<lambda>m. m\<lparr>m_mutex := 1\<rparr>) s) = s"
proof -
  have "(mutexes s ! i)\<lparr>m_mutex := 0\<rparr> = mutexes s ! i" using assms(2) by (cases "mutexes s ! i") simp
  then show ?thesis using assms(1) by (simp add: upd_mutex_def)
qed

text \<open>The mutex \<open>k\<close> is in use, in order and free.\<close>

definition lock_free :: "int \<Rightarrow> 'a msched_scheme \<Rightarrow> bool" where
  "lock_free k s \<longleftrightarrow> table_ok s \<and> 0 \<le> k \<and> k < int MAX_MUTEXES \<and> m_used (mutexes s ! nat k) \<and>
     mutex_ok (mutexes s ! nat k) \<and> m_mutex (mutexes s ! nat k) = 0"

lemma lock_freeD:
  assumes "lock_free k s"
  shows "lockMutex k s = Done (upd_mutex (nat k) (\<lambda>m. m\<lparr>m_mutex := 1\<rparr>) s) ()"
    "nat k < MAX_MUTEXES" "nat k < length (mutexes s)" "m_used (mutexes s ! nat k)"
    "waiting (m_queue (mutexes s ! nat k)) = {#}" "queue_ok (m_queue (mutexes s ! nat k))"
  using assms lock_free_mutex [of s "nat k"]
  by (auto simp: lock_free_def table_ok_def mutex_ok_def)

text \<open>
  A call that takes a free mutex, changes nothing of the table and releases the mutex at
  its end leaves the table of mutexes as it was.
\<close>

lemma free_after_lock:
  assumes "lock_free k s" "mutexes u = mutexes (upd_mutex (nat k) (\<lambda>m. m\<lparr>m_mutex := 1\<rparr>) s)"
  shows "freeMutex k u = Done (upd_mutex (nat k) (\<lambda>m. m\<lparr>m_mutex := 0\<rparr>) u) ()"
    "mutexes (upd_mutex (nat k) (\<lambda>m. m\<lparr>m_mutex := 0\<rparr>) u) = mutexes s"
proof -
  note d = lock_freeD [OF assms(1)]
  have m: "mutexes u ! nat k = (mutexes s ! nat k)\<lparr>m_mutex := 1\<rparr>" using assms(2) d(3) by simp
  have k: "k = int (nat k)" using assms(1) by (simp add: lock_free_def)
  have "mutex_ok (mutexes u ! nat k)" using assms(1) d(5) unfolding m by (simp add: lock_free_def mutex_ok_def)
  with free_mutex_nobody [OF d(2), of u] d(4,5) k m
  show "freeMutex k u = Done (upd_mutex (nat k) (\<lambda>m. m\<lparr>m_mutex := 0\<rparr>) u) ()" by simp
  have "(mutexes s ! nat k)\<lparr>m_mutex := 0\<rparr> = mutexes s ! nat k"
    using assms(1) by (cases "mutexes s ! nat k") (simp add: lock_free_def)
  then show "mutexes (upd_mutex (nat k) (\<lambda>m. m\<lparr>m_mutex := 0\<rparr>) u) = mutexes s"
    using assms(2) d(3) by (simp add: upd_mutex_def)
qed

lemma current_state_change:
  assumes "ring s xs"
  shows "slot_state (changeProcessState (getCurrentPid s) st s) (current s) = st"
proof -
  have "current s \<in> set xs" using ringD(1,2) [OF assms] by (metis length_greater_0_conv nth_mem)
  moreover have "slot_pid s (current s) = getCurrentPid s" using ringD(3) [OF assms] by (simp add: getCurrentPid_def)
  ultimately show ?thesis by (simp add: changeProcessState_state [OF assms])
qed

lemma isValidSem_used [simp]: "i < MAX_SEMAPHORES \<Longrightarrow> isValidSemaphore (int i) s = Some (sem_used (semaphores s ! i))"
  by (simp add: isValidSemaphore_def)

definition sem_table_ok :: "'a ssched_scheme \<Rightarrow> bool" where
  "sem_table_ok s \<longleftrightarrow> length (semaphores s) = MAX_SEMAPHORES"

lemma sem_ok_alt: "sem_ok m \<longleftrightarrow> queue_ok (sem_queue m) \<and>
    sem_cardinalBlocked m = int (size (waiting (sem_queue m))) \<and>
    int (size (waiting (sem_queue m))) = max 0 (- sem_semaphore m)"
  by (auto simp: sem_ok_def)

section \<open>An example state\<close>

definition ex_sem :: "addr \<Rightarrow> int \<Rightarrow> int \<Rightarrow> Semaphore" where
  "ex_sem a n k = \<lparr>sem_used = True, sem_name = a, sem_queue = clearArray MAX_BLOCKED_QUEUE_SIZE NO_BLOCKED_QUEUE_VALUE,
     sem_semaphore = n, sem_cardinalBlocked = 0, sem_mutex = k, sem_pidCreator = 0\<rparr>"

definition ex_ssched :: ssched where
  "ex_ssched = msched.extend ex_msched
     \<lparr>semaphores = ex_sem 50 1 2 # replicate 49 ((ex_sem 0 0 0)\<lparr>sem_used := False\<rparr>), semaphoreMutex = 2, sem_literal = 60\<rparr>"

lemma ex_ssched_simps [simp]:
  "slots ex_ssched = slots ex_sched" "procs ex_ssched = procs ex_sched" "current ex_ssched = current ex_sched"
  "cardinal_processes ex_ssched = cardinal_processes ex_sched" "slot_proc ex_ssched x = slot_proc ex_sched x"
  "getCurrentPid ex_ssched = 0" "mutexes ex_ssched = mutexes ex_msched" "strs ex_ssched = ex_strs"
  "semaphores ex_ssched = ex_sem 50 1 2 # replicate 49 ((ex_sem 0 0 0)\<lparr>sem_used := False\<rparr>)"
  "semaphoreMutex ex_ssched = 2"
  by (simp_all add: ex_ssched_def msched.defs ex_msched_def sched.defs ex_sched_simps getCurrentPid_def)

lemma ring_ex_ssched: "ring ex_ssched [100, 200, 300]"
  using ring_ex_sched by (simp add: ring_def)

lemma sem_ok_ex: "sem_ok (ex_sem a 1 k)" "sem_mutex (ex_sem a n k) = k" "sem_used (ex_sem a n k)"
  "sem_semaphore (ex_sem a n k) = n" "waiting (sem_queue (ex_sem a n k)) = {#}"
  by (simp_all add: sem_ok_def ex_sem_def)

lemma sem_table_ok_ex: "sem_table_ok ex_ssched"
  by (simp add: sem_table_ok_def MAX_SEMAPHORES_def MAX_MUTEXES_def)

lemma lock_free_ex: "lock_free 2 ex_ssched"
  by (simp add: lock_free_def table_ok_def MAX_MUTEXES_def)

section \<open>What a call does to its semaphore\<close>

text \<open>
  The effect of \<open>wait\<close> and \<open>signal\<close> on the one semaphore they work on: whether the caller may go
  on, and which process is woken. This is what the programs that use a semaphore see.
\<close>

definition sem_acquire :: "int \<Rightarrow> Semaphore \<Rightarrow> bool \<times> Semaphore" where
  "sem_acquire pid m =
     (let m1 = m\<lparr>sem_semaphore := sem_semaphore m - 1\<rparr> in
      if sem_semaphore m1 \<ge> 0 then (True, m1)
      else case queue_put (sem_queue m1) pid of
        None \<Rightarrow> (False, m1)
      | Some q \<Rightarrow> (False, m1\<lparr>sem_queue := q, sem_cardinalBlocked := sem_cardinalBlocked m1 + 1\<rparr>))"

definition sem_release :: "Semaphore \<Rightarrow> int option \<times> Semaphore" where
  "sem_release m =
     (if sem_cardinalBlocked m > 0 then
        (case queue_take (sem_queue m) of
           None \<Rightarrow> (None, m\<lparr>sem_cardinalBlocked := sem_cardinalBlocked m - 1, sem_semaphore := sem_semaphore m + 1\<rparr>)
         | Some (pid, q) \<Rightarrow> (Some pid, m\<lparr>sem_queue := q, sem_cardinalBlocked := sem_cardinalBlocked m - 1,
             sem_semaphore := sem_semaphore m + 1\<rparr>))
      else (None, m\<lparr>sem_semaphore := sem_semaphore m + 1\<rparr>))"

lemma wait_effect:
  assumes "ring s xs" "sem_table_ok s" "i < MAX_SEMAPHORES" "sem_used (semaphores s ! i)" "sem_ok (semaphores s ! i)"
    "lock_free (sem_mutex (semaphores s ! i)) s" "size (waiting (sem_queue (semaphores s ! i))) < MAX_BLOCKED_QUEUE_SIZE"
    "getCurrentPid s \<noteq> - 1"
  shows "\<exists>t. wait (int i) s = (if 0 < sem_semaphore (semaphores s ! i) then Done t () else yield_exec t) \<and>
    sem_ok (semaphores t ! i) \<and> sem_semaphore (semaphores t ! i) = sem_semaphore (semaphores s ! i) - 1 \<and>
    mutexes t = mutexes s \<and> ring t xs \<and>
    (if 0 < sem_semaphore (semaphores s ! i)
     then waiting (sem_queue (semaphores t ! i)) = waiting (sem_queue (semaphores s ! i)) \<and> procs t = procs s
     else waiting (sem_queue (semaphores t ! i)) = add_mset (getCurrentPid s) (waiting (sem_queue (semaphores s ! i))) \<and>
       slot_state t (current s) = BLOCKED) \<and>
    sem_acquire (getCurrentPid s) (semaphores s ! i) = (0 < sem_semaphore (semaphores s ! i), semaphores t ! i)"
proof -
  let ?k = "sem_mutex (semaphores s ! i)"
  have il: "i < length (semaphores s)" using assms(2,3) by (simp add: sem_table_ok_def)
  define s1 where "s1 = upd_mutex (nat ?k) (\<lambda>m. m\<lparr>m_mutex := 1\<rparr>) s"
  define s2 where "s2 = upd_sem i (\<lambda>m. m\<lparr>sem_semaphore := sem_semaphore m - 1\<rparr>) s1"
  have l: "lockMutex ?k s = Done s1 ()" using lock_freeD(1) [OF assms(6)] by (simp add: s1_def)
  have e2: "semaphores s2 ! i = (semaphores s ! i)\<lparr>sem_semaphore := sem_semaphore (semaphores s ! i) - 1\<rparr>"
    using il by (simp add: s2_def s1_def)
  have il2: "i < length (semaphores s2)" using il by (simp add: s2_def s1_def)
  have w: "wait (int i) s = (if 0 < sem_semaphore (semaphores s ! i) then freeMutex ?k s2
      else let s3 = changeProcessState (getCurrentPid s) BLOCKED (addToSemBlocked i (getCurrentPid s) s2)
           in bind_exec (freeMutex (sem_mutex (semaphores s3 ! i)) s3) (\<lambda>s4 _. yield_exec s4))"
    using assms(3,4) e2 by (simp add: wait_def l s2_def [symmetric] Let_def) (simp add: s2_def s1_def)
  have mx: "mutexes s2 = mutexes (upd_mutex (nat ?k) (\<lambda>m. m\<lparr>m_mutex := 1\<rparr>) s)" by (simp add: s2_def s1_def)
  show ?thesis
  proof (cases "0 < sem_semaphore (semaphores s ! i)")
    case True
    let ?t = "upd_mutex (nat ?k) (\<lambda>m. m\<lparr>m_mutex := 0\<rparr>) s2"
    have "sem_ok (semaphores ?t ! i)" using assms(5) True e2 by (auto simp: sem_ok_alt max_def split: if_splits)
    moreover have "ring ?t xs" "procs ?t = procs s" using assms(1) by (simp_all add: s2_def s1_def)
    ultimately show ?thesis
      using w True free_after_lock [OF assms(6) mx] e2 by (intro exI [of _ ?t]) (simp add: sem_acquire_def Let_def)
  next
    case False
    have qok: "queue_ok (sem_queue (semaphores s2 ! i))" using assms(5) e2 by (simp add: sem_ok_def)
    obtain q where q: "queue_put (sem_queue (semaphores s2 ! i)) (getCurrentPid s) = Some q"
      using wq.put_room [OF qok] assms(7) e2 by auto
    have qa: "queue_ok q" "waiting q = add_mset (getCurrentPid s) (waiting (sem_queue (semaphores s ! i)))"
      using wq.put_adds [OF qok _ q] assms(8) e2 by (simp_all add: NO_BLOCKED_QUEUE_VALUE_def)
    define u where "u = upd_sem i (\<lambda>m. m\<lparr>sem_queue := q, sem_cardinalBlocked := sem_cardinalBlocked m + 1\<rparr>) s2"
    define s3 where "s3 = changeProcessState (getCurrentPid s) BLOCKED u"
    have e3: "semaphores s3 ! i = (semaphores s ! i)\<lparr>sem_semaphore := sem_semaphore (semaphores s ! i) - 1,
        sem_queue := q, sem_cardinalBlocked := sem_cardinalBlocked (semaphores s ! i) + 1\<rparr>"
      using il2 e2 by (simp add: s3_def u_def)
    have m3: "mutexes s3 = mutexes (upd_mutex (nat ?k) (\<lambda>m. m\<lparr>m_mutex := 1\<rparr>) s)" by (simp add: s3_def u_def mx)
    let ?t = "upd_mutex (nat ?k) (\<lambda>m. m\<lparr>m_mutex := 0\<rparr>) s3"
    have "wait (int i) s = yield_exec ?t"
      using w False free_after_lock(1) [OF assms(6) m3] e3
      by (simp add: addToSemBlocked_put [OF qok q] u_def [symmetric] s3_def [symmetric])
    moreover have "sem_ok (semaphores ?t ! i)" using assms(5) False e3 qa by (simp add: sem_ok_def)
    moreover have ru: "ring u xs" "getCurrentPid u = getCurrentPid s" "current u = current s"
      using assms(1) by (simp_all add: u_def s2_def s1_def)
    moreover have "slot_state ?t (current s) = BLOCKED"
      using current_state_change [OF ru(1), of BLOCKED] ru(2,3) by (simp add: s3_def)
    moreover have "ring ?t xs" using ru(1) by (simp add: s3_def)
    ultimately show ?thesis
      using False free_after_lock(2) [OF assms(6) m3] e3 qa q e2 by (intro exI [of _ ?t]) (simp add: sem_acquire_def Let_def)
  qed
qed

text \<open>With twenty processes in its queue the semaphore has no place for its caller.\<close>

lemma wait_full_effect:
  assumes "ring s xs" "sem_table_ok s" "i < MAX_SEMAPHORES" "sem_used (semaphores s ! i)" "sem_ok (semaphores s ! i)"
    "lock_free (sem_mutex (semaphores s ! i)) s" "size (waiting (sem_queue (semaphores s ! i))) = MAX_BLOCKED_QUEUE_SIZE"
  shows "\<exists>t. wait (int i) s = yield_exec t \<and> sem_semaphore (semaphores t ! i) = sem_semaphore (semaphores s ! i) - 1 \<and>
    mutexes t = mutexes s \<and> ring t xs \<and> slot_state t (current s) = BLOCKED \<and>
    sem_queue (semaphores t ! i) = sem_queue (semaphores s ! i) \<and>
    sem_cardinalBlocked (semaphores t ! i) = sem_cardinalBlocked (semaphores s ! i)"
proof -
  let ?k = "sem_mutex (semaphores s ! i)"
  have il: "i < length (semaphores s)" using assms(2,3) by (simp add: sem_table_ok_def)
  define s1 where "s1 = upd_mutex (nat ?k) (\<lambda>m. m\<lparr>m_mutex := 1\<rparr>) s"
  define s2 where "s2 = upd_sem i (\<lambda>m. m\<lparr>sem_semaphore := sem_semaphore m - 1\<rparr>) s1"
  define s3 where "s3 = ncPrint_str ''MUERTE3'' s2"
  have l: "lockMutex ?k s = Done s1 ()" using lock_freeD(1) [OF assms(6)] by (simp add: s1_def)
  have e2: "semaphores s2 ! i = (semaphores s ! i)\<lparr>sem_semaphore := sem_semaphore (semaphores s ! i) - 1\<rparr>"
    using il by (simp add: s2_def s1_def)
  have "queue_ok (sem_queue (semaphores s ! i))" using assms(5) by (simp add: sem_ok_def)
  then have "queue_put (sem_queue (semaphores s ! i)) (getCurrentPid s2) = None" by (rule wq.put_full [OF _ assms(7)])
  then have "getFreeSpotInBlockedQueue (sem_queue (semaphores s ! i)) MAX_BLOCKED_QUEUE_SIZE = NO_SPACE_LEFT_M"
    by (simp add: queue_put_def Let_def split: if_splits)
  then have add: "addToSemBlocked i (getCurrentPid s2) s2 = s3" by (simp add: addToSemBlocked_def e2 s3_def)
  have neg: "sem_semaphore (semaphores s ! i) \<le> 0"
    using assms(5,7) by (auto simp: sem_ok_alt max_def MAX_BLOCKED_QUEUE_SIZE_def split: if_splits)
  define s4 where "s4 = changeProcessState (getCurrentPid s2) BLOCKED s3"
  have e4: "semaphores s3 ! i = semaphores s2 ! i" "semaphores s4 ! i = semaphores s2 ! i"
    by (simp_all add: s4_def s3_def ncPrint_str_def)
  have m4: "mutexes s4 = mutexes (upd_mutex (nat ?k) (\<lambda>m. m\<lparr>m_mutex := 1\<rparr>) s)"
    by (simp add: s4_def s3_def s2_def s1_def ncPrint_str_def)
  let ?t = "upd_mutex (nat ?k) (\<lambda>m. m\<lparr>m_mutex := 0\<rparr>) s4"
  have "wait (int i) s = bind_exec (freeMutex (sem_mutex (semaphores s4 ! i)) s4) (\<lambda>s5 _. yield_exec s5)"
    using assms(3,4) e2 neg by (simp add: wait_def l s2_def [symmetric] Let_def add s4_def [symmetric] e4)
  then have "wait (int i) s = yield_exec ?t" using free_after_lock(1) [OF assms(6) m4] e4 e2 by simp
  moreover have r3: "ring s3 xs" "getCurrentPid s3 = getCurrentPid s2" "current s3 = current s"
    using assms(1) by (simp_all add: s3_def s2_def s1_def ncPrint_str_def ring_def slot_proc_def getCurrentPid_def)
  moreover have "slot_state ?t (current s) = BLOCKED"
    using current_state_change [OF r3(1), of BLOCKED] r3(2,3) by (simp add: s4_def)
  moreover have "ring ?t xs" using r3(1) by (simp add: s4_def)
  ultimately show ?thesis
    using free_after_lock(2) [OF assms(6) m4] e4 e2 by (intro exI [of _ ?t]) simp
qed

lemma signal_effect:
  assumes "ring s xs" "sem_table_ok s" "i < MAX_SEMAPHORES" "sem_used (semaphores s ! i)" "sem_ok (semaphores s ! i)"
  shows "\<exists>t. signal (int i) s = Some t \<and> sem_ok (semaphores t ! i) \<and>
    sem_semaphore (semaphores t ! i) = sem_semaphore (semaphores s ! i) + 1 \<and> mutexes t = mutexes s \<and>
    (if waiting (sem_queue (semaphores s ! i)) = {#} then procs t = procs s
     else \<exists>pid. waiting (sem_queue (semaphores s ! i)) = add_mset pid (waiting (sem_queue (semaphores t ! i))) \<and>
       (\<forall>x \<in> set xs. slot_state t x = (if slot_pid s x = pid then READY else slot_state s x)) \<and>
       sem_release (semaphores s ! i) = (Some pid, semaphores t ! i)) \<and>
    semaphores t ! i = snd (sem_release (semaphores s ! i))"
proof -
  let ?inc = "upd_sem i (\<lambda>m. m\<lparr>sem_semaphore := sem_semaphore m + 1\<rparr>)"
  have il: "i < length (semaphores s)" using assms(2,3) by (simp add: sem_table_ok_def)
  show ?thesis
  proof (cases "waiting (sem_queue (semaphores s ! i)) = {#}")
    case True
    then have "signal (int i) s = Some (?inc s)" using assms(3-5) by (simp add: signal_def sem_ok_def)
    moreover have "sem_ok (semaphores (?inc s) ! i)" using assms(5) True il by (auto simp: sem_ok_alt max_def split: if_splits)
    ultimately show ?thesis using True il assms(5) by (simp add: sem_release_def sem_ok_def)
  next
    case False
    have qok: "queue_ok (sem_queue (semaphores s ! i))" using assms(5) by (simp add: sem_ok_def)
    obtain pid q where q: "queue_take (sem_queue (semaphores s ! i)) = Some (pid, q)" "queue_ok q"
      "pid \<noteq> NO_BLOCKED_QUEUE_VALUE" "waiting (sem_queue (semaphores s ! i)) = add_mset pid (waiting q)"
      by (rule wq.take_nonempty [OF qok False])
    let ?t = "?inc (upd_sem i (\<lambda>m. m\<lparr>sem_cardinalBlocked := sem_cardinalBlocked m - 1\<rparr>)
      (upd_sem i (\<lambda>m. m\<lparr>sem_queue := q\<rparr>) (changeProcessState pid READY s)))"
    have pos: "sem_cardinalBlocked (semaphores s ! i) > 0" using assms(5) False q(4) by (simp add: sem_ok_def)
    have "signal (int i) s = Some ?t"
      using assms(3,4) pos by (simp add: signal_def unblock_sem_take [OF q(1)])
    moreover have e: "semaphores ?t ! i = (semaphores s ! i)\<lparr>sem_queue := q,
        sem_cardinalBlocked := sem_cardinalBlocked (semaphores s ! i) - 1,
        sem_semaphore := sem_semaphore (semaphores s ! i) + 1\<rparr>"
      using il by simp
    moreover have "sem_ok (semaphores ?t ! i)" using assms(5) pos q(2,4) unfolding e by (auto simp: sem_ok_def)
    moreover have "\<forall>x \<in> set xs. slot_state ?t x = (if slot_pid s x = pid then READY else slot_state s x)"
      by (simp add: changeProcessState_state [OF assms(1)])
    ultimately show ?thesis
      unfolding if_not_P [OF False] using q(1,4) pos by (intro exI [of _ ?t] conjI exI [of _ pid]) (simp_all add: sem_release_def)
  qed
qed

section \<open>Properties\<close>

text \<open>
  C13: \<open>wait\<close>, called while the mutex of the semaphore is free, takes one unit: with a positive
  counter it returns and nobody is blocked; else the caller is blocked and gives up the processor.
  The counter goes down by one, and the mutex is free again before the processor is given
  up. While fewer than twenty processes wait, a blocked caller is queued, and the number of waiting
  processes stays the negative part of the counter; with twenty the caller is blocked as well,
  but put into no queue, and the counter is one less than it says.
\<close>

theorem wait_takes_one_unit:
  assumes "ring s xs" "sem_table_ok s" "i < MAX_SEMAPHORES" "sem_used (semaphores s ! i)" "sem_ok (semaphores s ! i)"
    "lock_free (sem_mutex (semaphores s ! i)) s" "getCurrentPid s \<noteq> - 1"
  shows "\<exists>t. wait (int i) s = (if 0 < sem_semaphore (semaphores s ! i) then Done t () else yield_exec t) \<and>
    sem_semaphore (semaphores t ! i) = sem_semaphore (semaphores s ! i) - 1 \<and> mutexes t = mutexes s \<and> ring t xs \<and>
    (if 0 < sem_semaphore (semaphores s ! i)
     then waiting (sem_queue (semaphores t ! i)) = waiting (sem_queue (semaphores s ! i)) \<and> procs t = procs s
     else slot_state t (current s) = BLOCKED) \<and>
    (if size (waiting (sem_queue (semaphores s ! i))) < MAX_BLOCKED_QUEUE_SIZE
     then sem_ok (semaphores t ! i) \<and> (0 < sem_semaphore (semaphores s ! i) \<or>
       waiting (sem_queue (semaphores t ! i)) = add_mset (getCurrentPid s) (waiting (sem_queue (semaphores s ! i))))
     else waiting (sem_queue (semaphores t ! i)) = waiting (sem_queue (semaphores s ! i)) \<and> \<not> sem_ok (semaphores t ! i))"
proof (cases "size (waiting (sem_queue (semaphores s ! i))) < MAX_BLOCKED_QUEUE_SIZE")
  case True
  from wait_effect [OF assms(1-6) True assms(7)] show ?thesis unfolding if_P [OF True] by fastforce
next
  case False
  then have full: "size (waiting (sem_queue (semaphores s ! i))) = MAX_BLOCKED_QUEUE_SIZE"
    using wq.bounded [of "sem_queue (semaphores s ! i)"] assms(5) by (simp add: sem_ok_def)
  then have c: "sem_semaphore (semaphores s ! i) = - 20"
    using assms(5) by (auto simp: sem_ok_alt max_def MAX_BLOCKED_QUEUE_SIZE_def split: if_splits)
  show ?thesis unfolding if_not_P [OF False]
    using wait_full_effect [OF assms(1-6) full] full c by (auto simp: sem_ok_alt MAX_BLOCKED_QUEUE_SIZE_def)
qed

theorem wait_takes_one_unit_witness:
  "\<exists>t. wait 0 ex_ssched = Done t () \<and> sem_semaphore (semaphores t ! 0) = 0"
proof -
  have i: "(0::nat) < MAX_SEMAPHORES" by (simp add: MAX_SEMAPHORES_def MAX_MUTEXES_def)
  show ?thesis
    using wait_takes_one_unit [OF ring_ex_ssched sem_table_ok_ex i] sem_ok_ex lock_free_ex
    by (auto simp: MAX_BLOCKED_QUEUE_SIZE_def)
qed

text \<open>
  C14: \<open>signal\<close> gives one unit back: the counter goes up by one, and when processes wait
  exactly one of them leaves the queue and becomes ready; nothing else changes its state.
\<close>

theorem signal_wakes_one:
  assumes "ring s xs" "sem_table_ok s" "i < MAX_SEMAPHORES" "sem_used (semaphores s ! i)" "sem_ok (semaphores s ! i)"
  shows "\<exists>t. signal (int i) s = Some t \<and> sem_ok (semaphores t ! i) \<and>
    sem_semaphore (semaphores t ! i) = sem_semaphore (semaphores s ! i) + 1 \<and> mutexes t = mutexes s \<and>
    (if waiting (sem_queue (semaphores s ! i)) = {#} then procs t = procs s
     else \<exists>pid. waiting (sem_queue (semaphores s ! i)) = add_mset pid (waiting (sem_queue (semaphores t ! i))) \<and>
       (\<forall>x \<in> set xs. slot_state t x = (if slot_pid s x = pid then READY else slot_state s x)))"
proof -
  show ?thesis using signal_effect [OF assms] by (auto split: if_splits)
qed

theorem signal_wakes_one_witness:
  "\<exists>t. signal 0 ex_ssched = Some t \<and> sem_semaphore (semaphores t ! 0) = 2 \<and> procs t = procs ex_ssched"
proof -
  have i: "(0::nat) < MAX_SEMAPHORES" by (simp add: MAX_SEMAPHORES_def MAX_MUTEXES_def)
  show ?thesis
    using signal_wakes_one [OF ring_ex_ssched sem_table_ok_ex i] sem_ok_ex by auto
qed

text \<open>
  Creating a semaphore whose name is taken returns \<open>ERROR\<close> with the lock of the table
  still held: from then on no \<open>semCreate\<close> of any process gets through.
\<close>

theorem semCreate_of_known_name_locks_table:
  assumes "lock_free (semaphoreMutex s) s" "0 \<le> getCurrentPid s" "getSemIndex name s \<noteq> SEMAPHORE_NOT_FOUND"
  shows "\<exists>t. semCreate name start s = Done t ERROR \<and> m_mutex (mutexes t ! nat (semaphoreMutex s)) = 1 \<and>
    (\<forall>a n u r. semCreate a n t \<noteq> Done u r)"
proof -
  let ?k = "semaphoreMutex s"
  note d = lock_freeD [OF assms(1)]
  define t where "t = upd_mutex (nat ?k) (\<lambda>m. m\<lparr>m_mutex := 1\<rparr>) s"
  have "getSemIndex name t = getSemIndex name s" by (simp add: getSemIndex_def t_def)
  then have c: "semCreate name start s = Done t ERROR"
    using assms(3) d(1) by (simp add: semCreate_def t_def [symmetric] SEMAPHORE_NOT_FOUND_def MUTEX_NOT_FOUND_def)
  have k: "int (nat ?k) = ?k" using assms(1) by (simp add: lock_free_def)
  have "m_mutex (mutexes t ! nat ?k) = 1" using d(3) by (simp add: t_def)
  moreover have "table_ok t" "m_used (mutexes t ! nat ?k)" "mutex_ok (mutexes t ! nat ?k)" "0 \<le> getCurrentPid t"
    using assms(1,2) d(3,5) by (auto simp: t_def lock_free_def table_ok_def mutex_ok_def)
  ultimately have "lockMutex ?k t \<noteq> Done u ()" for u using lock_Done [OF _ d(2)] k by metis
  moreover have "semaphoreMutex t = ?k" by (simp add: t_def)
  ultimately have "semCreate a n t \<noteq> Done u r" for a n u r
    by (cases "lockMutex ?k t") (auto simp: semCreate_def)
  with c \<open>m_mutex (mutexes t ! nat ?k) = 1\<close> show ?thesis by blast
qed

theorem semCreate_of_known_name_locks_table_witness:
  "\<exists>t. semCreate 51 4 ex_ssched = Done t ERROR \<and> (\<forall>a n u r. semCreate a n t \<noteq> Done u r)"
proof -
  have "getSemIndex 51 ex_ssched \<noteq> SEMAPHORE_NOT_FOUND"
    by (simp add: getSemIndex_def first_index_def ex_strs_def ex_sem_def SEMAPHORE_NOT_FOUND_def)
  then show ?thesis
    using semCreate_of_known_name_locks_table [of ex_ssched 51 4] lock_free_ex by auto
qed

end
