(* ===== verification/IPC.thy ===== *)
theory IPC
  imports Semaphores Ring
begin

text \<open>
  Pipes between processes, \<open>Kernel/IPC.c\<close>: a table of names, and in the pages of the process
  that creates a pipe its descriptor, a buffer of ten bytes and two arrays of processes.
  Descriptors are read through a memory view, buffers and arrays of \<open>int\<close> in byte memory.
  The lemmas show that a pipe hands bytes over first in, first out; that its table cannot
  be used as the kernel starts it; and what writing nothing does to an empty pipe.
\<close>

section \<open>State\<close>

record Pipe =
  pi_name :: addr
  pi_position :: int
  pi_end :: int
  pi_creator :: int
  pi_pipePids :: addr
  pi_blocked :: addr
  pi_cardinalBlocked :: int
  pi_connected :: int
  pi_pipe :: addr
  pi_readFlag :: int
  pi_mutex :: int

text \<open>\<open>newline_literal\<close> and \<open>ipc_literal\<close> are the addresses of \<open>"/n"\<close> and \<open>"ipcAdminMutex"\<close>.\<close>

record isched = ssched +
  pipeNames :: "addr list"
  pipes_table :: "addr list"
  lastPipeName :: int
  ipcAdminMutex :: int
  pipe_at :: "addr \<Rightarrow> Pipe"
  newline_literal :: addr
  ipc_literal :: addr

definition MAX_PIPES :: nat where "MAX_PIPES = 50"
definition NO_SPACE_LEFT :: int where "NO_SPACE_LEFT = - 1"
definition PIPE_NOT_FOUND :: int where "PIPE_NOT_FOUND = - 2"

definition upd_pipe :: "addr \<Rightarrow> (Pipe \<Rightarrow> Pipe) \<Rightarrow> 'a isched_scheme \<Rightarrow> 'a isched_scheme" where
  "upd_pipe p f s = s\<lparr>pipe_at := (pipe_at s)(p := f (pipe_at s p))\<rparr>"

definition store_byte :: "addr \<Rightarrow> byte \<Rightarrow> 'a sched_scheme \<Rightarrow> 'a sched_scheme" where
  "store_byte a c s = s\<lparr>cmem := (cmem s)(a := c)\<rparr>"

definition store_int :: "addr \<Rightarrow> int \<Rightarrow> 'a sched_scheme \<Rightarrow> 'a sched_scheme" where
  "store_int a v s = s\<lparr>cmem := st32 a v (cmem s)\<rparr>"

text \<open>An element of one of the global arrays; \<open>None\<close> outside of it.\<close>

definition at :: "'b list \<Rightarrow> int \<Rightarrow> 'b option" where
  "at xs i = (if 0 \<le> i \<and> i < int (length xs) then Some (xs ! nat i) else None)"

section \<open>Names\<close>

definition initializePipes :: "'a isched_scheme \<Rightarrow> ('a isched_scheme, unit) exec" where
  "initializePipes s =
     bind_exec (getMutex (ipc_literal s)
        (s\<lparr>pipeNames := replicate MAX_PIPES (newline_literal s), pipes_table := replicate MAX_PIPES NULL\<rparr>))
       (\<lambda>s1 m. Done (s1\<lparr>ipcAdminMutex := m\<rparr>) ())"

definition getPipeNameIndex :: "addr \<Rightarrow> 'a isched_scheme \<Rightarrow> int" where
  "getPipeNameIndex name s =
     (case first_index (\<lambda>n. strcmp (strs s n) (strs s name) = 0) (pipeNames s) of
        None \<Rightarrow> PIPE_NOT_FOUND | Some i \<Rightarrow> int i)"

definition openPipe :: "addr \<Rightarrow> 'a isched_scheme \<Rightarrow> ('a isched_scheme, addr) exec" where
  "openPipe name s =
     bind_exec (lockMutex (ipcAdminMutex s) s) (\<lambda>s1 _.
       let i = getPipeNameIndex name s1 in
       if i = PIPE_NOT_FOUND then Done s1 NULL
       else
         let p = pipes_table s1 ! nat i;
             s2 = store_int (pi_pipePids (pipe_at s1 p) + nat (pi_connected (pipe_at s1 p)) * sizeof_int) (getCurrentPid s1) s1;
             s3 = upd_pipe p (\<lambda>q. q\<lparr>pi_connected := pi_connected q + 1\<rparr>) s2
         in bind_exec (freeMutex (ipcAdminMutex s3) s3) (\<lambda>s4 _. Done s4 (pipes_table s4 ! nat i)))"

section \<open>Writing and reading\<close>

definition next_byte :: "addr \<Rightarrow> addr \<Rightarrow> 'a isched_scheme \<Rightarrow> addr" where
  "next_byte aux p s =
     (if aux + 1 = pi_pipe (pipe_at s p) + PIPE_LENGTH then pi_pipe (pipe_at s p) else aux + 1)"

fun unlockProcesses_wake :: "nat \<Rightarrow> nat \<Rightarrow> addr \<Rightarrow> 'a isched_scheme \<Rightarrow> 'a isched_scheme" where
  "unlockProcesses_wake 0 j p s = s"
| "unlockProcesses_wake (Suc left) j p s =
     unlockProcesses_wake left (Suc j) p
       (changeProcessState (ld32 (cmem s) (pi_blocked (pipe_at s p) + j * sizeof_int)) READY s)"

text \<open>The search of \<open>unlockProcesses\<close>: the index of a name, \<open>None\<close> beyond the table.\<close>

fun unlockProcesses_loop :: "nat \<Rightarrow> nat \<Rightarrow> addr \<Rightarrow> 'a isched_scheme \<Rightarrow> 'a isched_scheme option" where
  "unlockProcesses_loop 0 i name s = Some s"
| "unlockProcesses_loop (Suc left) i name s =
     (case at (pipeNames s) (int i) of
        None \<Rightarrow> None
      | Some n \<Rightarrow>
          if strcmp (strs s n) (strs s name) = 0 then
            let pi = pipes_table s ! i;
                s1 = unlockProcesses_wake (nat (pi_cardinalBlocked (pipe_at s pi))) 0 pi s
            in Some (upd_pipe pi (\<lambda>q. q\<lparr>pi_cardinalBlocked := 0\<rparr>) s1)
          else unlockProcesses_loop left (Suc i) name s)"

definition unlockProcesses :: "addr \<Rightarrow> 'a isched_scheme \<Rightarrow> 'a isched_scheme option" where
  "unlockProcesses name s = unlockProcesses_loop (nat (lastPipeName s)) 0 name s"

text \<open>
  The copying loop of \<open>write\<close>, with one unit of fuel per byte: it stops at the end of the
  message or when the buffer is full, after at most \<open>PIPE_LENGTH\<close> bytes; \<open>None\<close> would be a
  loop that goes on.
\<close>

fun write_loop :: "nat \<Rightarrow> addr \<Rightarrow> addr \<Rightarrow> addr \<Rightarrow> int \<Rightarrow> 'a isched_scheme \<Rightarrow> (int \<times> 'a isched_scheme) option" where
  "write_loop fuel p aux cur bytes s =
     (if cmem s cur \<noteq> 0 \<and>
         ((pi_end (pipe_at s p) + bytes) smod int PIPE_LENGTH \<noteq> pi_position (pipe_at s p) \<or> bytes = 0)
      then case fuel of 0 \<Rightarrow> None
        | Suc fuel' \<Rightarrow> (let s1 = store_byte aux (cmem s cur) s
                        in write_loop fuel' p (next_byte aux p s1) (cur + 1) (bytes + 1) s1)
      else Some (bytes, s))"

declare write_loop.simps [simp del]

definition write_pipe :: "addr \<Rightarrow> addr \<Rightarrow> 'a isched_scheme \<Rightarrow> ('a isched_scheme, int) exec" where
  "write_pipe p message s =
     (let aux = pi_pipe (pipe_at s p) + nat (pi_end (pipe_at s p)) in
      bind_exec (lockMutex (pi_mutex (pipe_at s p)) s) (\<lambda>s1 _.
        if pi_position (pipe_at s1 p) = pi_end (pipe_at s1 p) \<and> pi_readFlag (pipe_at s1 p) = 1 then
          bind_exec (freeMutex (pi_mutex (pipe_at s1 p)) (changeProcessState (getCurrentPid s1) BLOCKED s1))
            (\<lambda>s2 _. Done s2 0)
        else
          case write_loop PIPE_LENGTH p aux message 0 s1 of None \<Rightarrow> Fault
          | Some (bytes, s2) \<Rightarrow>
              let s3 = upd_pipe p (\<lambda>q. q\<lparr>pi_end := (pi_end q + bytes) smod int PIPE_LENGTH\<rparr>) s2;
                  s4 = (if pi_end (pipe_at s3 p) = pi_position (pipe_at s3 p)
                        then upd_pipe p (\<lambda>q. q\<lparr>pi_readFlag := 1\<rparr>) s3 else s3)
              in case unlockProcesses (pi_name (pipe_at s4 p)) s4 of None \<Rightarrow> Fault
                 | Some s5 \<Rightarrow> bind_exec (freeMutex (pi_mutex (pipe_at s5 p)) s5) (\<lambda>s6 _. Done s6 bytes)))"

text \<open>The copying loop of \<open>read\<close>, over the iterations that \<open>bytes\<close> leaves.\<close>

fun read_loop :: "nat \<Rightarrow> addr \<Rightarrow> addr \<Rightarrow> addr \<Rightarrow> int \<Rightarrow> 'a isched_scheme \<Rightarrow> int \<times> 'a isched_scheme" where
  "read_loop 0 p aux result i s = (i, s)"
| "read_loop (Suc left) p aux result i s =
     (if (i + pi_position (pipe_at s p)) smod int PIPE_LENGTH \<noteq> pi_end (pipe_at s p) \<or> i = 0
      then let s1 = store_byte (result + nat i) (cmem s aux) s
           in read_loop left p (next_byte aux p s1) result (i + 1) s1
      else (i, s))"

definition read_pipe :: "addr \<Rightarrow> addr \<Rightarrow> int \<Rightarrow> 'a isched_scheme \<Rightarrow> ('a isched_scheme, int) exec" where
  "read_pipe p result bytes s =
     (let aux = pi_pipe (pipe_at s p) + nat (pi_position (pipe_at s p)) in
      bind_exec (lockMutex (pi_mutex (pipe_at s p)) s) (\<lambda>s1 _.
        if pi_position (pipe_at s1 p) = pi_end (pipe_at s1 p) \<and> pi_readFlag (pipe_at s1 p) = 0 then
          let currentPid = getCurrentPid s1;
              s2 = changeProcessState currentPid BLOCKED s1;
              s3 = store_int (pi_blocked (pipe_at s2 p) + nat (pi_cardinalBlocked (pipe_at s2 p)) * sizeof_int) currentPid s2;
              s4 = upd_pipe p (\<lambda>q. q\<lparr>pi_cardinalBlocked := pi_cardinalBlocked q + 1\<rparr>) s3
          in bind_exec (freeMutex (pi_mutex (pipe_at s4 p)) s4) (\<lambda>s5 _. bind_exec (yield_exec s5) (\<lambda>s6 _. Done s6 0))
        else
          let n = (if bytes = - 1 then int PIPE_LENGTH else bytes);
              (i, s2) = read_loop (nat n) p aux result 0 s1;
              s3 = upd_pipe p (\<lambda>q. q\<lparr>pi_position := (pi_position q + i) smod int PIPE_LENGTH, pi_readFlag := 0\<rparr>) s2
          in bind_exec (freeMutex (pi_mutex (pipe_at s3 p)) s3) (\<lambda>s4 _. Done s4 i)))"

section \<open>Creating and closing\<close>

definition getMiddleSpace :: "int \<Rightarrow> 'a isched_scheme \<Rightarrow> int" where
  "getMiddleSpace pid s =
     (case first_index (\<lambda>n. n = NULL) (pipeNames s) of None \<Rightarrow> NO_SPACE_LEFT | Some i \<Rightarrow> int i)"

definition getIndexForPipeStructure :: "addr \<Rightarrow> 'a isched_scheme \<Rightarrow> int \<times> 'a isched_scheme" where
  "getIndexForPipeStructure pro s =
     (let current = p_pipesOpened (procs s pro); occupied = p_occupiedPosition (procs s pro) in
      if current > int MAX_PROCESS_PIPES \<or> ld32 (cmem s) (occupied + nat current * sizeof_int) = 1 then
        (case first_index (\<lambda>i. ld32 (cmem s) (occupied + i * sizeof_int) = 0) [0..<MAX_PROCESS_PIPES] of
           None \<Rightarrow> (NO_SPACE_LEFT, s)
         | Some i \<Rightarrow> (int i, upd_proc pro (\<lambda>q. q\<lparr>p_pipesOpened := int i + 1\<rparr>) s))
      else (current, upd_proc pro (\<lambda>q. q\<lparr>p_pipesOpened := p_pipesOpened q + 1\<rparr>) s))"

text \<open>The offsets into the arrays of processes are in bytes (\<open>sizeof(char)\<close>), as in the code.\<close>

definition createPipeStruct :: "addr \<Rightarrow> addr \<Rightarrow> 'a isched_scheme \<Rightarrow> addr \<times> 'a isched_scheme" where
  "createPipeStruct pro name s =
     (let (index, s1) = getIndexForPipeStructure pro s in
      if index = NO_SPACE_LEFT then (NULL, s1)
      else
        let i = nat index; q = procs s1 pro;
            s2 = store_int (p_occupiedPosition q + i * sizeof_int) 1 s1;
            p = p_pipesStruct q + i * sizeof_Pipe;
            s3 = upd_pipe p (\<lambda>x. x\<lparr>pi_name := name, pi_end := 0, pi_readFlag := 0, pi_connected := 1,
                   pi_creator := p_pid q, pi_pipePids := p_pipePids q + i * MAX_PROCESS_PIPES,
                   pi_blocked := p_blocked q + i * MAX_PROCESS_PIPES, pi_position := 0, pi_cardinalBlocked := 0,
                   pi_pipe := p_pipes q + i * PIPE_LENGTH\<rparr>) s2;
            s4 = store_int (p_pipePids q + i * MAX_PROCESS_PIPES) (p_pid q) s3
        in (p, upd_proc pro (\<lambda>x. x\<lparr>p_pipesOpened := 0\<rparr>) s4))"

definition createPipe :: "addr \<Rightarrow> 'a isched_scheme \<Rightarrow> ('a isched_scheme, addr) exec" where
  "createPipe name s =
     bind_exec (lockMutex (ipcAdminMutex s) s) (\<lambda>s1 _.
       let pid = getCurrentPid s1 in
       case (if lastPipeName s1 \<ge> int MAX_PIPES then Some True
             else map_option (\<lambda>n. n \<noteq> NULL) (at (pipeNames s1) (lastPipeName s1))) of
         None \<Rightarrow> Fault
       | Some taken \<Rightarrow>
           let s2 = (if taken then s1\<lparr>lastPipeName := getMiddleSpace pid s1\<rparr> else s1) in
           if taken \<and> lastPipeName s2 = NO_SPACE_LEFT then Done s2 NULL
           else if name = NULL then Done s2 NULL
           else
             let p = getProcessById pid s2 in
             if p = NULL then Done s2 NULL
             else
               let (pipe, s3) = createPipeStruct p name s2 in
               bind_exec (getMutex name s3) (\<lambda>s4 m.
                 let s5 = upd_pipe pipe (\<lambda>x. x\<lparr>pi_mutex := m\<rparr>) s4 in
                 if lastPipeName s5 < 0 \<or> lastPipeName s5 \<ge> int MAX_PIPES then Fault
                 else
                   let i = nat (lastPipeName s5);
                       s6 = s5\<lparr>pipeNames := (pipeNames s5)[i := name], pipes_table := (pipes_table s5)[i := pipe],
                               lastPipeName := lastPipeName s5 + 1\<rparr>
                   in bind_exec (freeMutex (ipcAdminMutex s6) s6) (\<lambda>s7 _. Done s7 pipe)))"

partial_function (option) freeSpace_loop :: "addr \<Rightarrow> addr \<Rightarrow> nat \<Rightarrow> 'a isched_scheme \<Rightarrow> nat option" where
  "freeSpace_loop name pro i s =
     (if strcmp (strs s (pi_name (pipe_at s (p_pipesStruct (procs s pro) + i * sizeof_Pipe)))) (strs s name) \<noteq> 0
      then freeSpace_loop name pro (i + 1) s else Some i)"

definition freeSpace :: "addr \<Rightarrow> addr \<Rightarrow> 'a isched_scheme \<Rightarrow> 'a isched_scheme option" where
  "freeSpace name pro s =
     map_option (\<lambda>i. store_int (p_occupiedPosition (procs s pro) + i * sizeof_int) 0 s) (freeSpace_loop name pro 0 s)"

definition closePipe :: "addr \<Rightarrow> 'a isched_scheme \<Rightarrow> 'a isched_scheme option" where
  "closePipe pipe s =
     (let currentPid = getCurrentPid s; i = getPipeNameIndex (pi_name (pipe_at s pipe)) s in
      if i = PIPE_NOT_FOUND then Some s
      else
        let pro = getProcessById (pi_creator (pipe_at s pipe)) s in
        if p_pid (procs s pro) = currentPid then
          let auxName = pi_name (pipe_at s (pipes_table s ! nat i));
              s1 = s\<lparr>pipes_table := (pipes_table s)[nat i := NULL]\<rparr>
          in freeSpace auxName pro s1
        else Some s)"

section \<open>What the operations leave alone\<close>

lemma isched_more_eqD:
  assumes "sched.more t = sched.more s"
  shows "pipeNames t = pipeNames s" "pipes_table t = pipes_table s" "lastPipeName t = lastPipeName s"
    "ipcAdminMutex t = ipcAdminMutex s" "pipe_at t = pipe_at s"
  using assms by (cases s; cases t; simp)+

lemmas changeProcessState_isched [frame, simp] = isched_more_eqD [OF changeProcessState_frame(11)]

lemma store_byte_frame [simp]:
  "slots (store_byte a c s) = slots s" "procs (store_byte a c s) = procs s" "current (store_byte a c s) = current s"
  "cardinal_processes (store_byte a c s) = cardinal_processes s" "slot_proc (store_byte a c s) x = slot_proc s x"
  "getCurrentPid (store_byte a c s) = getCurrentPid s" "cmem (store_byte a c s) = (cmem s)(a := c)"
  "ring (store_byte a c s) xs = ring s xs" "sched.more (store_byte a c s) = sched.more s"
  by (simp_all add: store_byte_def slot_proc_def getCurrentPid_def ring_def)

lemma store_int_frame [simp]:
  "slots (store_int a c s) = slots s" "procs (store_int a c s) = procs s" "current (store_int a c s) = current s"
  "cardinal_processes (store_int a c s) = cardinal_processes s" "slot_proc (store_int a c s) x = slot_proc s x"
  "getCurrentPid (store_int a c s) = getCurrentPid s" "cmem (store_int a c s) = st32 a c (cmem s)"
  "ring (store_int a c s) xs = ring s xs" "sched.more (store_int a c s) = sched.more s"
  by (simp_all add: store_int_def slot_proc_def getCurrentPid_def ring_def)

lemmas store_more [simp] = more_eqD [OF store_byte_frame(9)] more_eqD [OF store_int_frame(9)]
  isched_more_eqD [OF store_byte_frame(9)] isched_more_eqD [OF store_int_frame(9)]

lemma upd_pipe_frame [simp]:
  "slots (upd_pipe p f s) = slots s" "procs (upd_pipe p f s) = procs s" "current (upd_pipe p f s) = current s"
  "cardinal_processes (upd_pipe p f s) = cardinal_processes s" "slot_proc (upd_pipe p f s) x = slot_proc s x"
  "getCurrentPid (upd_pipe p f s) = getCurrentPid s" "cmem (upd_pipe p f s) = cmem s"
  "mutexes (upd_pipe p f s) = mutexes s" "strs (upd_pipe p f s) = strs s"
  "pipeNames (upd_pipe p f s) = pipeNames s" "lastPipeName (upd_pipe p f s) = lastPipeName s"
  "pipes_table (upd_pipe p f s) = pipes_table s" "ipcAdminMutex (upd_pipe p f s) = ipcAdminMutex s"
  "ring (upd_pipe p f s) xs = ring s xs"
  "pipe_at (upd_pipe p f s) = (pipe_at s)(p := f (pipe_at s p))"
  by (simp_all add: upd_pipe_def slot_proc_def getCurrentPid_def ring_def)

lemma upd_mutex_isched [simp]:
  "pipeNames (upd_mutex i f s) = pipeNames s" "pipes_table (upd_mutex i f s) = pipes_table s"
  "lastPipeName (upd_mutex i f s) = lastPipeName s" "ipcAdminMutex (upd_mutex i f s) = ipcAdminMutex s"
  "pipe_at (upd_mutex i f s) = pipe_at s"
  by (simp_all add: upd_mutex_def)

section \<open>The content of a pipe\<close>

definition pipe_count :: "Pipe \<Rightarrow> nat" where
  "pipe_count q = (if pi_position q = pi_end q then if pi_readFlag q = 1 then 10 else 0
     else nat ((pi_end q - pi_position q) mod 10))"

definition pipe_ok :: "Pipe \<Rightarrow> bool" where
  "pipe_ok q \<longleftrightarrow> 0 \<le> pi_position q \<and> pi_position q < 10 \<and> 0 \<le> pi_end q \<and> pi_end q < 10 \<and>
     pi_readFlag q \<in> {0, 1} \<and> (pi_readFlag q = 1 \<longrightarrow> pi_position q = pi_end q)"

definition contents :: "'a isched_scheme \<Rightarrow> addr \<Rightarrow> byte list" where
  "contents s p = (let q = pipe_at s p in
     ring_bytes (cmem s) (pi_pipe q) 10 (nat (pi_position q)) (pipe_count q))"

lemma length_contents [simp]: "length (contents s p) = pipe_count (pipe_at s p)"
  by (simp add: contents_def Let_def)

lemma pipe_count_le: "pipe_count q \<le> 10"
proof -
  have "(pi_end q - pi_position q) mod 10 \<le> 10" by (simp add: less_imp_le)
  then show ?thesis by (simp add: pipe_count_def nat_le_iff)
qed

text \<open>The end of a pipe is its first position moved by the number of its bytes.\<close>

lemma pipe_end: "pipe_ok q \<Longrightarrow> nat (pi_end q) = (nat (pi_position q) + pipe_count q) mod 10"
proof -
  assume ok: "pipe_ok q"
  have "(pi_position q + (pi_end q - pi_position q) mod 10) mod 10 = pi_end q"
    using ok by (simp add: mod_add_right_eq pipe_ok_def)
  then have "int ((nat (pi_position q) + pipe_count q) mod 10) = pi_end q"
    using ok by (auto simp: pipe_count_def pipe_ok_def zmod_int)
  then show ?thesis by linarith
qed

text \<open>The descriptor after the end was moved to where \<open>n > 0\<close> bytes end.\<close>

lemma pipe_count_moved:
  assumes "0 \<le> pi_position q" "pi_position q < 10" "pi_end q = int ((nat (pi_position q) + n) mod 10)" "n \<le> 10"
    "pi_readFlag q = (if pi_end q = pi_position q \<and> 0 < n then 1 else 0)"
  shows "pipe_count q = n \<and> pipe_ok q"
proof -
  have e: "(pi_end q - pi_position q) mod 10 = int n mod 10"
    using assms(1,3) by (simp add: zmod_int mod_diff_left_eq)
  have "pi_end q < 10" "0 \<le> pi_end q" using assms(3) by simp_all
  moreover have "pi_end q = pi_position q \<longleftrightarrow> n = 0 \<or> n = 10"
  proof
    assume "pi_end q = pi_position q"
    then have "int n mod 10 = 0" using e by simp
    then have "n mod 10 = 0" by (metis of_nat_eq_0_iff of_nat_mod of_nat_numeral)
    then show "n = 0 \<or> n = 10" using assms(4) by (auto elim!: dvdE simp: mod_eq_0_iff_dvd)
  next
    assume "n = 0 \<or> n = 10"
    then show "pi_end q = pi_position q" using assms(1-3) by auto
  qed
  ultimately show ?thesis using assms e by (auto simp: pipe_count_def pipe_ok_def)
qed

section \<open>Copying into a pipe\<close>

lemma mod_10_step: "(if Suc (x mod 10) = 10 then 0 else Suc (x mod 10)) = Suc x mod (10::nat)"
  by (simp add: mod_Suc)

lemma next_byte_step:
  "aux = pi_pipe (pipe_at s p) + x mod 10 \<Longrightarrow> next_byte aux p s = pi_pipe (pipe_at s p) + Suc x mod 10"
  using mod_10_step [of x] by (auto simp: next_byte_def PIPE_LENGTH_def split: if_splits)

lemma cstr_head:
  assumes "cstr n m a = Some (c # cs)"
  shows "m a = c" "c \<noteq> 0" "\<exists>n'. cstr n' m (a + 1) = Some cs"
  using assms by (cases n; auto split: if_splits)+

lemma cstr_upd: "cstr n m a = Some cs \<Longrightarrow> x < a \<or> a + length cs < x \<Longrightarrow> cstr n (m(x := c)) a = Some cs"
  by (induction n arbitrary: a cs) (auto split: if_splits)

lemma write_loop_spec:
  assumes "pipe_at s p = q" "pipe_ok q" "nat (pi_end q) = (nat (pi_position q) + n0) mod 10" "n0 < 10"
    "cstr N (cmem s) cur = Some msg" "cur + length msg < pi_pipe q \<or> pi_pipe q + 10 \<le> cur"
    "n0 + b \<le> 10" "10 - (n0 + b) \<le> fuel" "aux = pi_pipe q + (nat (pi_position q) + (n0 + b)) mod 10"
  shows "write_loop fuel p aux cur (int b) s =
    Some (int (b + min (length msg) (10 - (n0 + b))),
      s\<lparr>cmem := rb_mem (rb.put_all (pi_pipe q) 10 (take (10 - (n0 + b)) msg)
        \<lparr>rb_mem = cmem s, rb_pos = nat (pi_position q), rb_count = n0 + b\<rparr>)\<rparr>)"
  using assms
proof (induction msg arbitrary: s N cur b fuel aux)
  case Nil
  then have "cmem s cur = 0" by (cases N) (auto split: if_splits)
  then show ?case by (simp add: write_loop.simps)
next
  case (Cons c cs)
  note m = cstr_head [OF Cons.prems(5)]
  have cont: "(pi_end q + int b) smod int PIPE_LENGTH \<noteq> pi_position q \<or> b = 0 \<longleftrightarrow> n0 + b < 10"
  proof -
    have e: "pi_end q = int ((nat (pi_position q) + n0) mod 10)"
      using Cons.prems(2) by (simp add: pipe_ok_def flip: Cons.prems(3))
    have "(pi_end q + int b) smod int PIPE_LENGTH = (pi_end q + int b) mod 10"
      using Cons.prems(2) by (simp add: smod_pos PIPE_LENGTH_def pipe_ok_def)
    also have "\<dots> = (pi_position q + int (n0 + b)) mod 10"
      using Cons.prems(2) unfolding e by (simp add: zmod_int pipe_ok_def mod_add_left_eq add.assoc)
    finally have eq: "(pi_end q + int b) smod int PIPE_LENGTH = (pi_position q + int (n0 + b)) mod 10" .
    have "(pi_position q + int (n0 + b)) mod 10 = pi_position q \<longleftrightarrow> n0 + b = 0 \<or> n0 + b = 10"
    proof
      assume "(pi_position q + int (n0 + b)) mod 10 = pi_position q"
      then have "(pi_position q + int (n0 + b)) mod 10 = (pi_position q) mod 10" by (metis mod_mod_trivial)
      then have "int (n0 + b) mod 10 = 0" by (metis add.commute add_diff_cancel_right' mod_diff_left_eq mod_eq_0_iff_dvd mod_eq_dvd_iff)
      then have "10 dvd n0 + b" by presburger
      then show "n0 + b = 0 \<or> n0 + b = 10" using Cons.prems(7) by (auto elim!: dvdE)
    next
      assume "n0 + b = 0 \<or> n0 + b = 10"
      then have "int (n0 + b) = 0 \<or> int (n0 + b) = 10" by linarith
      then show "(pi_position q + int (n0 + b)) mod 10 = pi_position q"
        using Cons.prems(2) by (elim disjE) (simp_all add: pipe_ok_def del: of_nat_add)
    qed
    then show ?thesis using eq Cons.prems(4,7) by auto
  qed
  show ?case
  proof (cases "n0 + b < 10")
    case False
    then have "n0 + b = 10" using Cons.prems(7) by simp
    with cont Cons.prems(1) show ?thesis by (subst write_loop.simps) simp
  next
    case True
    then obtain fuel' where f: "fuel = Suc fuel'" using Cons.prems(8) by (cases fuel) auto
    let ?s = "store_byte aux c s"
    have auxr: "pi_pipe q \<le> aux" "aux < pi_pipe q + 10" using Cons.prems(9) by simp_all
    obtain N' where "cstr N' (cmem s) (cur + 1) = Some cs" using m(3) by blast
    then have cs: "cstr N' (cmem ?s) (cur + 1) = Some cs"
      using cstr_upd [of N' "cmem s" "cur + 1" cs aux c] auxr Cons.prems(6) by auto
    have nb: "next_byte aux p ?s = pi_pipe q + (nat (pi_position q) + (n0 + Suc b)) mod 10"
      using next_byte_step [of aux ?s p "nat (pi_position q) + (n0 + b)"] Cons.prems(1,9) by simp
    have IH: "write_loop fuel' p (next_byte aux p ?s) (cur + 1) (int (Suc b)) ?s =
      Some (int (Suc b + min (length cs) (10 - (n0 + Suc b))),
        ?s\<lparr>cmem := rb_mem (rb.put_all (pi_pipe q) 10 (take (10 - (n0 + Suc b)) cs)
          \<lparr>rb_mem = cmem ?s, rb_pos = nat (pi_position q), rb_count = n0 + Suc b\<rparr>)\<rparr>)"
      by (rule Cons.IH [OF _ Cons.prems(2,3,4) cs _ _ _ nb]) (use Cons.prems True f in auto)
    obtain d where d: "10 - (n0 + b) = Suc d" "10 - (n0 + Suc b) = d" using True by (cases "10 - (n0 + b)") auto
    have put: "rb.put_all (pi_pipe q) 10 (take (Suc d) (c # cs))
        \<lparr>rb_mem = cmem s, rb_pos = nat (pi_position q), rb_count = n0 + b\<rparr> =
      rb.put_all (pi_pipe q) 10 (take d cs)
        \<lparr>rb_mem = cmem ?s, rb_pos = nat (pi_position q), rb_count = n0 + Suc b\<rparr>"
      using Cons.prems(9) by (simp add: rb_put_def)
    have "write_loop fuel p aux cur (int b) s =
        write_loop fuel' p (next_byte aux p ?s) (cur + 1) (int (Suc b)) ?s"
      using cont True Cons.prems(1) m f by (subst write_loop.simps) (simp add: Let_def add.commute)
    with IH show ?thesis unfolding put d by (simp add: store_byte_def)
  qed
qed

section \<open>Waking the readers\<close>

lemma wake_frame:
  "cmem (unlockProcesses_wake n j p s) = cmem s \<and> mutexes (unlockProcesses_wake n j p s) = mutexes s \<and>
   pipe_at (unlockProcesses_wake n j p s) = pipe_at s \<and> (ring (unlockProcesses_wake n j p s) xs \<longleftrightarrow> ring s xs) \<and>
   current (unlockProcesses_wake n j p s) = current s"
  by (induction n arbitrary: j s) auto

text \<open>Two descriptors that differ in the number of blocked readers at most.\<close>

definition same_but_blocked :: "Pipe \<Rightarrow> Pipe \<Rightarrow> bool" where
  "same_but_blocked q r \<longleftrightarrow> q\<lparr>pi_cardinalBlocked := 0\<rparr> = r\<lparr>pi_cardinalBlocked := 0\<rparr>"

lemma same_but_blockedD:
  assumes "same_but_blocked q r"
  shows "pi_position q = pi_position r" "pi_end q = pi_end r" "pi_readFlag q = pi_readFlag r"
    "pi_pipe q = pi_pipe r" "pi_mutex q = pi_mutex r" "pi_name q = pi_name r"
    "pipe_count q = pipe_count r" "pipe_ok q = pipe_ok r"
  using assms by (cases q; cases r; simp add: same_but_blocked_def pipe_count_def pipe_ok_def)+

lemma unlock_loop_frame:
  "i + left \<le> length (pipeNames s) \<Longrightarrow> \<exists>t. unlockProcesses_loop left i name s = Some t \<and>
     cmem t = cmem s \<and> mutexes t = mutexes s \<and> (\<forall>p. same_but_blocked (pipe_at t p) (pipe_at s p)) \<and>
     (\<forall>xs. ring t xs \<longleftrightarrow> ring s xs) \<and> current t = current s"
proof (induction left arbitrary: i)
  case 0
  then show ?case by (simp add: same_but_blocked_def)
next
  case (Suc left)
  then have a: "at (pipeNames s) (int i) = Some (pipeNames s ! i)" by (simp add: at_def)
  show ?case
  proof (cases "strcmp (strs s (pipeNames s ! i)) (strs s name) = 0")
    case True
    then show ?thesis using a by (auto simp: Let_def wake_frame same_but_blocked_def)
  next
    case False
    with a Suc show ?thesis by simp
  qed
qed

lemma unlockProcesses_frame:
  assumes "lastPipeName s \<le> int (length (pipeNames s))"
  obtains t where "unlockProcesses name s = Some t" "cmem t = cmem s" "mutexes t = mutexes s"
    "\<And>p. same_but_blocked (pipe_at t p) (pipe_at s p)" "\<And>xs. ring t xs \<longleftrightarrow> ring s xs" "current t = current s"
proof -
  have "0 + nat (lastPipeName s) \<le> length (pipeNames s)" using assms by (simp add: nat_le_iff)
  from unlock_loop_frame [OF this, of name] that show thesis unfolding unlockProcesses_def by blast
qed

lemma contents_same:
  "cmem t = cmem s \<Longrightarrow> same_but_blocked (pipe_at t p) (pipe_at s p) \<Longrightarrow> contents t p = contents s p"
  by (simp add: contents_def Let_def same_but_blockedD)

section \<open>Writing\<close>

text \<open>The rest of \<open>write\<close> after its mutex was taken, with room in the pipe.\<close>

lemma write_room:
  assumes lf: "lock_free (pi_mutex (pipe_at s p)) s" and ok: "pipe_ok (pipe_at s p)"
    and room: "pipe_count (pipe_at s p) < 10" and names: "lastPipeName s \<le> int (length (pipeNames s))"
    and msg: "cstr N (cmem s) message = Some msg"
    and apart: "message + length msg < pi_pipe (pipe_at s p) \<or> pi_pipe (pipe_at s p) + 10 \<le> message"
    and r: "ring s xs"
  defines "k \<equiv> min (length msg) (10 - pipe_count (pipe_at s p))"
  shows "\<exists>t. write_pipe p message s = Done t (int k) \<and> mutexes t = mutexes s \<and> ring t xs \<and>
    (0 < pipe_count (pipe_at s p) + k \<longrightarrow> pipe_ok (pipe_at t p) \<and> contents t p = contents s p @ take k msg) \<and>
    (pipe_count (pipe_at s p) + k = 0 \<longrightarrow> pipe_ok (pipe_at t p) \<and> length (contents t p) = 10)"
proof -
  let ?q = "pipe_at s p"
  let ?m = "nat (pi_mutex ?q)"
  define s1 where "s1 = upd_mutex ?m (\<lambda>m. m\<lparr>m_mutex := 1\<rparr>) s"
  define n0 where "n0 = pipe_count ?q"
  define r0 where "r0 = \<lparr>rb_mem = cmem s, rb_pos = nat (pi_position ?q), rb_count = n0\<rparr>"
  define r1 where "r1 = rb.put_all (pi_pipe ?q) 10 (take (10 - n0) msg) r0"
  have tk: "take (10 - n0) msg = take k msg" by (simp add: k_def n0_def min_def)
  have n0: "n0 < 10" using room by (simp add: n0_def)
  have en: "nat (pi_end ?q) = (nat (pi_position ?q) + n0) mod 10" using pipe_end [OF ok] by (simp add: n0_def)
  have s1: "cmem s1 = cmem s" "pipe_at s1 = pipe_at s" "pipeNames s1 = pipeNames s" "lastPipeName s1 = lastPipeName s"
    by (simp_all add: s1_def)
  have r0ok: "rb_ok 10 r0" using ok n0 by (auto simp: rb_ok_def r0_def pipe_ok_def nat_less_iff)
  have lk: "length (rb_bytes (pi_pipe ?q) 10 r0) + length (take (10 - n0) msg) \<le> 10"
    using n0 by (simp add: rb_bytes_def r0_def)
  note put = rb.put_all_appends [OF r0ok lk]
  have loop: "write_loop PIPE_LENGTH p (pi_pipe ?q + nat (pi_end ?q)) message 0 s1 = Some (int k, s1\<lparr>cmem := rb_mem r1\<rparr>)"
    using write_loop_spec [of s1 p ?q n0 N message msg 0 PIPE_LENGTH "pi_pipe ?q + nat (pi_end ?q)"]
      ok en n0 msg apart s1 by (simp add: PIPE_LENGTH_def r1_def r0_def k_def n0_def)
  define s2 where "s2 = s1\<lparr>cmem := rb_mem r1\<rparr>"
  define e where "e = int ((nat (pi_position ?q) + (n0 + k)) mod 10)"
  have e: "(pi_end ?q + int k) smod int PIPE_LENGTH = e"
  proof -
    have "pi_end ?q = int ((nat (pi_position ?q) + n0) mod 10)" using ok by (simp add: pipe_ok_def flip: en)
    then show ?thesis using ok unfolding e_def
      by (simp add: smod_pos PIPE_LENGTH_def pipe_ok_def zmod_int mod_add_left_eq add.assoc)
  qed
  define s4 where "s4 = upd_pipe p (\<lambda>q. q\<lparr>pi_end := e, pi_readFlag := (if e = pi_position q then 1 else pi_readFlag q)\<rparr>) s2"
  have s3: "(if pi_end (pipe_at u p) = pi_position (pipe_at u p) then upd_pipe p (\<lambda>q. q\<lparr>pi_readFlag := 1\<rparr>) u else u) = s4"
    if "u = upd_pipe p (\<lambda>q. q\<lparr>pi_end := (pi_end q + int k) smod int PIPE_LENGTH\<rparr>) s2" for u
    using e s1 by (simp add: that s4_def s2_def upd_pipe_def)
  have n4: "lastPipeName s4 \<le> int (length (pipeNames s4))" using names s1 by (simp add: s4_def s2_def)
  obtain s5 where s5: "unlockProcesses (pi_name (pipe_at s4 p)) s4 = Some s5" "cmem s5 = cmem s4" "mutexes s5 = mutexes s4"
    "\<And>p. same_but_blocked (pipe_at s5 p) (pipe_at s4 p)" "\<And>xs. ring s5 xs \<longleftrightarrow> ring s4 xs"
    by (rule unlockProcesses_frame [OF n4, of "pi_name (pipe_at s4 p)"], rule that)
  define t where "t = upd_mutex ?m (\<lambda>m. m\<lparr>m_mutex := 0\<rparr>) s5"
  have m5: "pi_mutex (pipe_at s5 p) = pi_mutex ?q" "mutexes s5 = mutexes (upd_mutex ?m (\<lambda>m. m\<lparr>m_mutex := 1\<rparr>) s)"
    using same_but_blockedD(5) [OF s5(4), of p] s5(3) s1(2) by (simp_all add: s4_def s2_def s1_def)
  note fr = free_after_lock [OF lf m5(2), folded t_def]
  have nf: "\<not> (pi_position ?q = pi_end ?q \<and> pi_readFlag ?q = 1)" using room by (auto simp: pipe_count_def)
  have w: "write_pipe p message s = Done t (int k)"
    unfolding write_pipe_def Let_def lock_freeD(1) [OF lf, folded s1_def] bind_exec.simps s1(2) if_not_P [OF nf]
      loop [folded s2_def] option.case prod.case s3 [OF refl] s5(1) m5(1) fr(1) ..
  have q4: "pipe_at s4 p = ?q\<lparr>pi_end := e, pi_readFlag := (if e = pi_position ?q then 1 else pi_readFlag ?q)\<rparr>"
    using s1(2) by (simp add: s4_def s2_def)
  have pt: "pipe_at t p = pipe_at s5 p" "cmem t = rb_mem r1" by (simp_all add: t_def s5(2) s4_def s2_def)
  have rf: "e = pi_position ?q \<or> pi_readFlag ?q = 0" using nf ok by (auto simp: pipe_ok_def)
  have sb: "same_but_blocked (pipe_at t p) (pipe_at s4 p)" unfolding pt(1) by (rule s5(4))
  have nk: "n0 + k \<le> 10" using n0 by (simp add: k_def n0_def)
  have pos: "pipe_ok (pipe_at t p) \<and> contents t p = contents s p @ take k msg" if "0 < n0 + k"
  proof -
    have pc: "pipe_count (pipe_at s4 p) = n0 + k \<and> pipe_ok (pipe_at s4 p)"
    proof (rule pipe_count_moved [OF _ _ _ nk])
      show "pi_end (pipe_at s4 p) = int ((nat (pi_position (pipe_at s4 p)) + (n0 + k)) mod 10)"
        by (simp add: q4 e_def)
      show "pi_readFlag (pipe_at s4 p) = (if pi_end (pipe_at s4 p) = pi_position (pipe_at s4 p) \<and> 0 < n0 + k then 1 else 0)"
        using rf that by (auto simp: q4)
    qed (use ok in \<open>auto simp: q4 pipe_ok_def\<close>)
    have "contents t p = rb_bytes (pi_pipe ?q) 10 r1"
    proof -
      have "rb_pos r1 = nat (pi_position ?q) \<and> rb_count r1 = n0 + length (take (10 - n0) msg)"
        using put_all_pos [of "pi_pipe ?q" 10 "take (10 - n0) msg" r0] by (simp add: r1_def r0_def)
      moreover have "length (take (10 - n0) msg) = k" by (simp add: k_def n0_def)
      ultimately show ?thesis
        using pc same_but_blockedD [OF sb] by (simp add: contents_def Let_def pt(2) rb_bytes_def q4)
    qed
    also have "\<dots> = contents s p @ take k msg"
      using put by (simp add: r1_def tk) (simp add: rb_bytes_def r0_def contents_def Let_def n0_def)
    finally show ?thesis using pc same_but_blockedD(8) [OF sb] by simp
  qed
  have zero: "pipe_ok (pipe_at t p) \<and> length (contents t p) = 10" if "n0 + k = 0"
  proof -
    have "pi_position ?q < 10" "0 \<le> pi_position ?q" using ok by (simp_all add: pipe_ok_def)
    then have "e = pi_position ?q" using that by (simp add: e_def)
    then have "pipe_count (pipe_at s4 p) = 10" "pipe_ok (pipe_at s4 p)"
      using ok by (simp_all add: q4 pipe_count_def pipe_ok_def)
    then show ?thesis using same_but_blockedD(7,8) [OF sb] by simp
  qed
  have "ring t xs" using r s5(5) [of xs] by (simp add: t_def s4_def s2_def s1_def ring_def slot_proc_def)
  with w pos zero fr(2) show ?thesis unfolding n0_def by (intro exI [of _ t]) auto
qed

lemma write_full:
  assumes lf: "lock_free (pi_mutex (pipe_at s p)) s" and full: "pipe_count (pipe_at s p) = 10"
    and ok: "pipe_ok (pipe_at s p)" and r: "ring s xs"
  shows "\<exists>t. write_pipe p message s = Done t 0 \<and> pipe_at t = pipe_at s \<and> cmem t = cmem s \<and>
    mutexes t = mutexes s \<and> slot_state t (current s) = BLOCKED"
proof -
  let ?q = "pipe_at s p"
  let ?m = "nat (pi_mutex ?q)"
  define s1 where "s1 = upd_mutex ?m (\<lambda>m. m\<lparr>m_mutex := 1\<rparr>) s"
  define s2 where "s2 = changeProcessState (getCurrentPid s1) BLOCKED s1"
  define t where "t = upd_mutex ?m (\<lambda>m. m\<lparr>m_mutex := 0\<rparr>) s2"
  have "(pi_end ?q - pi_position ?q) mod 10 < 10" by simp
  then have f: "pi_position ?q = pi_end ?q \<and> pi_readFlag ?q = 1"
    using full by (auto simp: pipe_count_def split: if_splits)
  have s1: "pipe_at s1 = pipe_at s" "current s1 = current s" "cmem s1 = cmem s" by (simp_all add: s1_def)
  have m2: "mutexes s2 = mutexes (upd_mutex ?m (\<lambda>m. m\<lparr>m_mutex := 1\<rparr>) s)" by (simp add: s2_def s1_def)
  note fr = free_after_lock [OF lf m2, folded t_def]
  have "write_pipe p message s = Done t 0"
    unfolding write_pipe_def Let_def lock_freeD(1) [OF lf, folded s1_def] bind_exec.simps s1(1) if_P [OF f]
      s2_def [symmetric] fr(1) ..
  moreover have "ring s1 xs" using r by (simp add: s1_def)
  then have "slot_state t (current s) = BLOCKED"
    using current_state_change [of s1 xs BLOCKED] s1(2) by (simp add: t_def s2_def)
  moreover have "pipe_at t = pipe_at s" "cmem t = cmem s" by (simp_all add: t_def s2_def s1)
  ultimately show ?thesis using fr(2) by blast
qed

section \<open>Reading\<close>

lemma ring_bytes_drop: "k \<le> n \<Longrightarrow> ring_bytes m a len ((pos + k) mod len) (n - k) = drop k (ring_bytes m a len pos n)"
  by (auto simp: ring_bytes_def list_eq_iff_nth_eq mod_add_left_eq add.assoc)

lemma ring_bytes_take: "k \<le> n \<Longrightarrow> take k (ring_bytes m a len pos n) = ring_bytes m a len pos k"
  by (simp add: ring_bytes_def take_map)

lemma read_loop_spec:
  assumes "pipe_at s p = q" "pipe_ok q" "n = pipe_count q" "0 < n" "i \<le> n"
    "aux = pi_pipe q + (nat (pi_position q) + i) mod 10" "bytes_at (cmem s) result i = ring_bytes m0 (pi_pipe q) 10 (nat (pi_position q)) i"
    "\<forall>x. pi_pipe q \<le> x \<and> x < pi_pipe q + 10 \<longrightarrow> cmem s x = m0 x"
    "result + min (i + left) n \<le> pi_pipe q \<or> pi_pipe q + 10 \<le> result"
  shows "\<exists>m. read_loop left p aux result (int i) s = (int (min (i + left) n), s\<lparr>cmem := m\<rparr>) \<and>
    bytes_at m result (min (i + left) n) = ring_bytes m0 (pi_pipe q) 10 (nat (pi_position q)) (min (i + left) n) \<and>
    (\<forall>x. pi_pipe q \<le> x \<and> x < pi_pipe q + 10 \<longrightarrow> m x = m0 x)"
  using assms
proof (induction left arbitrary: s i aux)
  case 0
  then show ?case by (intro exI [of _ "cmem s"]) (simp add: min_def)
next
  case (Suc left)
  have n10: "n \<le> 10" using pipe_count_le Suc.prems(3) by simp
  have en: "pi_end q = int ((nat (pi_position q) + n) mod 10)"
    using pipe_end [OF Suc.prems(2)] Suc.prems(2,3) by (simp add: pipe_ok_def flip: pipe_end)
  have cond: "((int i + pi_position q) smod int PIPE_LENGTH \<noteq> pi_end q \<or> int i = 0) \<longleftrightarrow> i < n"
  proof -
    have "(int i + pi_position q) smod int PIPE_LENGTH = int ((nat (pi_position q) + i) mod 10)"
      using Suc.prems(2) by (simp add: smod_pos PIPE_LENGTH_def pipe_ok_def zmod_int add.commute)
    then have "(int i + pi_position q) smod int PIPE_LENGTH = pi_end q \<longleftrightarrow>
        (nat (pi_position q) + i) mod 10 = (nat (pi_position q) + n) mod 10"
      unfolding en by linarith
    moreover have "(nat (pi_position q) + i) mod 10 \<noteq> (nat (pi_position q) + n) mod 10" if "0 < i" "i < n"
    proof
      assume "(nat (pi_position q) + i) mod 10 = (nat (pi_position q) + n) mod 10"
      then have "10 dvd (nat (pi_position q) + n) - (nat (pi_position q) + i)"
        using that(2) by (intro mod_eq_dvd_iff_nat [THEN iffD1]) auto
      then have "10 dvd n - i" by simp
      with that n10 show False by (auto dest: dvd_imp_le)
    qed
    ultimately show ?thesis using Suc.prems(4,5) by (cases "i = n") auto
  qed
  show ?case
  proof (cases "i < n")
    case False
    then have "i = n" using Suc.prems(5) by simp
    with cond Suc.prems show ?thesis by (intro exI [of _ "cmem s"]) simp
  next
    case True
    let ?s = "store_byte (result + i) (cmem s aux) s"
    have aux: "pi_pipe q \<le> aux" "aux < pi_pipe q + 10" using Suc.prems(6) by simp_all
    have apart: "result + i < pi_pipe q \<or> pi_pipe q + 10 \<le> result + i"
      using Suc.prems(9) True by (auto simp: min_def split: if_splits)
    have nb: "next_byte aux p ?s = pi_pipe q + (nat (pi_position q) + Suc i) mod 10"
      using next_byte_step [of aux ?s p "nat (pi_position q) + i"] Suc.prems(1,6) by simp
    have ma: "cmem s aux = m0 (pi_pipe q + (nat (pi_position q) + i) mod 10)" using Suc.prems(6,8) aux by simp
    have "bytes_at (cmem ?s) result (Suc i) = bytes_at (cmem s) result i @ [cmem s aux]" by (simp add: bytes_at_snoc)
    also have "\<dots> = ring_bytes m0 (pi_pipe q) 10 (nat (pi_position q)) (Suc i)"
      using Suc.prems(7) ma by (simp add: ring_bytes_def)
    finally have bs: "bytes_at (cmem ?s) result (Suc i) = ring_bytes m0 (pi_pipe q) 10 (nat (pi_position q)) (Suc i)" .
    have "\<exists>m. read_loop left p (next_byte aux p ?s) result (int (Suc i)) ?s = (int (min (Suc i + left) n), ?s\<lparr>cmem := m\<rparr>) \<and>
        bytes_at m result (min (Suc i + left) n) = ring_bytes m0 (pi_pipe q) 10 (nat (pi_position q)) (min (Suc i + left) n) \<and>
        (\<forall>x. pi_pipe q \<le> x \<and> x < pi_pipe q + 10 \<longrightarrow> m x = m0 x)"
      by (rule Suc.IH [OF _ Suc.prems(2,3,4) _ nb bs]) (use Suc.prems True apart in auto)
    moreover have "read_loop (Suc left) p aux result (int i) s = read_loop left p (next_byte aux p ?s) result (int (Suc i)) ?s"
      using cond True Suc.prems(1) by (simp add: Let_def add.commute)
    ultimately show ?thesis by (simp add: store_byte_def)
  qed
qed

text \<open>A call for no bytes only clears the flag, which is what tells a full pipe from an empty one.\<close>

lemma read_nothing:
  assumes lf: "lock_free (pi_mutex (pipe_at s p)) s" and ok: "pipe_ok (pipe_at s p)" and ne: "contents s p \<noteq> []"
    and b: "bytes \<noteq> - 1" "\<not> 0 < bytes"
  shows "\<exists>t. read_pipe p result bytes s = Done t 0 \<and>
    contents t p = (if length (contents s p) = 10 then [] else contents s p) \<and> pipe_ok (pipe_at t p) \<and> mutexes t = mutexes s"
proof -
  let ?q = "pipe_at s p"
  let ?m = "nat (pi_mutex ?q)"
  define s1 where "s1 = upd_mutex ?m (\<lambda>m. m\<lparr>m_mutex := 1\<rparr>) s"
  have s1: "pipe_at s1 = pipe_at s" "cmem s1 = cmem s" by (simp_all add: s1_def)
  have "0 < pipe_count ?q" using ne unfolding length_contents [symmetric] length_greater_0_conv .
  then have nf: "\<not> (pi_position ?q = pi_end ?q \<and> pi_readFlag ?q = 0)" by (auto simp: pipe_count_def)
  define s3 where "s3 = upd_pipe p (\<lambda>q. q\<lparr>pi_position := (pi_position q + 0) smod int PIPE_LENGTH, pi_readFlag := 0\<rparr>) s1"
  define t where "t = upd_mutex ?m (\<lambda>m. m\<lparr>m_mutex := 0\<rparr>) s3"
  have "(pi_position ?q + 0) smod int PIPE_LENGTH = pi_position ?q"
    using ok by (simp add: smod_pos PIPE_LENGTH_def pipe_ok_def)
  then have q3: "pipe_at s3 p = ?q\<lparr>pi_readFlag := 0\<rparr>" "cmem s3 = cmem s" using s1 by (simp_all add: s3_def)
  have "mutexes s3 = mutexes (upd_mutex ?m (\<lambda>m. m\<lparr>m_mutex := 1\<rparr>) s)" by (simp add: s3_def s1_def)
  note fr = free_after_lock [OF lf this, folded t_def]
  have loop: "read_loop (nat (if bytes = - 1 then int PIPE_LENGTH else bytes)) p (pi_pipe ?q + nat (pi_position ?q)) result 0 s1 = (0, s1)"
    using b by simp
  have mq: "pi_mutex (pipe_at s3 p) = pi_mutex ?q" by (simp add: q3)
  have "read_pipe p result bytes s = Done t 0"
    unfolding read_pipe_def Let_def lock_freeD(1) [OF lf, folded s1_def] bind_exec.simps s1(1) if_not_P [OF nf]
      loop prod.case s3_def [symmetric] mq fr(1) ..
  moreover have pt: "pipe_at t p = ?q\<lparr>pi_readFlag := 0\<rparr>" "cmem t = cmem s" using q3 by (simp_all add: t_def)
  have "pipe_count (?q\<lparr>pi_readFlag := 0\<rparr>) = (if pipe_count ?q = 10 then 0 else pipe_count ?q)"
  proof (cases "pi_position ?q = pi_end ?q")
    case True
    then show ?thesis by (simp add: pipe_count_def)
  next
    case False
    have "(pi_end ?q - pi_position ?q) mod 10 < 10" by simp
    then show ?thesis using False by (simp add: pipe_count_def)
  qed
  then have "contents t p = (if length (contents s p) = 10 then [] else contents s p)"
    by (simp add: contents_def Let_def pt ring_bytes_def)
  moreover have "pipe_ok (pipe_at t p)" using ok by (simp add: pt pipe_ok_def)
  ultimately show ?thesis using fr(2) by blast
qed

lemma read_some:
  assumes lf: "lock_free (pi_mutex (pipe_at s p)) s" and ok: "pipe_ok (pipe_at s p)" and ne: "contents s p \<noteq> []"
    and b: "bytes = - 1 \<or> 0 < bytes" and r: "ring s xs"
  defines "k \<equiv> min (if bytes = - 1 then 10 else nat bytes) (length (contents s p))"
  assumes apart: "result + k \<le> pi_pipe (pipe_at s p) \<or> pi_pipe (pipe_at s p) + 10 \<le> result"
  shows "\<exists>t. read_pipe p result bytes s = Done t (int k) \<and> bytes_at (cmem t) result k = take k (contents s p) \<and>
    contents t p = drop k (contents s p) \<and> pipe_ok (pipe_at t p) \<and> mutexes t = mutexes s \<and> ring t xs"
proof -
  let ?q = "pipe_at s p"
  let ?m = "nat (pi_mutex ?q)"
  define n where "n = pipe_count ?q"
  have n: "0 < n" "n \<le> 10" using ne pipe_count_le length_contents [of s p] unfolding n_def length_greater_0_conv [symmetric] by auto
  define s1 where "s1 = upd_mutex ?m (\<lambda>m. m\<lparr>m_mutex := 1\<rparr>) s"
  have s1: "pipe_at s1 = pipe_at s" "cmem s1 = cmem s" by (simp_all add: s1_def)
  have k: "k = min (0 + nat (if bytes = - 1 then int PIPE_LENGTH else bytes)) n" "0 < k" "k \<le> n"
    using b n by (auto simp: k_def n_def PIPE_LENGTH_def min_def)
  have aux: "pi_pipe ?q + nat (pi_position ?q) = pi_pipe ?q + (nat (pi_position ?q) + 0) mod 10"
    using ok by (simp add: pipe_ok_def nat_less_iff)
  obtain m where m: "read_loop (nat (if bytes = - 1 then int PIPE_LENGTH else bytes)) p (pi_pipe ?q + nat (pi_position ?q)) result 0 s1
      = (int k, s1\<lparr>cmem := m\<rparr>)"
    "bytes_at m result k = ring_bytes (cmem s) (pi_pipe ?q) 10 (nat (pi_position ?q)) k"
    "\<forall>x. pi_pipe ?q \<le> x \<and> x < pi_pipe ?q + 10 \<longrightarrow> m x = cmem s x"
    using read_loop_spec [of s1 p ?q n 0 _ result "cmem s" "nat (if bytes = - 1 then int PIPE_LENGTH else bytes)", OF _ ok n_def n(1) _ aux]
      s1 apart unfolding k(1) [symmetric] by (auto simp: bytes_at_def)
  define s2 where "s2 = s1\<lparr>cmem := m\<rparr>"
  define e where "e = int ((nat (pi_position ?q) + k) mod 10)"
  have e: "(pi_position ?q + int k) smod int PIPE_LENGTH = e"
    using ok by (simp add: e_def smod_pos PIPE_LENGTH_def pipe_ok_def zmod_int)
  define s3 where "s3 = upd_pipe p (\<lambda>q. q\<lparr>pi_position := (pi_position q + int k) smod int PIPE_LENGTH, pi_readFlag := 0\<rparr>) s2"
  define t where "t = upd_mutex ?m (\<lambda>m. m\<lparr>m_mutex := 0\<rparr>) s3"
  have q3: "pipe_at s3 p = ?q\<lparr>pi_position := e, pi_readFlag := 0\<rparr>" using e s1 by (simp add: s3_def s2_def)
  have m3: "mutexes s3 = mutexes (upd_mutex ?m (\<lambda>m. m\<lparr>m_mutex := 1\<rparr>) s)" by (simp add: s3_def s2_def s1_def)
  note fr = free_after_lock [OF lf m3, folded t_def]
  have nf: "\<not> (pi_position ?q = pi_end ?q \<and> pi_readFlag ?q = 0)"
    using n(1) by (auto simp: pipe_count_def n_def)
  have mq: "pi_mutex (pipe_at s3 p) = pi_mutex ?q" by (simp add: q3)
  have rd: "read_pipe p result bytes s = Done t (int k)"
    unfolding read_pipe_def Let_def lock_freeD(1) [OF lf, folded s1_def] bind_exec.simps s1(1) if_not_P [OF nf]
      m(1) [folded s2_def] prod.case s3_def [symmetric] mq fr(1) ..
  have pt: "pipe_at t p = pipe_at s3 p" "cmem t = m" by (simp_all add: t_def s3_def s2_def)
  have pc: "pipe_count (pipe_at s3 p) = n - k \<and> pipe_ok (pipe_at s3 p)"
  proof (rule pipe_count_moved)
    have "pi_end ?q = int ((nat (pi_position ?q) + n) mod 10)"
      using pipe_end [OF ok] ok by (simp add: n_def pipe_ok_def flip: pipe_end)
    also have "\<dots> = int ((nat e + (n - k)) mod 10)"
    proof -
      have "((nat (pi_position ?q) + k) mod 10 + (n - k)) mod 10 = (nat (pi_position ?q) + k + (n - k)) mod 10"
        by (rule mod_add_left_eq)
      then show ?thesis using k(3) by (simp add: e_def)
    qed
    finally show en: "pi_end (pipe_at s3 p) = int ((nat (pi_position (pipe_at s3 p)) + (n - k)) mod 10)"
      by (simp add: q3)
    show "pi_readFlag (pipe_at s3 p) =
        (if pi_end (pipe_at s3 p) = pi_position (pipe_at s3 p) \<and> 0 < n - k then 1 else 0)"
    proof -
      have "pi_end ?q \<noteq> e" if "0 < n - k"
      proof
        assume a: "pi_end ?q = e"
        have "(nat e + (n - k)) mod 10 = nat e"
          using en a by (simp add: q3)
        moreover have "nat e < 10" by (simp add: e_def)
        ultimately have "(nat e + (n - k)) mod 10 = nat e mod 10" by simp
        then have "10 dvd n - k" by (metis add_diff_cancel_left' le_add1 mod_eq_dvd_iff_nat)
        then have "10 \<le> n - k" using that by (rule dvd_imp_le)
        then show False using n(2) k(2) by simp
      qed
      then show ?thesis by (auto simp: q3)
    qed
  qed (use n in \<open>auto simp: q3 e_def\<close>)
  have cs: "contents s p = ring_bytes (cmem s) (pi_pipe ?q) 10 (nat (pi_position ?q)) n"
    by (simp add: contents_def Let_def n_def)
  have rm: "ring_bytes m (pi_pipe ?q) 10 a b = ring_bytes (cmem s) (pi_pipe ?q) 10 a b" for a b
    using m(3) by (simp add: ring_bytes_def)
  have "contents t p = ring_bytes m (pi_pipe ?q) 10 ((nat (pi_position ?q) + k) mod 10) (n - k)"
    using pc by (simp add: contents_def Let_def pt q3 e_def)
  also have "\<dots> = drop k (contents s p)" unfolding rm cs using k(3) by (rule ring_bytes_drop)
  finally have "contents t p = drop k (contents s p)" .
  moreover have "bytes_at (cmem t) result k = take k (contents s p)"
    unfolding pt cs using m(2) ring_bytes_take [OF k(3)] by simp
  moreover have "ring t xs" using r by (simp add: t_def s3_def s2_def s1_def ring_def slot_proc_def)
  ultimately show ?thesis using rd pc pt fr(2) by auto
qed

section \<open>Creating a pipe as the kernel starts\<close>

lemma ring_upd_proc: "(\<And>q. p_pid (f q) = p_pid q) \<Longrightarrow> ring (upd_proc p f s) xs = ring s xs"
proof -
  assume f: "\<And>q. p_pid (f q) = p_pid q"
  have "slot_pid (upd_proc p f s) x = slot_pid s x" for x using f by (simp add: slot_proc_def)
  then show ?thesis unfolding ring_def by simp
qed

lemma upd_proc_more [simp]: "sched.more (upd_proc p f s) = sched.more s"
  by (simp add: upd_proc_def)

lemmas upd_proc_isched [simp] = more_eqD [OF upd_proc_more] isched_more_eqD [OF upd_proc_more]

lemma createPipeStruct_frame:
  "mutexes (snd (createPipeStruct pro name s)) = mutexes s \<and> adminMutex (snd (createPipeStruct pro name s)) = adminMutex s \<and>
   current (snd (createPipeStruct pro name s)) = current s \<and>
   (ring (snd (createPipeStruct pro name s)) xs \<longleftrightarrow> ring s xs)"
proof -
  have u: "adminMutex (upd_pipe p f t) = adminMutex t" for p f and t :: "'a isched_scheme" by (simp add: upd_pipe_def)
  have "mutexes (snd (getIndexForPipeStructure pro s)) = mutexes s \<and>
      adminMutex (snd (getIndexForPipeStructure pro s)) = adminMutex s \<and>
      current (snd (getIndexForPipeStructure pro s)) = current s \<and>
      (ring (snd (getIndexForPipeStructure pro s)) xs \<longleftrightarrow> ring s xs)"
    by (simp add: getIndexForPipeStructure_def Let_def ring_upd_proc split: option.splits)
  then show ?thesis
    by (cases "getIndexForPipeStructure pro s") (simp add: createPipeStruct_def Let_def ring_upd_proc u)
qed

lemma createPipeStruct_pid: "slot_pid (snd (createPipeStruct pro name s)) x = slot_pid s x"
  by (simp add: createPipeStruct_def getIndexForPipeStructure_def Let_def split_beta slot_proc_def split: option.splits)

lemma getProcessById_current:
  assumes "ring s xs"
  shows "getProcessById (getCurrentPid s) s = getCurrentProcess s"
proof -
  obtain l where "length xs = Suc l" using ringD(1) [OF assms] by (cases xs) auto
  then have "nat (cardinal_processes s) = Suc l" using ringD(4) [OF assms] by simp
  then show ?thesis
    using ringD(3) [OF assms] by (simp add: getProcessById_def getCurrentPid_def getCurrentProcess_def)
qed

lemma createPipe_self_lock:
  assumes adm: "names_ok s" "ipcAdminMutex s = adminMutex s" and r: "ring s xs" and pid: "getCurrentPid s \<noteq> - 1"
    and place: "0 \<le> lastPipeName s" "lastPipeName s < int (length (pipeNames s))" "length (pipeNames s) = MAX_PIPES"
      "pipeNames s ! nat (lastPipeName s) = NULL"
    and nz: "name \<noteq> NULL" "getCurrentProcess s \<noteq> NULL"
  shows "\<exists>v f. createPipe name s = bind_exec (yield_exec v) f \<and> current v = current s \<and>
    slot_state v (current v) = BLOCKED \<and> m_mutex (mutexes v ! nat (ipcAdminMutex s)) = 1 \<and>
    waiting (m_queue (mutexes v ! nat (ipcAdminMutex s))) = {#getCurrentPid s#}"
proof -
  define s1 where "s1 = upd_mutex 0 (\<lambda>m. m\<lparr>m_mutex := 1\<rparr>) s"
  have a0: "adminMutex s = 0" using adm(1) by (simp add: names_ok_def)
  have l: "lockMutex (ipcAdminMutex s) s = Done s1 ()" using lock_admin [OF adm(1)] adm(2) by (simp add: s1_def)
  have s1: "pipeNames s1 = pipeNames s" "lastPipeName s1 = lastPipeName s" "getCurrentPid s1 = getCurrentPid s"
    "ring s1 xs" "getCurrentProcess s1 = getCurrentProcess s"
    using r by (simp_all add: s1_def getCurrentProcess_def)
  have at: "at (pipeNames s1) (lastPipeName s1) = Some NULL" using place s1 by (simp add: at_def)
  have p: "getProcessById (getCurrentPid s1) s1 = getCurrentProcess s"
    using getProcessById_current [OF s1(4)] s1(5) by simp
  obtain pipe s3 where cp: "createPipeStruct (getCurrentProcess s) name s1 = (pipe, s3)" by fastforce
  have fr: "mutexes s3 = mutexes s1" "adminMutex s3 = 0" "current s3 = current s" "ring s3 xs"
    using createPipeStruct_frame [of "getCurrentProcess s" name s1 xs] s1(4) a0 unfolding cp by (simp_all add: s1_def)
  have pid3: "getCurrentPid s3 = getCurrentPid s"
  proof -
    have "slot_pid s3 (current s) = slot_pid s (current s)"
      using createPipeStruct_pid [of "getCurrentProcess s" name s1 "current s"] unfolding cp by (simp add: s1_def)
    then show ?thesis using fr(3) by (simp add: getCurrentPid_def)
  qed
  have "\<not> lastPipeName s1 \<ge> int MAX_PIPES" using place s1 by simp
  then have "createPipe name s = bind_exec (getMutex name s3) (\<lambda>s4 m.
      let s5 = upd_pipe pipe (\<lambda>x. x\<lparr>pi_mutex := m\<rparr>) s4 in
      if lastPipeName s5 < 0 \<or> lastPipeName s5 \<ge> int MAX_PIPES then Fault
      else let i = nat (lastPipeName s5);
               s6 = s5\<lparr>pipeNames := (pipeNames s5)[i := name], pipes_table := (pipes_table s5)[i := pipe],
                       lastPipeName := lastPipeName s5 + 1\<rparr>
           in bind_exec (freeMutex (ipcAdminMutex s6) s6) (\<lambda>s7 _. Done s7 pipe))"
    using nz at p cp by (simp add: createPipe_def l)
  moreover define m0 where "m0 = mutexes s ! 0"
  have len: "0 < length (mutexes s)" "table_ok s3" "(0::nat) < MAX_MUTEXES"
    using adm(1) fr(1) by (simp_all add: names_ok_def table_ok_def s1_def MAX_MUTEXES_def)
  have m3: "mutexes s3 ! 0 = m0\<lparr>m_mutex := 1\<rparr>" using fr(1) len(1) by (simp add: s1_def m0_def)
  have wz: "waiting (m_queue m0) = {#}" "queue_ok (m_queue m0)" "m_cardinalBlocked m0 = 0" "m_used m0"
    using adm(1) by (auto simp: names_ok_def mutex_ok_def m0_def)
  have ok3: "m_used (mutexes s3 ! 0)" "mutex_ok (mutexes s3 ! 0)" "m_mutex (mutexes s3 ! 0) = 1" "\<not> isQueueFull 0 s3"
    using wz by (simp_all add: m3 mutex_ok_def isQueueFull_def MAX_BLOCKED_QUEUE_SIZE_def)
  obtain q where q: "waiting q = add_mset (getCurrentPid s3) (waiting (m_queue (mutexes s3 ! 0)))"
    "lockMutex (int 0) s3 = yield_exec (changeProcessState (getCurrentPid s3) BLOCKED
       (upd_mutex 0 (\<lambda>m. m\<lparr>m_queue := q, m_cardinalBlocked := m_cardinalBlocked m + 1\<rparr>) s3))"
    by (rule lock_taken_mutex [OF len(2,3) ok3]) (use pid pid3 in auto)
  define w where "w = upd_mutex 0 (\<lambda>m. m\<lparr>m_queue := q, m_cardinalBlocked := m_cardinalBlocked m + 1\<rparr>) s3"
  define v where "v = changeProcessState (getCurrentPid s3) BLOCKED w"
  have "\<exists>g. getMutex name s3 = bind_exec (yield_exec v) g" using q(2) fr(2) by (auto simp: getMutex_def v_def w_def)
  ultimately have "\<exists>f. createPipe name s = bind_exec (yield_exec v) f" by (auto simp: bind_exec_assoc)
  moreover have "ring w xs" using fr(4) by (simp add: w_def)
  then have "slot_state v (current v) = BLOCKED"
    using current_state_change [of w xs BLOCKED] by (simp add: v_def) (simp add: w_def)
  moreover have "current v = current s" using fr(3) by (simp add: v_def w_def)
  moreover have "mutexes v ! 0 = m0\<lparr>m_mutex := 1, m_queue := q, m_cardinalBlocked := m_cardinalBlocked m0 + 1\<rparr>"
    using len m3 fr(1) by (simp add: v_def w_def s1_def)
  ultimately show ?thesis using a0 adm(2) q(1) wz(1) m3 pid3 by (intro exI [of _ v]) auto
qed

section \<open>An example state\<close>

definition ex_pipe :: Pipe where
  "ex_pipe = \<lparr>pi_name = 50, pi_position = 8, pi_end = 8, pi_creator = 0, pi_pipePids = 0, pi_blocked = 0,
     pi_cardinalBlocked = 0, pi_connected = 1, pi_pipe = 6000, pi_readFlag = 0, pi_mutex = 2\<rparr>"

definition ex_isched :: isched where
  "ex_isched = ssched.extend ex_ssched
     \<lparr>pipeNames = replicate 50 0, pipes_table = replicate 50 0, lastPipeName = 0, ipcAdminMutex = 0,
      pipe_at = (\<lambda>_. ex_pipe), newline_literal = 0, ipc_literal = 0\<rparr>"

definition ex_message :: isched where
  "ex_message = ex_isched\<lparr>cmem := put_cstr 70 [104, 105, 33] (\<lambda>_. 0)\<rparr>"

definition ex_filled :: isched where
  "ex_filled = ex_isched\<lparr>pipe_at := (\<lambda>_. ex_pipe\<lparr>pi_end := 1\<rparr>), cmem := (\<lambda>_. 0)(6008 := 104, 6009 := 105, 6000 := 33)\<rparr>"

lemma ex_isched_simps [simp]:
  "slots ex_isched = slots ex_sched" "procs ex_isched = procs ex_sched" "current ex_isched = current ex_sched"
  "cardinal_processes ex_isched = cardinal_processes ex_sched" "slot_proc ex_isched x = slot_proc ex_sched x"
  "getCurrentPid ex_isched = 0" "mutexes ex_isched = mutexes ex_msched" "adminMutex ex_isched = 0"
  "pipeNames ex_isched = replicate 50 0" "lastPipeName ex_isched = 0" "ipcAdminMutex ex_isched = 0"
  "pipe_at ex_isched = (\<lambda>_. ex_pipe)"
  by (simp_all add: ex_isched_def ssched.defs ex_ssched_def msched.defs ex_msched_def sched.defs ex_sched_simps getCurrentPid_def)

lemma ring_ex_isched: "ring ex_isched [100, 200, 300]" "ring ex_message [100, 200, 300]" "ring ex_filled [100, 200, 300]"
  using ring_ex_sched by (simp_all add: ring_def ex_message_def ex_filled_def slot_proc_def)

lemma lock_free_ex_isched: "lock_free 2 ex_isched" "lock_free 2 ex_message" "lock_free 2 ex_filled"
  by (simp_all add: lock_free_def table_ok_def MAX_MUTEXES_def ex_message_def ex_filled_def)

lemma ex_pipe_simps [simp]: "pi_mutex ex_pipe = 2" "pi_pipe ex_pipe = 6000" "pipe_ok ex_pipe" "pipe_count ex_pipe = 0"
  by (simp_all add: ex_pipe_def pipe_ok_def pipe_count_def)

section \<open>Properties\<close>

text \<open>
  C15: while its mutex is free and the message lies apart from the buffer, \<open>write\<close> returns after
  it appended to the content of the pipe as many bytes of the message as there is room for, and
  releases the mutex; the bytes may wrap around the end of the buffer. On a full pipe it writes
  nothing, and the caller, whom nobody will wake, is marked blocked although the call returns to
  it. An empty message to an empty pipe is the exception: it leaves a full pipe.
\<close>

theorem write_appends_message:
  assumes "lock_free (pi_mutex (pipe_at s p)) s" "pipe_ok (pipe_at s p)" "ring s xs"
    and "lastPipeName s \<le> int (length (pipeNames s))" "cstr N (cmem s) message = Some msg"
    and "message + length msg < pi_pipe (pipe_at s p) \<or> pi_pipe (pipe_at s p) + PIPE_LENGTH \<le> message"
  shows "\<exists>t. write_pipe p message s = Done t (int (min (length msg) (PIPE_LENGTH - length (contents s p)))) \<and>
    (if msg = [] \<and> contents s p = [] then length (contents t p) = PIPE_LENGTH
     else contents t p = contents s p @ take (PIPE_LENGTH - length (contents s p)) msg) \<and>
    pipe_ok (pipe_at t p) \<and> mutexes t = mutexes s \<and>
    (length (contents s p) = PIPE_LENGTH \<longrightarrow>
       slot_state t (current s) = BLOCKED \<and> pi_cardinalBlocked (pipe_at t p) = pi_cardinalBlocked (pipe_at s p))"
proof (cases "pipe_count (pipe_at s p) = 10")
  case True
  then obtain t where "write_pipe p message s = Done t 0" "pipe_at t = pipe_at s" "cmem t = cmem s"
    "mutexes t = mutexes s" "slot_state t (current s) = BLOCKED"
    using write_full [OF assms(1) True assms(2,3), of message] by blast
  moreover have "contents s p \<noteq> []" using True unfolding length_contents [symmetric] by (auto simp del: length_contents)
  ultimately show ?thesis using True assms(2) by (intro exI [of _ t]) (simp add: PIPE_LENGTH_def contents_def Let_def)
next
  case False
  then have room: "pipe_count (pipe_at s p) < 10" using pipe_count_le [of "pipe_at s p"] by simp
  define k where "k = min (length msg) (10 - pipe_count (pipe_at s p))"
  have apart: "message + length msg < pi_pipe (pipe_at s p) \<or> pi_pipe (pipe_at s p) + 10 \<le> message"
    using assms(6) by (simp add: PIPE_LENGTH_def)
  obtain t where w: "write_pipe p message s = Done t (int k)" "mutexes t = mutexes s"
    "0 < pipe_count (pipe_at s p) + k \<longrightarrow> pipe_ok (pipe_at t p) \<and> contents t p = contents s p @ take k msg"
    "pipe_count (pipe_at s p) + k = 0 \<longrightarrow> pipe_ok (pipe_at t p) \<and> length (contents t p) = 10"
    using write_room [OF assms(1,2) room assms(4,5) apart assms(3), folded k_def] by (elim exE conjE) (rule that)
  have both: "pipe_count (pipe_at s p) + k = 0 \<longleftrightarrow> msg = [] \<and> contents s p = []"
    using room length_contents [of s p] by (auto simp: k_def min_def simp del: length_contents split: if_splits)
  have tk: "take k msg = take (10 - pipe_count (pipe_at s p)) msg" by (simp add: k_def min_def)
  show ?thesis
  proof (cases "msg = [] \<and> contents s p = []")
    case True
    then have "pipe_count (pipe_at s p) + k = 0" using both by blast
    from mp [OF w(4) this] have "pipe_ok (pipe_at t p)" "length (contents t p) = 10" by blast+
    then show ?thesis unfolding if_P [OF True] using True w(1,2) False by (intro exI [of _ t]) (simp add: PIPE_LENGTH_def k_def)
  next
    case some: False
    then have "0 < pipe_count (pipe_at s p) + k" using both by (metis gr0I)
    from mp [OF w(3) this] have "pipe_ok (pipe_at t p)" "contents t p = contents s p @ take k msg" by blast+
    then show ?thesis unfolding if_not_P [OF some] using w(1,2) False tk by (intro exI [of _ t]) (simp add: PIPE_LENGTH_def k_def)
  qed
qed

theorem write_appends_message_witness:
  "\<exists>t. write_pipe 5000 70 ex_message = Done t 3 \<and> contents t 5000 = [104, 105, 33]"
proof -
  have m: "pipe_at ex_message 5000 = ex_pipe" "lastPipeName ex_message = 0" by (simp_all add: ex_message_def)
  have c: "contents ex_message 5000 = []" by (simp add: contents_def m)
  have s: "cstr 4 (cmem ex_message) 70 = Some [104, 105, 33]"
    unfolding ex_message_def by (simp add: cstr_put_cstr del: put_cstr.simps)
  have "\<exists>t. write_pipe 5000 70 ex_message = Done t (int (min (length [104, 105, 33 :: byte]) (PIPE_LENGTH - 0))) \<and>
      contents t 5000 = [] @ take (PIPE_LENGTH - 0) [104, 105, 33]"
    using write_appends_message [OF _ _ ring_ex_isched(2) _ s, of 5000] lock_free_ex_isched(2)
    by (auto simp: m c PIPE_LENGTH_def)
  then show ?thesis by (simp add: PIPE_LENGTH_def)
qed

text \<open>
  C16: while its mutex is free and the result lies apart from the buffer, \<open>read\<close> of a pipe that
  holds bytes returns without giving up the processor and delivers them in the order in which they
  were written: the first \<open>bytes\<close> of the content (all of it for \<open>-1\<close>) are copied to the result and
  removed. A call that asks for no bytes gets none, but it empties a full pipe. (The position is
  read before the lock is taken, so that with a mutex in use the bytes may be those of another reader.)
\<close>

theorem read_removes_oldest:
  assumes "lock_free (pi_mutex (pipe_at s p)) s" "pipe_ok (pipe_at s p)" "ring s xs" "contents s p \<noteq> []"
    and "k = min (if bytes = - 1 then PIPE_LENGTH else nat bytes) (length (contents s p))"
    and "result + k \<le> pi_pipe (pipe_at s p) \<or> pi_pipe (pipe_at s p) + PIPE_LENGTH \<le> result"
  shows "\<exists>t. read_pipe p result bytes s = Done t (int k) \<and> bytes_at (cmem t) result k = take k (contents s p) \<and>
    contents t p = (if k = 0 \<and> length (contents s p) = PIPE_LENGTH then [] else drop k (contents s p)) \<and>
    pipe_ok (pipe_at t p) \<and> mutexes t = mutexes s"
proof (cases "bytes = - 1 \<or> 0 < bytes")
  case True
  have k: "min (if bytes = - 1 then 10 else nat bytes) (length (contents s p)) = k"
    using assms(5) by (simp add: PIPE_LENGTH_def)
  have "0 < length (contents s p)" using assms(4) by blast
  then have "0 < k" using True unfolding k [symmetric] by (auto simp del: length_contents length_greater_0_conv)
  have "result + k \<le> pi_pipe (pipe_at s p) \<or> pi_pipe (pipe_at s p) + 10 \<le> result"
    using assms(6) by (simp add: PIPE_LENGTH_def)
  from read_some [OF assms(1,2,4) True assms(3), unfolded k, OF this] obtain t where
    "read_pipe p result bytes s = Done t (int k)" "bytes_at (cmem t) result k = take k (contents s p)"
    "contents t p = drop k (contents s p)" "pipe_ok (pipe_at t p)" "mutexes t = mutexes s"
    by (elim exE conjE) (rule that)
  then show ?thesis using \<open>0 < k\<close> by auto
next
  case False
  then have "k = 0" using assms(5) by simp
  then show ?thesis using read_nothing [OF assms(1,2,4), of bytes result] False
    by (auto simp: PIPE_LENGTH_def bytes_at_def)
qed

theorem read_removes_oldest_witness:
  "\<exists>t. read_pipe 5000 70 2 ex_filled = Done t 2 \<and> bytes_at (cmem t) 70 2 = [104, 105] \<and> contents t 5000 = [33]"
proof -
  have m: "pipe_at ex_filled 5000 = ex_pipe\<lparr>pi_end := 1\<rparr>" by (simp add: ex_filled_def)
  have "contents ex_filled 5000 = ring_bytes (cmem ex_filled) 6000 10 8 3"
    by (simp add: contents_def m pipe_count_def ex_pipe_def)
  also have "\<dots> = [104, 105, 33]"
  proof -
    have "[0..<3] = [0, 1, 2 :: nat]" by (simp add: upt_rec)
    then show ?thesis by (simp add: ring_bytes_def ex_filled_def)
  qed
  finally have c: "contents ex_filled 5000 = [104, 105, 33]" .
  have "pipe_ok (ex_pipe\<lparr>pi_end := 1\<rparr>)" "pi_mutex (ex_pipe\<lparr>pi_end := 1\<rparr>) = 2" "pi_pipe (ex_pipe\<lparr>pi_end := 1\<rparr>) = 6000"
    by (simp_all add: ex_pipe_def pipe_ok_def)
  then show ?thesis
    using read_removes_oldest [OF _ _ ring_ex_isched(3), of 5000 2 2 70] lock_free_ex_isched(3) by (auto simp: m c)
qed

text \<open>
  Writing an empty message to an empty pipe makes it full: the call returns 0, and the
  next reader is given ten bytes that nobody wrote.
\<close>

theorem empty_write_fills_pipe:
  assumes "lock_free (pi_mutex (pipe_at s p)) s" "pipe_ok (pipe_at s p)" "ring s xs"
    and "lastPipeName s \<le> int (length (pipeNames s))" "cmem s message = 0" "contents s p = []"
    and "message < pi_pipe (pipe_at s p) \<or> pi_pipe (pipe_at s p) + PIPE_LENGTH \<le> message"
  shows "\<exists>t. write_pipe p message s = Done t 0 \<and> length (contents t p) = PIPE_LENGTH \<and> pipe_ok (pipe_at t p)"
proof -
  have c: "pipe_count (pipe_at s p) = 0" using assms(6) length_contents [of s p] by simp
  have m: "cstr 1 (cmem s) message = Some []" using assms(5) by simp
  show ?thesis
    using write_room [OF assms(1,2) _ assms(4) m _ assms(3)] assms(7) by (auto simp: c PIPE_LENGTH_def)
qed

theorem empty_write_fills_pipe_witness:
  "\<exists>t. write_pipe 5000 70 ex_isched = Done t 0 \<and> length (contents t 5000) = 10"
proof -
  have "contents ex_isched 5000 = []" by (simp add: contents_def)
  moreover have "cmem ex_isched 70 = 0"
    by (simp add: ex_isched_def ssched.defs ex_ssched_def msched.defs ex_msched_def sched.defs ex_sched_def)
  ultimately show ?thesis
    using empty_write_fills_pipe [OF _ _ ring_ex_isched(1), of 5000 70] lock_free_ex_isched(1)
    by (auto simp: PIPE_LENGTH_def)
qed

text \<open>
  The kernel never calls \<open>initializePipes\<close>, so that \<open>ipcAdminMutex\<close> is 0, the mutex that
  protects the table of mutexes. Creating a pipe then takes that mutex and asks \<open>getMutex\<close> for
  the mutex of the pipe, which wants it again: the caller blocks on a lock it holds itself.
\<close>

theorem createPipe_blocks_itself:
  assumes "names_ok s" "ipcAdminMutex s = adminMutex s" "ring s xs" "getCurrentPid s \<noteq> - 1"
    and "0 \<le> lastPipeName s" "lastPipeName s < int (length (pipeNames s))" "length (pipeNames s) = MAX_PIPES"
      "pipeNames s ! nat (lastPipeName s) = NULL"
    and "name \<noteq> NULL" "getCurrentProcess s \<noteq> NULL"
  shows "\<exists>v f. createPipe name s = bind_exec (yield_exec v) f \<and> current v = current s \<and>
    slot_state v (current v) = BLOCKED \<and> m_mutex (mutexes v ! nat (ipcAdminMutex s)) = 1 \<and>
    waiting (m_queue (mutexes v ! nat (ipcAdminMutex s))) = {#getCurrentPid s#}"
  by (rule createPipe_self_lock [OF assms(1-4) assms(5-8) assms(9,10)])

theorem createPipe_blocks_itself_witness:
  "\<exists>v f. createPipe 50 ex_isched = bind_exec (yield_exec v) f \<and> slot_state v (current v) = BLOCKED"
proof -
  have "names_ok ex_isched" by (simp add: names_ok_def table_ok_def MAX_MUTEXES_def)
  moreover have "getCurrentProcess ex_isched \<noteq> NULL"
    by (simp add: getCurrentProcess_def ex_sched_simps)
  ultimately show ?thesis
    using createPipe_blocks_itself [OF _ _ ring_ex_isched(1), of 50] by (auto simp: MAX_PIPES_def)
qed

end
