(* ===== verification/Malloc.thy ===== *)
theory Malloc
  imports IPC
begin

unbundle bit_operations_syntax

text \<open>
  The heap inside the pages: \<open>Kernel/malloc.c\<close>. Blocks are linked by address in both
  directions; the header of a block takes 28 bytes and its data follows. Sizes are unsigned
  32-bit words, as \<open>size_t\<close> of \<open>include/types.h\<close>. The lemmas show that an allocation never
  hands out memory that is in use, and that the last block of a heap cannot be released.
\<close>

section \<open>State\<close>

record t_block =
  b_size :: "32 word"
  b_next :: addr
  b_prev :: addr
  b_free :: int

text \<open>\<open>junk_ptr\<close> is the second argument of a call that passes only one (\<open>extendHeap(size)\<close>).\<close>

record hsched = isched +
  blocks :: "addr \<Rightarrow> t_block"
  heapBase :: addr
  kernelBase :: addr
  junk_ptr :: addr

definition BLOCK_STRUCT_SIZE :: nat where "BLOCK_STRUCT_SIZE = 28"
definition sizeof_block :: nat where "sizeof_block = 32"
definition KERNEL_HEAP_START :: addr where "KERNEL_HEAP_START = 0x4000"
definition KERNEL_HEAP_SIZE :: nat where "KERNEL_HEAP_SIZE = PAGE_SIZE * 17"

definition dataStart :: "addr \<Rightarrow> addr" where "dataStart b = b + BLOCK_STRUCT_SIZE"

definition align4 :: "32 word \<Rightarrow> 32 word" where
  "align4 x = push_bit 2 (drop_bit 2 (x - 1)) + 4"

definition upd_block :: "addr \<Rightarrow> (t_block \<Rightarrow> t_block) \<Rightarrow> 'a hsched_scheme \<Rightarrow> 'a hsched_scheme" where
  "upd_block b f s = s\<lparr>blocks := (blocks s)(b := f (blocks s b))\<rparr>"

section \<open>Allocation\<close>

text \<open>The search for a free block: \<open>None\<close> is a list that never ends.\<close>

partial_function (option) findFirstFreeBlock :: "addr \<Rightarrow> 32 word \<Rightarrow> 'a hsched_scheme \<Rightarrow> addr option" where
  "findFirstFreeBlock cur sz s =
     (if cur \<noteq> NULL \<and> \<not> (b_free (blocks s cur) \<noteq> 0 \<and> b_size (blocks s cur) > sz)
      then findFirstFreeBlock (b_next (blocks s cur)) sz s
      else Some cur)"

definition split_block :: "addr \<Rightarrow> 32 word \<Rightarrow> 'a hsched_scheme \<Rightarrow> 'a hsched_scheme" where
  "split_block block sz s =
     (if b_size (blocks s block) < sz then s
      else
        let newBlock = dataStart block + unat sz;
            s1 = upd_block newBlock (\<lambda>n. n\<lparr>b_next := b_next (blocks s block), b_free := 1,
                   b_size := b_size (blocks s block) - (sz + 28), b_prev := block\<rparr>) s
        in upd_block block (\<lambda>b. b\<lparr>b_next := newBlock, b_size := sz\<rparr>) s1)"

text \<open>What \<open>kmalloc\<close> and \<open>mallock\<close> do with the block they found.\<close>

definition take_block :: "addr \<Rightarrow> 32 word \<Rightarrow> 'a hsched_scheme \<Rightarrow> addr \<times> 'a hsched_scheme" where
  "take_block freeBlock s_size s =
     (let s1 = (if b_size (blocks s freeBlock) > s_size + 4 + 28 then split_block freeBlock s_size s else s)
      in (dataStart freeBlock, upd_block freeBlock (\<lambda>b. b\<lparr>b_free := 0\<rparr>) s1))"

definition initializeKernelHeap :: "'a hsched_scheme \<Rightarrow> 'a hsched_scheme" where
  "initializeKernelHeap s =
     (let s1 = s\<lparr>kernelBase := KERNEL_HEAP_START\<rparr>
      in upd_block (kernelBase s1) (\<lambda>b. b\<lparr>b_size := of_nat KERNEL_HEAP_SIZE, b_free := 1, b_next := NULL, b_prev := NULL\<rparr>) s1)"

definition kmalloc :: "32 word \<Rightarrow> 'a hsched_scheme \<Rightarrow> (addr \<times> 'a hsched_scheme) option" where
  "kmalloc sz s =
     (if kernelBase s = NULL then Some (KERNEL_HEAP_START, s)
      else if sz = 0 then Some (NULL, s)
      else
        case findFirstFreeBlock (kernelBase s) (align4 sz) s of
          None \<Rightarrow> None
        | Some freeBlock \<Rightarrow>
            if freeBlock = NULL then Some (NULL, s) else Some (take_block freeBlock (align4 sz) s))"

partial_function (option) findLast_loop :: "addr \<Rightarrow> 'a hsched_scheme \<Rightarrow> addr option" where
  "findLast_loop cur s =
     (if b_next (blocks s cur) \<noteq> NULL then findLast_loop (b_next (blocks s cur)) s else Some cur)"

definition findLastInHeap :: "'a hsched_scheme \<Rightarrow> addr option" where
  "findLastInHeap s = findLast_loop (heapBase s) s"

definition extendHeap :: "32 word \<Rightarrow> addr \<Rightarrow> 'a hsched_scheme \<Rightarrow> (addr \<times> 'a hsched_scheme) option" where
  "extendHeap sz p s =
     (let numberOfPages = NUMBER_OF_PAGES_TO_ALLOC (unat (sz + 28)) in
      case alloc_st numberOfPages s of
        None \<Rightarrow> None
      | Some (newBlock, s1) \<Rightarrow>
          let s2 = upd_block newBlock (\<lambda>b. b\<lparr>b_size := of_nat (numberOfPages * PAGE_SIZE) - 28, b_free := 1, b_next := NULL\<rparr>) s1
          in case (if heapBase s2 = NULL
                   then Some (upd_proc p (\<lambda>q. q\<lparr>p_heap := newBlock\<rparr>)
                          (let s3 = s2\<lparr>heapBase := newBlock\<rparr> in upd_block (heapBase s3) (\<lambda>b. b\<lparr>b_prev := NULL\<rparr>) s3))
                   else map_option (\<lambda>last. upd_block newBlock (\<lambda>b. b\<lparr>b_prev := last\<rparr>)
                          (upd_block last (\<lambda>b. b\<lparr>b_next := newBlock\<rparr>) s2)) (findLastInHeap s2)) of
               None \<Rightarrow> None
             | Some s4 \<Rightarrow> Some (newBlock, addPagesToProcess newBlock (p_pid (procs s4 p)) s4))"

definition mallock :: "32 word \<Rightarrow> 'a hsched_scheme \<Rightarrow> (addr \<times> 'a hsched_scheme) option" where
  "mallock sz s =
     (let p = getCurrentProcess s in
      if p = NULL then Some (kernelBase s, s\<lparr>kernelBase := kernelBase s + unat sz * sizeof_block\<rparr>)
      else
        let s1 = s\<lparr>heapBase := p_heap (procs s p)\<rparr> in
        if sz = 0 then Some (NULL, s1)
        else
          let a = align4 sz in
          case (if heapBase s1 = NULL then map_option snd (extendHeap sz p s1) else Some s1) of
            None \<Rightarrow> None
          | Some s2 \<Rightarrow>
              (case findFirstFreeBlock (heapBase s2) a s2 of
                 None \<Rightarrow> None
               | Some freeBlock \<Rightarrow>
                   (case (if freeBlock = NULL then extendHeap sz (junk_ptr s2) s2 else Some (freeBlock, s2)) of
                      None \<Rightarrow> None
                    | Some (b, s3) \<Rightarrow> Some (take_block b a s3))))"

section \<open>Release\<close>

definition mergeBlocks :: "addr \<Rightarrow> 'a hsched_scheme \<Rightarrow> 'a hsched_scheme" where
  "mergeBlocks firstBlock s =
     (let s1 = upd_block firstBlock (\<lambda>b. b\<lparr>b_size := b_size b + (b_size (blocks s (b_next b)) + 28)\<rparr>) s
      in upd_block firstBlock (\<lambda>b. b\<lparr>b_next := b_next (blocks s1 (b_next b))\<rparr>) s1)"

partial_function (option) getBlock_loop :: "addr \<Rightarrow> addr \<Rightarrow> 'a hsched_scheme \<Rightarrow> addr option" where
  "getBlock_loop cur p s =
     (if cur \<noteq> NULL \<and> b_next (blocks s cur) < p then getBlock_loop (b_next (blocks s cur)) p s
      else Some cur)"

definition getBlock :: "addr \<Rightarrow> 'a hsched_scheme \<Rightarrow> addr option" where
  "getBlock p s = getBlock_loop (heapBase s) p s"

definition isValidAddress :: "addr \<Rightarrow> 'a hsched_scheme \<Rightarrow> bool" where
  "isValidAddress p s \<longleftrightarrow> \<not> (p = NULL \<or> p < dataStart (heapBase s))"

definition free :: "addr \<Rightarrow> 'a hsched_scheme \<Rightarrow> 'a hsched_scheme option" where
  "free p s =
     (if isValidAddress p s then
        (case getBlock p s of
           None \<Rightarrow> None
         | Some blockForFree \<Rightarrow>
             if blockForFree = NULL then Some s
             else
               let s1 = upd_block blockForFree (\<lambda>b. b\<lparr>b_free := 1\<rparr>) s;
                   n = b_next (blocks s1 blockForFree);
                   s2 = (if n \<noteq> NULL \<and> b_free (blocks s1 n) = 1 then mergeBlocks blockForFree s1 else s1);
                   q = b_prev (blocks s2 blockForFree)
               in Some (if q \<noteq> NULL \<and> b_free (blocks s2 q) = 1 then mergeBlocks q s2 else s2))
      else Some s)"

section \<open>The list of blocks\<close>

text \<open>
  \<open>heap_list s a bs\<close>: from \<open>a\<close> on the blocks are \<open>bs\<close>, linked in this order by their headers
  up to the null pointer, and none of them reaches into the next one.
\<close>

fun heap_list :: "'a hsched_scheme \<Rightarrow> addr \<Rightarrow> addr list \<Rightarrow> bool" where
  "heap_list s a [] \<longleftrightarrow> a = NULL"
| "heap_list s a (b # bs) \<longleftrightarrow> a = b \<and> b \<noteq> NULL \<and> heap_list s (b_next (blocks s b)) bs \<and>
     (\<forall>c \<in> set bs. dataStart b + unat (b_size (blocks s b)) \<le> c)"

text \<open>The bytes of a block, header included, and the blocks in use.\<close>

definition extent :: "'a hsched_scheme \<Rightarrow> addr \<Rightarrow> addr set" where
  "extent s b = {b ..< dataStart b + unat (b_size (blocks s b))}"

definition in_use :: "'a hsched_scheme \<Rightarrow> addr list \<Rightarrow> addr set" where
  "in_use s bs = {b \<in> set bs. b_free (blocks s b) = 0}"

lemma dataStart_gt: "b < dataStart b"
  by (simp add: dataStart_def BLOCK_STRUCT_SIZE_def)

lemma heap_list_distinct: "heap_list s a bs \<Longrightarrow> distinct bs"
proof (induction bs arbitrary: a)
  case (Cons b bs)
  then have "b \<notin> set bs" using dataStart_gt [of b] by fastforce
  with Cons show ?case by auto
qed simp

text \<open>Two blocks of a heap do not overlap.\<close>

lemma heap_list_disjoint:
  "heap_list s a bs \<Longrightarrow> b \<in> set bs \<Longrightarrow> c \<in> set bs \<Longrightarrow> b \<noteq> c \<Longrightarrow> extent s b \<inter> extent s c = {}"
proof (induction bs arbitrary: a)
  case (Cons d bs)
  have *: "extent s d \<inter> extent s x = {}" if "x \<in> set bs" for x
    using Cons.prems(1) that by (fastforce simp: extent_def)
  show ?case
  proof (cases "b = d \<or> c = d")
    case True
    then show ?thesis using Cons.prems * by (auto simp: Int_commute)
  next
    case False
    then show ?thesis using Cons by auto
  qed
qed simp

lemma findFirstFreeBlock_list:
  "heap_list s a bs \<Longrightarrow> findFirstFreeBlock a sz s =
     Some (case first_index (\<lambda>b. b_free (blocks s b) \<noteq> 0 \<and> b_size (blocks s b) > sz) bs of
       None \<Rightarrow> NULL | Some i \<Rightarrow> bs ! i)"
proof (induction bs arbitrary: a)
  case Nil
  then show ?case by (subst findFirstFreeBlock.simps) (simp add: first_index_def)
next
  case (Cons b bs)
  let ?P = "\<lambda>b. b_free (blocks s b) \<noteq> 0 \<and> b_size (blocks s b) > sz"
  have fi: "first_index ?P (b # bs) = (if ?P b then Some 0 else map_option Suc (first_index ?P bs))"
    by (rule first_index_Cons)
  show ?case
  proof (cases "?P b")
    case True
    then show ?thesis using Cons.prems fi by (subst findFirstFreeBlock.simps) auto
  next
    case False
    then have "findFirstFreeBlock a sz s = findFirstFreeBlock (b_next (blocks s b)) sz s"
      using Cons.prems by (subst findFirstFreeBlock.simps) auto
    with Cons False fi show ?thesis by (auto split: option.splits)
  qed
qed

lemma getBlock_last:
  "heap_list s a bs \<Longrightarrow> bs \<noteq> [] \<Longrightarrow> last bs < p \<Longrightarrow> getBlock_loop a p s = Some NULL"
proof (induction bs arbitrary: a)
  case (Cons b bs)
  then have ab: "a = b" "b \<noteq> 0" by simp_all
  show ?case
  proof (cases bs)
    case Nil
    then have "b_next (blocks s b) = 0" "0 < p" using Cons.prems by auto
    then show ?thesis using ab by (subst getBlock_loop.simps) (simp add: getBlock_loop.simps)
  next
    case (Cons c cs)
    then have hl: "heap_list s (b_next (blocks s b)) bs" "b_next (blocks s b) = c" using Cons.prems by auto
    have "c \<le> last bs"
    proof (cases cs)
      case Nil
      then show ?thesis using Cons by simp
    next
      case (Cons d ds)
      then have "last bs \<in> set cs" using \<open>bs = c # cs\<close> by simp
      then have "dataStart c \<le> last bs" using hl(1) \<open>bs = c # cs\<close> by fastforce
      then show ?thesis using dataStart_gt [of c] by simp
    qed
    then have "c < p" using Cons.prems(3) \<open>bs = c # cs\<close> by simp
    then have "getBlock_loop a p s = getBlock_loop c p s" using ab hl(2) by (subst getBlock_loop.simps) simp
    moreover have "getBlock_loop c p s = Some NULL"
      using Cons.IH [of c] hl Cons.prems(3) \<open>bs = c # cs\<close> by simp
    ultimately show ?thesis by simp
  qed
qed simp

lemma heap_list_cong:
  "(\<And>b. b \<in> set bs \<Longrightarrow> b_next (blocks t b) = b_next (blocks s b) \<and> b_size (blocks t b) = b_size (blocks s b)) \<Longrightarrow>
   heap_list t a bs = heap_list s a bs"
  by (induction bs arbitrary: a) auto

fun insert_after :: "addr \<Rightarrow> addr \<Rightarrow> addr list \<Rightarrow> addr list" where
  "insert_after b n [] = []"
| "insert_after b n (c # cs) = (if c = b then b # n # cs else c # insert_after b n cs)"

lemma set_insert_after: "b \<in> set bs \<Longrightarrow> set (insert_after b n bs) = insert n (set bs)"
  by (induction bs) auto

lemma heap_list_split:
  assumes "heap_list s a bs" "b \<in> set bs" "unat w + 28 \<le> unat (b_size (blocks s b))"
    and n: "n = dataStart b + unat w"
    and t: "blocks t = (blocks s)(n := N, b := B)" "b_next N = b_next (blocks s b)" "b_next B = n" "b_size B = w"
      "unat (b_size N) + unat w + 28 = unat (b_size (blocks s b))"
  shows "heap_list t a (insert_after b n bs) \<and> n \<notin> set bs"
  using assms(1,2)
proof (induction bs arbitrary: a)
  case (Cons c cs)
  have nb: "b < n" using n dataStart_gt [of b] by simp
  have end_n: "dataStart n + unat (b_size N) = dataStart b + unat (b_size (blocks s b))"
    using n t(5) by (simp add: dataStart_def BLOCK_STRUCT_SIZE_def)
  show ?case
  proof (cases "c = b")
    case True
    then have hb: "a = b" "b \<noteq> 0" "heap_list s (b_next (blocks s b)) cs"
      "\<And>x. x \<in> set cs \<Longrightarrow> dataStart b + unat (b_size (blocks s b)) \<le> x"
      using Cons.prems(1) by auto
    have le: "n < x" if "x \<in> set cs" for x
      using hb(4) [OF that] end_n dataStart_gt [of n] by simp
    have "heap_list t (b_next (blocks s b)) cs = heap_list s (b_next (blocks s b)) cs"
    proof (rule heap_list_cong)
      fix x assume "x \<in> set cs"
      then show "b_next (blocks t x) = b_next (blocks s x) \<and> b_size (blocks t x) = b_size (blocks s x)"
        using le [of x] nb t(1) by auto
    qed
    moreover have "dataStart n + unat (b_size N) \<le> x" if "x \<in> set cs" for x
      using hb(4) [OF that] end_n by simp
    moreover have "dataStart b + unat w \<le> x" if "x \<in> set cs" for x using le [OF that] n by simp
    moreover have "0 < dataStart b" using dataStart_gt [of b] by simp
    ultimately have "heap_list t a (b # n # cs)" using hb nb t n by simp
    moreover have "n \<notin> set (c # cs)" using True nb le by auto
    ultimately show ?thesis using True by simp
  next
    case False
    then have b: "b \<in> set cs" using Cons.prems(2) by simp
    have hc: "a = c" "c \<noteq> 0" "heap_list s (b_next (blocks s c)) cs"
      "\<And>x. x \<in> set cs \<Longrightarrow> dataStart c + unat (b_size (blocks s c)) \<le> x"
      using Cons.prems(1) by auto
    have "c < b" using hc(4) [OF b] dataStart_gt [of c] by simp
    then have bc: "blocks t c = blocks s c" using nb t(1) by simp
    note IH = Cons.IH [OF hc(3) b]
    have "dataStart c + unat (b_size (blocks s c)) \<le> n" using hc(4) [OF b] nb by simp
    then have "heap_list t a (insert_after b n (c # cs))"
      using IH hc bc False set_insert_after [OF b, of n] by auto
    moreover have "n \<noteq> c" using \<open>c < b\<close> nb by simp
    ultimately show ?thesis using IH by simp
  qed
qed simp

lemma heap_list_NULL: "heap_list s a bs \<Longrightarrow> NULL \<notin> set bs"
  by (induction bs arbitrary: a) auto

lemma unat_align4_eq:
  assumes "x \<noteq> 0"
  shows "unat (align4 x) = ((unat x - 1) div 4 * 4 + 4) mod 2 ^ 32"
proof -
  have d: "unat (drop_bit 2 (x - 1)) = (unat x - 1) div 4"
    using assms by (simp add: unat_minus_one drop_bit_eq_div unat_div)
  have "unat (push_bit 2 (drop_bit 2 (x - 1))) = ((unat x - 1) div 4 * 4) mod 2 ^ 32"
    by (simp add: push_bit_eq_mult unat_word_ariths(2) d mult.commute)
  also have "\<dots> = (unat x - 1) div 4 * 4"
  proof -
    have "unat x < 2 ^ 32" using order_less_le_trans [OF unsigned_less [of x] order_refl] by simp
    moreover have "(unat x - 1) div 4 * 4 \<le> unat x - 1" by simp
    ultimately have "(unat x - 1) div 4 * 4 < 2 ^ 32" by linarith
    then show ?thesis by (rule mod_less)
  qed
  finally show ?thesis unfolding align4_def unat_word_ariths by simp
qed

text \<open>Sizes that leave room for a header behind them; the last ones before \<open>2 ^ 32\<close> are rounded to 0.\<close>

lemma unat_align4:
  assumes "x \<noteq> 0" "unat x \<le> 2 ^ 32 - 36"
  shows "unat x \<le> unat (align4 x)" "unat (align4 x) \<le> 2 ^ 32 - 36"
proof -
  have pos: "(0::nat) < unat x" using assms(1) by (simp add: unat_gt_0)
  have le: "unat x \<le> (unat x - 1) div 4 * 4 + 4" using pos by presburger
  have up: "(unat x - 1) div 4 * 4 + 4 \<le> 2 ^ 32 - 36" using pos assms(2) by simp
  then have "unat (align4 x) = (unat x - 1) div 4 * 4 + 4" using unat_align4_eq [OF assms(1)] up by simp
  then show "unat x \<le> unat (align4 x)" "unat (align4 x) \<le> 2 ^ 32 - 36" using le up by simp_all
qed

lemma align4_wraps:
  assumes "2 ^ 32 - 4 < unat (x :: 32 word)"
  shows "align4 x = 0"
proof -
  have "unat x < 2 ^ 32" using order_less_le_trans [OF unsigned_less [of x] order_refl] by simp
  then have "(unat x - 1) div 4 = 2 ^ 30 - 1" using assms by simp
  moreover have "x \<noteq> 0" using assms by auto
  ultimately have "unat (align4 x) = 0" by (simp add: unat_align4_eq)
  then show ?thesis by (simp add: unat_eq_zero)
qed

lemma upd_block_frame [simp]:
  "blocks (upd_block b f s) = (blocks s)(b := f (blocks s b))" "kernelBase (upd_block b f s) = kernelBase s"
  "heapBase (upd_block b f s) = heapBase s"
  by (simp_all add: upd_block_def)

text \<open>A free block that is large enough is taken, and split when the rest is worth a block.\<close>

lemma take_block_safe:
  assumes hl: "heap_list s a bs" and b: "b \<in> set bs" "b_size (blocks s b) > w" and w: "unat w \<le> 2 ^ 32 - 36"
  shows "\<exists>t bs'. take_block b w s = (dataStart b, t) \<and> kernelBase t = kernelBase s \<and> heap_list t a bs' \<and>
    b \<in> set bs' \<and> set bs \<subseteq> set bs' \<and> unat w \<le> unat (b_size (blocks t b)) \<and> b_free (blocks t b) = 0 \<and>
    (\<forall>c \<in> set bs. c \<noteq> b \<longrightarrow> blocks t c = blocks s c) \<and> (\<forall>c \<in> set bs' - set bs. b_free (blocks t c) \<noteq> 0)"
proof (cases "b_size (blocks s b) > w + 4 + 28")
  case False
  define t where "t = upd_block b (\<lambda>b. b\<lparr>b_free := 0\<rparr>) s"
  have "take_block b w s = (dataStart b, t)" using False by (simp add: take_block_def t_def)
  moreover have "heap_list t a bs" using hl by (subst heap_list_cong [of _ _ s]) (auto simp: t_def)
  moreover have "unat w \<le> unat (b_size (blocks t b))"
    using b(2) by (simp add: t_def word_less_nat_alt)
  ultimately show ?thesis using b(1) by (intro exI [of _ t] exI [of _ bs]) (simp add: t_def)
next
  case True
  have w32: "unat (w + 4 + 28) = unat w + 32" "unat (w + 28) = unat w + 28"
    using w by (simp_all add: unat_word_ariths)
  then have big: "unat w + 32 < unat (b_size (blocks s b))" using True by (simp add: word_less_nat_alt)
  define n where "n = dataStart b + unat w"
  define N where "N = (blocks s n)\<lparr>b_next := b_next (blocks s b), b_free := 1,
      b_size := b_size (blocks s b) - (w + 28), b_prev := b\<rparr>"
  define t where "t = upd_block b (\<lambda>b. b\<lparr>b_free := 0\<rparr>) (split_block b w s)"
  have nb: "n \<noteq> b" using dataStart_gt [of b] by (simp add: n_def)
  have ge: "w \<le> b_size (blocks s b)" using big by (simp add: word_le_nat_alt)
  have bt: "blocks t = (blocks s)(n := N, b := (blocks s b)\<lparr>b_next := n, b_size := w, b_free := 0\<rparr>)"
    using ge nb by (auto simp: t_def split_block_def n_def N_def Let_def fun_eq_iff not_less)
  have "unat (b_size (blocks s b) - (w + 28)) = unat (b_size (blocks s b)) - unat (w + 28)"
    using big w32 by (intro unat_sub) (simp add: word_le_nat_alt)
  then have sz: "unat (b_size N) + unat w + 28 = unat (b_size (blocks s b))" using big w32 by (simp add: N_def)
  have hl': "heap_list t a (insert_after b n bs) \<and> n \<notin> set bs"
    by (rule heap_list_split [OF hl b(1) _ n_def bt]) (use big sz in \<open>simp_all add: N_def\<close>)
  have "take_block b w s = (dataStart b, t)" using True by (simp add: take_block_def t_def)
  moreover have "kernelBase t = kernelBase s" using ge by (simp add: t_def split_block_def Let_def not_less)
  ultimately show ?thesis
    using hl' b(1) set_insert_after [OF b(1), of n]
    by (intro exI [of _ t] exI [of _ "insert_after b n bs"]) (auto simp: bt N_def)
qed

text \<open>A block that is taken for a size of 0 is cut to nothing, unless it is too small to be cut.\<close>

lemma take_block_zero:
  "take_block b 0 s = (r, t) \<Longrightarrow> r = dataStart b \<and> unat (b_size (blocks t b)) \<le> 32"
proof -
  assume t: "take_block b 0 s = (r, t)"
  show ?thesis
  proof (cases "b_size (blocks s b) > 32")
    case True
    then have "b_size (blocks t b) = 0" using t dataStart_gt [of b] by (auto simp: take_block_def split_block_def Let_def)
    then show ?thesis using t by (simp add: take_block_def)
  next
    case False
    then have "b_size (blocks t b) = b_size (blocks s b)" "unat (b_size (blocks s b)) \<le> 32"
      using t by (auto simp: take_block_def word_less_nat_alt)
    then show ?thesis using t by (simp add: take_block_def)
  qed
qed

lemma kmalloc_in_order:
  assumes "heap_list s (kernelBase s) bs" "kernelBase s \<noteq> NULL" "n \<noteq> 0" "unat n \<le> 2 ^ 32 - 36"
  shows "kmalloc n s = Some (NULL, s) \<and>
      (\<forall>b \<in> set bs. b_free (blocks s b) \<noteq> 0 \<longrightarrow> unat (b_size (blocks s b)) \<le> unat (align4 n)) \<or>
    (\<exists>b t bs'. kmalloc n s = Some (dataStart b, t) \<and> b \<in> set bs \<and> b_free (blocks s b) \<noteq> 0 \<and>
       heap_list t (kernelBase t) bs' \<and> unat n \<le> unat (b_size (blocks t b)) \<and>
       in_use t bs' = insert b (in_use s bs) \<and>
       (\<forall>c \<in> in_use s bs. extent t c = extent s c \<and> extent t b \<inter> extent s c = {}))"
proof -
  let ?P = "\<lambda>b. b_free (blocks s b) \<noteq> 0 \<and> b_size (blocks s b) > align4 n"
  note al = unat_align4 [OF assms(3,4)]
  note ff = findFirstFreeBlock_list [OF assms(1), of "align4 n"]
  show ?thesis
  proof (cases "first_index ?P bs")
    case None
    then have "\<forall>b \<in> set bs. b_free (blocks s b) \<noteq> 0 \<longrightarrow> unat (b_size (blocks s b)) \<le> unat (align4 n)"
      by (auto simp: first_index_None word_less_nat_alt)
    with None show ?thesis using assms(2,3) ff by (simp add: kmalloc_def)
  next
    case (Some i)
    define b where "b = bs ! i"
    have b: "b \<in> set bs" "b_free (blocks s b) \<noteq> 0" "b_size (blocks s b) > align4 n"
      using Some by (auto simp: first_index_Some b_def)
    have "b \<noteq> NULL" using heap_list_NULL [OF assms(1)] b(1) by (cases b) auto
    obtain t bs' where t: "take_block b (align4 n) s = (dataStart b, t)" "kernelBase t = kernelBase s"
      "heap_list t (kernelBase s) bs'" "b \<in> set bs'" "set bs \<subseteq> set bs'" "unat (align4 n) \<le> unat (b_size (blocks t b))"
      "b_free (blocks t b) = 0" "\<forall>c \<in> set bs. c \<noteq> b \<longrightarrow> blocks t c = blocks s c"
      "\<forall>c \<in> set bs' - set bs. b_free (blocks t c) \<noteq> 0"
      using take_block_safe [OF assms(1) b(1,3) al(2)] by (elim exE conjE) (rule that)
    have k: "kmalloc n s = Some (dataStart b, t)"
      using assms(2,3) ff Some \<open>b \<noteq> NULL\<close> t(1) by (simp add: kmalloc_def b_def)
    have use: "in_use t bs' = insert b (in_use s bs)"
      using t(4,5,7-9) b(1) unfolding in_use_def by auto
    have "extent t c = extent s c \<and> extent t b \<inter> extent s c = {}" if "c \<in> in_use s bs" for c
    proof -
      have c: "c \<in> set bs" "c \<noteq> b" using that b(2) by (auto simp: in_use_def)
      then have "blocks t c = blocks s c" using t(8) by blast
      then have "extent t c = extent s c" by (simp add: extent_def)
      moreover have "extent t b \<inter> extent t c = {}" by (rule heap_list_disjoint [OF t(3,4)]) (use c t(5) in auto)
      ultimately show ?thesis by simp
    qed
    then show ?thesis using k b t(2,3,6) al(1) use by (intro disjI2 exI [of _ b] exI [of _ t] exI [of _ bs']) simp
  qed
qed

lemma kmalloc_rounded_to_zero:
  assumes "heap_list s (kernelBase s) bs" "kernelBase s \<noteq> NULL" "2 ^ 32 - 4 < unat n"
  shows "\<exists>r t. kmalloc n s = Some (r, t) \<and> (r = NULL \<or> (\<exists>b \<in> set bs. r = dataStart b \<and> unat (b_size (blocks t b)) \<le> 32))"
proof -
  let ?P = "\<lambda>b. b_free (blocks s b) \<noteq> 0 \<and> b_size (blocks s b) > align4 n"
  have a: "align4 n = 0" "n \<noteq> 0" using align4_wraps [OF assms(3)] assms(3) by auto
  note ff = findFirstFreeBlock_list [OF assms(1), of "align4 n"]
  show ?thesis
  proof (cases "first_index ?P bs")
    case None
    then show ?thesis using assms(2) a(2) ff by (simp add: kmalloc_def)
  next
    case (Some i)
    then have b: "bs ! i \<in> set bs" by (simp add: first_index_Some)
    then have "bs ! i \<noteq> NULL" using heap_list_NULL [OF assms(1)] by metis
    obtain r t where t: "take_block (bs ! i) 0 s = (r, t)" by (cases "take_block (bs ! i) 0 s")
    have "kmalloc n s = Some (r, t)" using assms(2) a ff Some \<open>bs ! i \<noteq> NULL\<close> t by (simp add: kmalloc_def)
    then show ?thesis using take_block_zero [OF t] b by blast
  qed
qed

section \<open>An example heap\<close>

definition ex_block :: "32 word \<Rightarrow> addr \<Rightarrow> addr \<Rightarrow> int \<Rightarrow> t_block" where
  "ex_block n nx pv f = \<lparr>b_size = n, b_next = nx, b_prev = pv, b_free = f\<rparr>"

definition ex_hsched :: hsched where
  "ex_hsched = isched.extend ex_isched
     \<lparr>blocks = (\<lambda>_. ex_block 0 0 0 0)(0x4000 := ex_block 20 0x4030 0 0, 0x4030 := ex_block 1000 0 0x4000 1),
      heapBase = 0x4000, kernelBase = 0x4000, junk_ptr = 0\<rparr>"

lemma ex_hsched_simps [simp]:
  "blocks ex_hsched = (\<lambda>_. ex_block 0 0 0 0)(0x4000 := ex_block 20 0x4030 0 0, 0x4030 := ex_block 1000 0 0x4000 1)"
  "heapBase ex_hsched = 0x4000" "kernelBase ex_hsched = 0x4000"
  by (simp_all add: ex_hsched_def isched.defs)

lemma heap_list_ex: "heap_list ex_hsched 0x4000 [0x4000, 0x4030]"
  by (simp add: ex_block_def dataStart_def BLOCK_STRUCT_SIZE_def)

section \<open>Properties\<close>

text \<open>
  C17: an allocation of 1 to \<open>2 ^ 32 - 36\<close> bytes in the kernel heap returns: once the heap has been
  set up, the answer is the null pointer only when no free block is larger
  than the request; otherwise the memory it hands out was free, is at least as large as asked
  for, and does not overlap any block in use, and the heap is a well-formed list of blocks again
  with exactly that block added to those in use. The last three sizes below \<open>2 ^ 32\<close> are rounded to 0: the
  block has at most 32 bytes. (The sizes between are left out: no heap of the kernel has such a
  block.) A request for 0 bytes gets the null pointer, and before the heap is set up every request
  gets the same address.
\<close>

theorem kmalloc_hands_out_free_memory:
  assumes "heap_list s (kernelBase s) bs"
  shows "(kernelBase s = NULL \<longrightarrow> kmalloc n s = Some (KERNEL_HEAP_START, s)) \<and>
    (kernelBase s \<noteq> NULL \<and> n = 0 \<longrightarrow> kmalloc n s = Some (NULL, s)) \<and>
    (kernelBase s \<noteq> NULL \<and> n \<noteq> 0 \<and> unat n \<le> 2 ^ 32 - 36 \<longrightarrow>
      kmalloc n s = Some (NULL, s) \<and>
        (\<forall>b \<in> set bs. b_free (blocks s b) \<noteq> 0 \<longrightarrow> unat (b_size (blocks s b)) \<le> unat (align4 n)) \<or>
      (\<exists>b t bs'. kmalloc n s = Some (dataStart b, t) \<and> b \<in> set bs \<and> b_free (blocks s b) \<noteq> 0 \<and>
         heap_list t (kernelBase t) bs' \<and> unat n \<le> unat (b_size (blocks t b)) \<and>
         in_use t bs' = insert b (in_use s bs) \<and>
         (\<forall>c \<in> in_use s bs. extent t c = extent s c \<and> extent t b \<inter> extent s c = {}))) \<and>
    (kernelBase s \<noteq> NULL \<and> 2 ^ 32 - 4 < unat n \<longrightarrow>
      (\<exists>r t. kmalloc n s = Some (r, t) \<and> (r = NULL \<or> (\<exists>b \<in> set bs. r = dataStart b \<and> unat (b_size (blocks t b)) \<le> 32))))"
  using kmalloc_in_order [OF assms, of n] kmalloc_rounded_to_zero [OF assms, of n] by (auto simp: kmalloc_def)

theorem kmalloc_hands_out_free_memory_witness:
  "(\<exists>t. kmalloc 10 ex_hsched = Some (dataStart 0x4030, t)) \<and>
   (\<exists>r t. kmalloc 0xFFFFFFFF ex_hsched = Some (r, t) \<and> r \<noteq> KERNEL_HEAP_START)"
proof
  have "align4 10 = 12" by (simp add: align4_def push_bit_eq_mult drop_bit_eq_div word_eq_iff_unsigned unat_div)
  then show "\<exists>t. kmalloc 10 ex_hsched = Some (dataStart 0x4030, t)"
    using kmalloc_hands_out_free_memory [of ex_hsched "[0x4000, 0x4030]" 10] heap_list_ex
    by (auto simp: ex_block_def)
  show "\<exists>r t. kmalloc 0xFFFFFFFF ex_hsched = Some (r, t) \<and> r \<noteq> KERNEL_HEAP_START"
    using kmalloc_hands_out_free_memory [of ex_hsched "[0x4000, 0x4030]" "0xFFFFFFFF"] heap_list_ex
    by (auto simp: dataStart_def BLOCK_STRUCT_SIZE_def KERNEL_HEAP_START_def)
qed

text \<open>
  \<open>free\<close> does nothing for memory of the last block of a heap, in particular for the only
  block: the search for the block runs past it, because its next pointer is null.
\<close>

theorem free_ignores_last_block:
  assumes "heap_list s (heapBase s) bs" "bs \<noteq> []" "last bs < p"
  shows "free p s = Some s"
  using getBlock_last [OF assms] by (simp add: free_def getBlock_def)

theorem free_ignores_last_block_witness:
  "free (dataStart 0x4030) ex_hsched = Some ex_hsched"
  using free_ignores_last_block [of ex_hsched "[0x4000, 0x4030]" "dataStart 0x4030"] heap_list_ex dataStart_gt [of "0x4030"]
  by simp

end
