(* ===== verification/Stdio.thy ===== *)
theory Stdio
  imports Console Malloc
begin

text \<open>
  The rest of \<open>Kernel/stdio.c\<close>, over the state of the whole kernel: reading characters,
  printing numbers, formatted output and input. The lemmas show that a number is printed as
  its decimal numeral.
\<close>

section \<open>State\<close>

text \<open>The processes with their memory, and the console with terminal and screen.\<close>

record kstate = hsched +
  con :: cstate

definition on_con :: "(cstate \<Rightarrow> cstate option) \<Rightarrow> 'a kstate_scheme \<Rightarrow> 'a kstate_scheme option" where
  "on_con f s = map_option (\<lambda>c. s\<lparr>con := c\<rparr>) (f (con s))"

definition STDIO_BUFFERSIZE :: int where "STDIO_BUFFERSIZE = 100"

section \<open>Reading characters\<close>

definition sys_call_readC :: "64 word \<Rightarrow> 64 word \<Rightarrow> 'a tstate_scheme \<Rightarrow> byte list \<times> 'a tstate_scheme" where
  "sys_call_readC qstdin qlength s =
     (if (ucast qstdin :: 32 word) = 0 then getTerminalBuffer (unat (ucast qlength :: 32 word)) s else ([], s))"

text \<open>
  \<open>getchar\<close> polls. Each element of the list is what the interrupts do to the console before
  the next poll; \<open>None\<close> when the list ends before a character has come.
\<close>

fun getchar :: "(cstate \<Rightarrow> cstate) list \<Rightarrow> cstate \<Rightarrow> (byte \<times> (cstate \<Rightarrow> cstate) list \<times> cstate) option" where
  "getchar [] c = None"
| "getchar (e # es) c =
     (case sys_call_readC 0 1 (e c) of
        ([], c1) \<Rightarrow> getchar es c1
      | (b # _, c1) \<Rightarrow> if b = 0 then getchar es c1 else Some (b, es, c1))"

section \<open>Numbers\<close>

text \<open>The digits go into the block that \<open>kmalloc\<close> returns, the last one first.\<close>

function putNumber_digits :: "int \<Rightarrow> addr \<Rightarrow> nat \<Rightarrow> memory \<Rightarrow> int \<times> addr \<times> nat \<times> memory" where
  "putNumber_digits n buffer sz m =
     (if n sdiv 10 \<noteq> 0
      then putNumber_digits (n sdiv 10) (buffer + 1) (sz + 1) (m(buffer := word_of_int (n smod 10 + 48)))
      else (n, buffer, sz, m))"
  by auto
termination
  by (relation "measure (\<lambda>(n, buffer, sz, m). nat \<bar>n\<bar>)") (auto simp: signed_divide_int_def abs_mult sgn_if)

declare putNumber_digits.simps [simp del]

fun putNumber_out :: "nat \<Rightarrow> addr \<Rightarrow> memory \<Rightarrow> 'a vstate_scheme \<Rightarrow> 'a vstate_scheme option" where
  "putNumber_out 0 buffer m c = Some c"
| "putNumber_out (Suc sz) buffer m c =
     (case putchar (m buffer) c of None \<Rightarrow> None | Some c1 \<Rightarrow> putNumber_out sz (buffer - 1) m c1)"

text \<open>The negation of an \<open>int\<close> wraps.\<close>

definition neg_int :: "int \<Rightarrow> int" where
  "neg_int n = sint (word_of_int (- n) :: 32 word)"

definition putNumber :: "int \<Rightarrow> 'a kstate_scheme \<Rightarrow> 'a kstate_scheme option" where
  "putNumber n s =
     (case kmalloc 20 s of None \<Rightarrow> None | Some (buffer, s1) \<Rightarrow>
      case (if n < 0 then putchar 45 (con s1) else Some (con s1)) of None \<Rightarrow> None | Some c1 \<Rightarrow>
        let n1 = (if n < 0 then neg_int n else n);
            (n2, buffer2, sz, m) = putNumber_digits n1 buffer 0 (cmem s1);
            m1 = m(buffer2 := word_of_int (n2 + 48))
        in map_option (\<lambda>c. s1\<lparr>cmem := m1, con := c\<rparr>) (putNumber_out (sz + 1) buffer2 m1 c1))"

section \<open>Formatted output\<close>

text \<open>
  The loop of \<open>printFF\<close>: the rest of the format, whether the state is \<open>FORMAT\<close>, and what is
  left of the two arrays (\<open>None\<close> for a null pointer). The result is \<open>None\<close> when it reads past
  an array or never ends: \<open>%s\<close> without strings does not advance.
\<close>

partial_function (option) printFF_loop ::
  "bool \<Rightarrow> cstring \<Rightarrow> cstring list option \<Rightarrow> int list option \<Rightarrow> 'a kstate_scheme \<Rightarrow> 'a kstate_scheme option" where
  "printFF_loop fmt format strings ints s =
     (case format of
        [] \<Rightarrow> Some s
      | c # rest \<Rightarrow>
          if \<not> fmt then
            (if c = 37 then printFF_loop True rest strings ints s
             else Option.bind (on_con (putchar c) s) (\<lambda>s1. printFF_loop False rest strings ints s1))
          else if c = 100 \<and> ints \<noteq> None then
            (case the ints of
               [] \<Rightarrow> None
             | n # ns \<Rightarrow> Option.bind (putNumber n s) (\<lambda>s1. printFF_loop False rest strings (Some ns) s1))
          else if c = 115 then
            (case strings of
               None \<Rightarrow> printFF_loop True format strings ints s
             | Some [] \<Rightarrow> None
             | Some (str # strings1) \<Rightarrow>
                 Option.bind (on_con (print str) s) (\<lambda>s1. printFF_loop False rest (Some strings1) ints s1))
          else Option.bind (on_con (putchar 37) s) (\<lambda>s1. printFF_loop True rest strings ints s1))"

text \<open>After the loop \<open>printFF\<close> reads the last byte of the format; an empty format has none.\<close>

definition printFF :: "cstring \<Rightarrow> cstring list option \<Rightarrow> int list option \<Rightarrow> 'a kstate_scheme \<Rightarrow> 'a kstate_scheme option" where
  "printFF format strings ints s =
     Option.bind (printFF_loop False format strings ints s)
       (\<lambda>s1. if format = [] then None else if last format = 37 then on_con (putchar 37) s1 else Some s1)"

section \<open>Formatted input\<close>

text \<open>The inner loops of \<open>scanFF\<close>: skipping a letter, and reading a line into \<open>string\<close>.\<close>

partial_function (option) scanFF_letter ::
  "byte \<Rightarrow> (cstate \<Rightarrow> cstate) list \<Rightarrow> cstate \<Rightarrow> ((cstate \<Rightarrow> cstate) list \<times> cstate) option" where
  "scanFF_letter f es c =
     Option.bind (getchar es c)
       (\<lambda>(ch, es1, c1). if ch = f then scanFF_letter f es1 c1 else Some (es1, c1))"

partial_function (option) scanFF_line ::
  "addr \<Rightarrow> int \<Rightarrow> (cstate \<Rightarrow> cstate) list \<Rightarrow> cstate \<Rightarrow> memory \<Rightarrow>
   (addr \<times> int \<times> (cstate \<Rightarrow> cstate) list \<times> cstate \<times> memory) option" where
  "scanFF_line string bufferindex es c m =
     Option.bind (getchar es c)
       (\<lambda>(ch, es1, c1).
          if ch = 10 then Some (string, bufferindex, es1, c1, m)
          else if ch = 8 then
            (if bufferindex \<noteq> 0 then scanFF_line (string - 1) (bufferindex - 1) es1 c1 m
             else scanFF_line string bufferindex es1 c1 m)
          else if bufferindex = STDIO_BUFFERSIZE then Some (string, bufferindex, es1, c1, m)
          else scanFF_line (string + 1) (bufferindex + 1) es1 c1 (m(string := ch)))"

partial_function (option) scanFF_loop ::
  "bool \<Rightarrow> cstring \<Rightarrow> addr list option \<Rightarrow> int list option \<Rightarrow> int \<Rightarrow> (cstate \<Rightarrow> cstate) list \<Rightarrow>
   'a kstate_scheme \<Rightarrow> (int \<times> (cstate \<Rightarrow> cstate) list \<times> 'a kstate_scheme) option" where
  "scanFF_loop fmt format strings ints bufferindex es s =
     (case format of
        [] \<Rightarrow> Some (bufferindex, es, s)
      | f # rest \<Rightarrow>
          if \<not> fmt then
            (if f = 37 then scanFF_loop True rest strings ints bufferindex es s
             else Option.bind (scanFF_letter f es (con s))
               (\<lambda>(es1, c1). scanFF_loop False rest strings ints bufferindex es1 (s\<lparr>con := c1\<rparr>)))
          else if f = 100 \<and> ints \<noteq> None then
            (case the ints of
               [] \<Rightarrow> None
             | n # ns \<Rightarrow> Option.bind (putNumber n s) (\<lambda>s1. scanFF_loop False rest strings (Some ns) bufferindex es s1))
          else if f = 115 \<and> strings \<noteq> None then
            (case the strings of
               [] \<Rightarrow> None
             | string # strings1 \<Rightarrow>
                 Option.bind (scanFF_line string 0 es (con s) (cmem s))
                   (\<lambda>(string1, i, es1, c1, m).
                      scanFF_loop False rest (Some strings1) ints i es1 (s\<lparr>con := c1, cmem := m(string1 := 0)\<rparr>)))
          else scanFF_loop True format strings ints bufferindex es s)"

text \<open>\<open>bufferindex\<close> is not initialised: \<open>junk\<close> is what the stack holds there.\<close>

definition scanFF ::
  "cstring \<Rightarrow> addr list option \<Rightarrow> int list option \<Rightarrow> (cstate \<Rightarrow> cstate) list \<Rightarrow>
   'a kstate_scheme \<Rightarrow> (int \<times> (cstate \<Rightarrow> cstate) list \<times> 'a kstate_scheme) option" where
  "scanFF format strings ints es s =
     Option.bind (scanFF_loop False format strings ints (junk s) es s)
       (\<lambda>(bufferindex, es1, s1). Some (if bufferindex = STDIO_BUFFERSIZE then 1 else 0, es1, s1))"

definition malloc :: "64 word \<Rightarrow> 'a kstate_scheme \<Rightarrow> (addr \<times> 'a kstate_scheme) option" where
  "malloc bytes s = mallock (ucast bytes) s"

section \<open>Printing a number\<close>

lemma putNumber_out_prints:
  "putNumber_out k (b + k - 1) m c = print (rev (bytes_at m b k)) c"
proof (induction k arbitrary: c)
  case 0
  then show ?case by simp
next
  case (Suc k)
  have "bytes_at m b (Suc k) = bytes_at m b k @ [m (b + k)]" using bytes_at_add [of m b k 1] by (simp add: bytes_at_Suc)
  then show ?case using Suc by (simp split: option.split)
qed

lemma putNumber_digits_spec:
  "0 \<le> n \<Longrightarrow>
   \<exists>m'. putNumber_digits n p sz m = (int (last (low_digits 10 (nat n))), p + (length (low_digits 10 (nat n)) - 1),
       sz + (length (low_digits 10 (nat n)) - 1), m') \<and>
     (\<forall>x. m' x = (if p \<le> x \<and> x < p + (length (low_digits 10 (nat n)) - 1)
         then of_nat (low_digits 10 (nat n) ! (x - p)) + 48 else m x))"
proof (induction n p sz m rule: putNumber_digits.induct)
  case (1 n p sz m)
  have q: "n sdiv 10 = int (nat n div 10)" "n smod 10 = int (nat n mod 10)"
    using 1(2) by (simp_all add: signed_divide_int_def signed_modulo_int_def sgn_if zdiv_int zmod_int)
  show ?case
  proof (cases "nat n div 10 = 0")
    case True
    then have "low_digits 10 (nat n) = [nat n]" by (subst low_digits.simps) (simp add: div_eq_0_iff)
    then show ?thesis using 1(2) True q by (subst putNumber_digits.simps) auto
  next
    case False
    have d: "low_digits 10 (nat n) = nat n mod 10 # low_digits 10 (nat n div 10)" using False by (subst low_digits.simps) simp
    let ?ls = "low_digits 10 (nat n div 10)"
    obtain k where k: "length ?ls = Suc k" by (cases ?ls) (auto dest: arg_cong [where f = length])
    define m1 where "m1 = m(p := of_nat (nat n mod 10) + 48)"
    have w: "m(p := word_of_int (n smod 10 + 48)) = m1" by (simp add: q m1_def)
    obtain m' where m': "putNumber_digits (n sdiv 10) (p + 1) (sz + 1) m1 = (int (last ?ls), p + 1 + k, sz + 1 + k, m')"
      "\<forall>x. m' x = (if p + 1 \<le> x \<and> x < p + 1 + k then of_nat (?ls ! (x - (p + 1))) + 48 else m1 x)"
      using 1(1) [unfolded w] False q k by auto
    have eq: "putNumber_digits n p sz m = putNumber_digits (n sdiv 10) (p + 1) (sz + 1) m1"
      using False q w by (subst putNumber_digits.simps) simp
    have mem: "m' x = (if p \<le> x \<and> x < p + Suc k then of_nat ((nat n mod 10 # ?ls) ! (x - p)) + 48 else m x)" for x
    proof (cases "x \<le> p")
      case True
      then show ?thesis using m'(2) by (auto simp: m1_def)
    next
      case False
      then have "x - p = Suc (x - (p + 1))" by linarith
      then show ?thesis using m'(2) False by (auto simp: m1_def)
    qed
    have "putNumber_digits n p sz m = (int (last (nat n mod 10 # ?ls)), p + (length (nat n mod 10 # ?ls) - 1),
        sz + (length (nat n mod 10 # ?ls) - 1), m')" unfolding eq m'(1) using k by simp
    moreover have "\<forall>x. m' x = (if p \<le> x \<and> x < p + (length (nat n mod 10 # ?ls) - 1)
        then of_nat ((nat n mod 10 # ?ls) ! (x - p)) + 48 else m x)" using mem k by simp
    ultimately show ?thesis unfolding d by (intro exI conjI)
  qed
qed

text \<open>The decimal numeral of an \<open>int\<close>.\<close>

definition decimal :: "int \<Rightarrow> cstring" where
  "decimal n = (if n < 0 then [45] else []) @ map (\<lambda>d. of_nat d + 48) (rev (low_digits 10 (nat \<bar>n\<bar>)))"

lemma kmalloc_con: "kmalloc n s = Some (b, t) \<Longrightarrow> con t = con s"
  by (auto simp: kmalloc_def take_block_def split_block_def upd_block_def Let_def split: if_splits option.splits)

lemma neg_int_abs: "- (2 ^ 31) < n \<Longrightarrow> n < 0 \<Longrightarrow> neg_int n = \<bar>n\<bar>"
  by (simp add: neg_int_def signed_of_int signed_take_bit_int_eq_self del: of_int_minus)

text \<open>
  \<open>putNumber\<close> ends for every \<open>int\<close> but the smallest one, and prints its decimal numeral:
  a minus sign when it is negative, then the digits without leading zeros. It writes at most
  ten bytes, so that the block of twenty that it allocates is large enough.
\<close>

theorem putNumber_prints_decimal:
  assumes "- (2 ^ 31) < n" "n < 2 ^ 31" "cursor_ok (con s)" "kmalloc 20 s = Some (buffer, s1)"
  shows "\<exists>t. putNumber n s = Some t \<and> print (decimal n) (con s) = Some (con t) \<and>
    (\<forall>x. x < buffer \<or> buffer + 10 \<le> x \<longrightarrow> cmem t x = cmem s1 x)"
proof -
  let ?n = "\<bar>n\<bar>" and ?ls = "low_digits 10 (nat \<bar>n\<bar>)"
  have n1: "(if n < 0 then neg_int n else n) = ?n" using neg_int_abs [OF assms(1)] by simp
  obtain k where k: "length ?ls = Suc k" by (cases ?ls) (auto dest: arg_cong [where f = length])
  have "length ?ls \<le> 10" using assms(1,2) by (intro low_digits_length) auto
  then have k10: "k < 10" using k by simp
  obtain m where m: "putNumber_digits ?n buffer 0 (cmem s1) = (int (last ?ls), buffer + k, k, m)"
    "\<forall>x. m x = (if buffer \<le> x \<and> x < buffer + k then of_nat (?ls ! (x - buffer)) + 48 else cmem s1 x)"
    using putNumber_digits_spec [of ?n buffer 0 "cmem s1"] k by auto
  define m1 where "m1 = m(buffer + k := of_nat (last ?ls) + 48)"
  have "last ?ls = ?ls ! k" using k by (simp add: last_conv_nth)
  then have "bytes_at m1 buffer (Suc k) = map (\<lambda>d. of_nat d + 48) ?ls"
    using m(2) k by (intro nth_equalityI) (auto simp: m1_def less_Suc_eq)
  then have out: "putNumber_out (k + 1) (buffer + k) m1 c = print (map (\<lambda>d. of_nat d + 48) (rev ?ls)) c" for c
    using putNumber_out_prints [of "Suc k" buffer m1 c] by (simp add: rev_map)
  obtain c1 where c1: "(if n < 0 then putchar 45 (con s) else Some (con s)) = Some c1"
    "print (if n < 0 then [45] else []) (con s) = Some c1" "cursor_ok c1"
  proof (cases "n < 0")
    case True
    then show ?thesis using that print_total [OF assms(3), of "[45]"] by (auto split: option.splits)
  next
    case False
    then show ?thesis using that assms(3) by simp
  qed
  obtain c2 where c2: "print (map (\<lambda>d. of_nat d + 48) (rev ?ls)) c1 = Some c2" using print_total [OF c1(3)] by blast
  have e: "word_of_int (int (last ?ls) + 48) = (of_nat (last ?ls) + 48 :: byte)" by simp
  have "putNumber n s = Some (s1\<lparr>cmem := m1, con := c2\<rparr>)"
    unfolding putNumber_def assms(4) option.case prod.case kmalloc_con [OF assms(4)] c1(1) Let_def n1 m(1) e
      m1_def [symmetric] out c2 option.map ..
  moreover have "print (decimal n) (con s) = Some c2" unfolding decimal_def print_append c1(2) using c2 by simp
  moreover have "\<forall>x. x < buffer \<or> buffer + 10 \<le> x \<longrightarrow> m1 x = cmem s1 x" using m(2) k10 by (auto simp: m1_def)
  ultimately show ?thesis by simp
qed

text \<open>The kernel of the examples of \<open>Malloc\<close> with the terminal of \<open>Terminal\<close>.\<close>

definition ex_kstate :: kstate where
  "ex_kstate = hsched.extend ex_hsched \<lparr>con = ex_cstate\<rparr>"

lemma con_ex [simp]: "con ex_kstate = ex_cstate"
  by (simp add: ex_kstate_def hsched.defs)

lemma kmalloc_ex: "\<exists>b s1. kmalloc 20 ex_kstate = Some (b, s1)"
proof -
  have "heap_list ex_kstate 0x4000 [0x4000, 0x4030]" "kernelBase ex_kstate = 0x4000"
    by (simp_all add: ex_kstate_def hsched.defs ex_block_def dataStart_def BLOCK_STRUCT_SIZE_def)
  then show ?thesis
    using findFirstFreeBlock_list [where s = ex_kstate and a = "0x4000" and bs = "[0x4000, 0x4030]" and sz = "align4 20"]
    by (simp add: kmalloc_def take_block_def split: option.splits)
qed

theorem putNumber_prints_decimal_witness:
  "\<exists>t. putNumber (- 7) ex_kstate = Some t \<and> print [45, 55] ex_cstate = Some (con t)"
proof -
  obtain b s1 where k: "kmalloc 20 ex_kstate = Some (b, s1)" using kmalloc_ex by blast
  have "decimal (- 7) = [45, 55]" by (simp add: decimal_def low_digits.simps)
  then show ?thesis using putNumber_prints_decimal [OF _ _ _ k, of "- 7"] cursor_ok_ex_cstate by auto
qed

end
