(* ===== verification/Loader.thy ===== *)
theory Loader
  imports Console
begin

unbundle bit_operations_syntax

text \<open>
  How the modules of the system come into memory: the program that packs the kernel and the
  binaries into one image (\<open>Toolchain/ModulePacker/main.c\<close>) and the code of the kernel that
  unpacks it (\<open>Kernel/moduleLoader.c\<close>). The lemmas show that what is packed is what is loaded.
\<close>

section \<open>The packer\<close>

definition BUFFER_SIZE :: nat where "BUFFER_SIZE = 128"
definition MAX_FILES :: nat where "MAX_FILES = 128"
definition OUTPUT_FILE :: string where "OUTPUT_FILE = ''packedKernel.bin''"

text \<open>
  A file is its bytes; \<open>fs\<close> gives the files that can be read. An image that cannot be created,
  an input that cannot be opened and is read all the same, a write behind the array of
  names, and a call without arguments are errors.
\<close>

datatype pack_error = Cannot_create | Null_stream | Args_overflow | Usage_exit

text \<open>A 32-bit cell as \<open>fwrite\<close> stores it.\<close>

definition le32 :: "32 word \<Rightarrow> byte list" where
  "le32 w = [ucast w, ucast (drop_bit 8 w), ucast (drop_bit 16 w), ucast (drop_bit 24 w)]"

text \<open>
  \<open>write_file\<close> copies in pieces of \<open>BUFFER_SIZE\<close>; the end of the file is known when a read
  returns fewer bytes than it was asked for.
\<close>

function write_file :: "byte list \<Rightarrow> byte list \<Rightarrow> byte list" where
  "write_file target source =
     (let buffer = take BUFFER_SIZE source; target1 = target @ buffer
      in if length buffer < BUFFER_SIZE then target1 else write_file target1 (drop BUFFER_SIZE source))"
  by auto
termination by (relation "measure (\<lambda>(t, s). length s)") (auto simp: BUFFER_SIZE_def)

declare write_file.simps [simp del]

definition write_size :: "byte list \<Rightarrow> byte list \<Rightarrow> byte list" where
  "write_size target content = target @ le32 (of_nat (length content))"

fun buildImage_loop :: "(string \<Rightarrow> byte list option) \<Rightarrow> string list \<Rightarrow> byte list \<Rightarrow> pack_error + byte list" where
  "buildImage_loop fs [] target = Inr target"
| "buildImage_loop fs (name # names) target =
     (case fs name of
        None \<Rightarrow> Inl Null_stream
      | Some content \<Rightarrow> buildImage_loop fs names (write_file (write_size target content) content))"

definition buildImage :: "(string \<Rightarrow> byte list option) \<Rightarrow> bool \<Rightarrow> string list \<Rightarrow> pack_error + byte list" where
  "buildImage fs can_create names =
     (if \<not> can_create then Inl Cannot_create
      else case names of
        [] \<Rightarrow> Inl Null_stream
      | name # rest \<Rightarrow>
          (case fs name of
             None \<Rightarrow> Inl Null_stream
           | Some content \<Rightarrow>
               let extraBinaries = length names - 1
               in buildImage_loop fs rest (write_file [] content @ le32 (of_nat extraBinaries))))"

fun checkFiles :: "(string \<Rightarrow> byte list option) \<Rightarrow> string list \<Rightarrow> bool" where
  "checkFiles fs [] = True"
| "checkFiles fs (name # names) = (if fs name = None then False else checkFiles fs names)"

text \<open>The events that \<open>argp\<close> reports, with the number of the argument, and what \<open>parse_opt\<close> does with them.\<close>

datatype parse_key = Key_o string | Key_arg nat string | Key_end nat | Key_other

datatype parse_result = Parsed | Usage | Err_unknown

record arguments =
  arg_names :: "string list"
  arg_output :: string
  arg_count :: nat

definition parse_opt :: "parse_key \<Rightarrow> arguments \<Rightarrow> (parse_result \<times> arguments) option" where
  "parse_opt key a =
     (case key of
        Key_o arg \<Rightarrow> Some (Parsed, a\<lparr>arg_output := arg\<rparr>)
      | Key_arg n arg \<Rightarrow>
          if n < length (arg_names a) then Some (Parsed, a\<lparr>arg_names := (arg_names a)[n := arg]\<rparr>) else None
      | Key_end n \<Rightarrow> if n < 1 then Some (Usage, a) else Some (Parsed, a\<lparr>arg_count := n\<rparr>)
      | Key_other \<Rightarrow> Some (Err_unknown, a))"

text \<open>\<open>argp_parse\<close> calls \<open>parse_opt\<close> for each event; an unknown key is not an error for it.\<close>

fun parse_all :: "parse_key list \<Rightarrow> arguments \<Rightarrow> pack_error + arguments" where
  "parse_all [] a = Inr a"
| "parse_all (k # ks) a =
     (case parse_opt k a of
        None \<Rightarrow> Inl Args_overflow
      | Some (r, a1) \<Rightarrow> if r = Usage then Inl Usage_exit else parse_all ks a1)"

text \<open>The exit status of \<open>main\<close>, and the image with the name it is written to.\<close>

definition pack_main ::
  "(string \<Rightarrow> byte list option) \<Rightarrow> bool \<Rightarrow> parse_key list \<Rightarrow> pack_error + nat \<times> (string \<times> byte list) option" where
  "pack_main fs can_create argv =
     (case parse_all argv \<lparr>arg_names = replicate MAX_FILES [], arg_output = OUTPUT_FILE, arg_count = 0\<rparr> of
        Inl e \<Rightarrow> Inl e
      | Inr a \<Rightarrow>
          let fileArray = take (arg_count a) (arg_names a)
          in if \<not> checkFiles fs fileArray then Inr (1, None)
             else (case buildImage fs can_create fileArray of
                     Inr img \<Rightarrow> Inr (0, Some (arg_output a, img))
                   | Inl Cannot_create \<Rightarrow> Inr (1, None)
                   | Inl e \<Rightarrow> Inl e))"

section \<open>The loader\<close>

definition readUint32 :: "addr \<Rightarrow> memory \<Rightarrow> 32 word \<times> addr" where
  "readUint32 a m = (word_of_int (ld32 m a), a + 4)"

text \<open>
  \<open>loadModule\<close> returns where the next module starts, the memory and the console; \<open>None\<close> is a
  message that is never finished.
\<close>

definition loadModule :: "addr \<Rightarrow> addr \<Rightarrow> memory \<Rightarrow> 'a cstate_scheme \<Rightarrow> (addr \<times> memory \<times> 'a cstate_scheme) option" where
  "loadModule module target m c =
     (let (moduleSize, module1) = readUint32 module m in
      case ncPrint (lit ''  Will copy module at 0x'') c of None \<Rightarrow> None | Some c1 \<Rightarrow>
      case ncPrintHex (of_nat module1) c1 of None \<Rightarrow> None | Some c2 \<Rightarrow>
      case ncPrint (lit '' to 0x'') c2 of None \<Rightarrow> None | Some c3 \<Rightarrow>
      case ncPrintHex (of_nat target) c3 of None \<Rightarrow> None | Some c4 \<Rightarrow>
      case ncPrint (lit '' ('') c4 of None \<Rightarrow> None | Some c5 \<Rightarrow>
      case ncPrintDec (ucast moduleSize) c5 of None \<Rightarrow> None | Some c6 \<Rightarrow>
      case ncPrint (lit '' bytes)'') c6 of None \<Rightarrow> None | Some c7 \<Rightarrow>
        let m1 = memcpy target module1 (ucast moduleSize) m; module2 = module1 + unat moduleSize in
        case ncPrint (lit '' [Done]'') c7 of None \<Rightarrow> None | Some c8 \<Rightarrow>
        map_option (\<lambda>c9. (module2, m1, c9)) (ncNewline c8))"

fun loadModules_loop :: "nat \<Rightarrow> addr \<Rightarrow> addr list \<Rightarrow> memory \<Rightarrow> 'a cstate_scheme \<Rightarrow> (memory \<times> 'a cstate_scheme) option" where
  "loadModules_loop 0 cur targets m c = Some (m, c)"
| "loadModules_loop (Suc left) cur [] m c = None"
| "loadModules_loop (Suc left) cur (t # targets) m c =
     (case loadModule cur t m c of
        None \<Rightarrow> None
      | Some (cur1, m1, c1) \<Rightarrow> loadModules_loop left cur1 targets m1 c1)"

definition loadModules :: "addr \<Rightarrow> addr list \<Rightarrow> memory \<Rightarrow> 'a cstate_scheme \<Rightarrow> (memory \<times> 'a cstate_scheme) option" where
  "loadModules payloadStart targetModuleAddress m c =
     (let (moduleCount, cur) = readUint32 payloadStart m
      in loadModules_loop (unat moduleCount) cur targetModuleAddress m c)"

text \<open>The page directory, an array of 64-bit entries.\<close>

definition PDbase :: addr where "PDbase = 0x10000"

definition mapModulesLogical :: "addr \<Rightarrow> (addr \<Rightarrow> 64 word) \<Rightarrow> addr \<Rightarrow> 64 word" where
  "mapModulesLogical physical pd = pd(PDbase + 4 * 8 := of_nat physical OR 0x8F)"

definition testPageFault :: "(addr \<Rightarrow> 64 word) \<Rightarrow> addr \<Rightarrow> 64 word" where
  "testPageFault pd = pd(PDbase + 5 * 8 := 0x8E)"

section \<open>The image\<close>

lemma write_file_copies: "write_file target source = target @ source"
proof (induction target source rule: write_file.induct)
  case (1 target source)
  then show ?case
    by (subst write_file.simps) (auto simp: Let_def min_def BUFFER_SIZE_def)
qed

text \<open>What the loader finds behind the kernel: every module after its size.\<close>

definition packed :: "byte list list \<Rightarrow> byte list" where
  "packed mods = concat (map (\<lambda>md. le32 (of_nat (length md)) @ md) mods)"

lemma packed_simps [simp]:
  "packed [] = []" "packed (md # mods) = le32 (of_nat (length md)) @ md @ packed mods"
  by (simp_all add: packed_def)

lemma length_le32 [simp]: "length (le32 w) = 4"
  by (simp add: le32_def)

lemma buildImage_loop_packs:
  "list_all2 (\<lambda>n md. fs n = Some md) names mods \<Longrightarrow> buildImage_loop fs names target = Inr (target @ packed mods)"
  by (induction names mods arbitrary: target rule: list_all2_induct) (simp_all add: write_size_def write_file_copies)

lemma buildImage_packs:
  "fs name = Some krn \<Longrightarrow> list_all2 (\<lambda>n md. fs n = Some md) names mods \<Longrightarrow>
   buildImage fs True (name # names) = Inr (krn @ le32 (of_nat (length mods)) @ packed mods)"
  using list_all2_lengthD [of "\<lambda>n md. fs n = Some md" names mods]
  by (simp add: buildImage_def write_file_copies buildImage_loop_packs)

section \<open>Loading\<close>

lemma le32_word:
  "unat (ucast (w :: 32 word) :: byte) + 256 * unat (ucast (drop_bit 8 w) :: byte) +
   65536 * unat (ucast (drop_bit 16 w) :: byte) + 16777216 * unat (ucast (drop_bit 24 w) :: byte) = unat w"
proof -
  have w: "unat w < 2 ^ 32" by (rule unat_less)
  have b: "unat (ucast x :: byte) = unat x mod 256" for x :: "32 word"
    by (simp add: unsigned_ucast_eq take_bit_eq_mod)
  have d: "unat (drop_bit k w) = unat w div 2 ^ k" for k
    using w by (simp only: unsigned_drop_bit_eq) (simp add: drop_bit_eq_div take_bit_nat_eq_self)
  have e: "unat w div 2 ^ 8 = unat w div 256" "unat w div 2 ^ 16 = unat w div 256 div 256"
    "unat w div 2 ^ 24 = unat w div 256 div 256 div 256" by (simp_all add: div_mult2_eq [symmetric])
  have "unat w div 256 div 256 div 256 mod 256 = unat w div 256 div 256 div 256"
    using w by (simp add: div_mult2_eq [symmetric] less_mult_imp_div_less)
  then show ?thesis
    unfolding b d e using div_mult_mod_eq [of "unat w" 256] div_mult_mod_eq [of "unat w div 256" 256]
      div_mult_mod_eq [of "unat w div 256 div 256" 256] by linarith
qed

lemma readUint32_le32:
  assumes "bytes_at m a 4 = le32 w"
  shows "readUint32 a m = (w, a + 4)"
proof -
  have "m a = ucast w" "m (a + 1) = ucast (drop_bit 8 w)" "m (a + 2) = ucast (drop_bit 16 w)"
    "m (a + 3) = ucast (drop_bit 24 w)"
    using assms by (simp_all add: bytes_at_def upt_rec le32_def numeral_3_eq_3)
  then have u: "uint (m a) + 256 * uint (m (a + 1)) + 65536 * uint (m (a + 2)) + 16777216 * uint (m (a + 3)) = int (unat w)"
    unfolding le32_word [of w, symmetric] by simp
  have "word_of_int (2 ^ 32) = (0 :: 32 word)" by simp
  then have "word_of_int (int (unat w) - 2 ^ 32) = w" by (simp add: of_int_diff)
  then have "word_of_int (ld32 m a) = w" unfolding ld32_def u by (simp add: Let_def)
  then show ?thesis by (simp add: readUint32_def)
qed

lemma ncPrint_ends:
  assumes "cursor_ok (c :: 'a cstate_scheme)"
  shows "\<exists>t. ncPrint str c = Some t \<and> cursor_ok t \<and> currentVideo t = currentVideo c"
proof -
  obtain t where "print str c = Some t" "cursor_ok t" "same_buffer c t" using print_total [OF assms] by blast
  moreover from this(3) have "currentVideo t = currentVideo c" by (cases c; cases t) (simp add: same_buffer_def)
  ultimately show ?thesis by (simp add: ncPrint_eq_print)
qed

lemma loadModule_copies:
  assumes "cursor_ok c" "currentVideo c = nc_video" "bytes_at m a 4 = le32 w"
  shows "\<exists>c'. loadModule a t m c = Some (a + 4 + unat w, memcpy t (a + 4) (ucast w) m, c') \<and>
    cursor_ok c' \<and> currentVideo c' = nc_video"
proof -
  note step = ncPrint_ends ncPrintBase_total
  obtain c1 where c1: "ncPrint (lit ''  Will copy module at 0x'') c = Some c1" "cursor_ok c1" "currentVideo c1 = nc_video"
    using ncPrint_ends [OF assms(1)] assms(2) by auto
  obtain c2 where c2: "ncPrintHex (of_nat (a + 4)) c1 = Some c2" "cursor_ok c2" "currentVideo c2 = nc_video"
    using ncPrintBase_total [OF c1(2), of 16] c1(3) unfolding ncPrintHex_def by fastforce
  obtain c3 where c3: "ncPrint (lit '' to 0x'') c2 = Some c3" "cursor_ok c3" "currentVideo c3 = nc_video"
    using ncPrint_ends [OF c2(2)] c2(3) by auto
  obtain c4 where c4: "ncPrintHex (of_nat t) c3 = Some c4" "cursor_ok c4" "currentVideo c4 = nc_video"
    using ncPrintBase_total [OF c3(2), of 16] c3(3) unfolding ncPrintHex_def by fastforce
  obtain c5 where c5: "ncPrint (lit '' ('') c4 = Some c5" "cursor_ok c5" "currentVideo c5 = nc_video"
    using ncPrint_ends [OF c4(2)] c4(3) by auto
  obtain c6 where c6: "ncPrintDec (ucast w) c5 = Some c6" "cursor_ok c6" "currentVideo c6 = nc_video"
    using ncPrintBase_total [OF c5(2), of 10] c5(3) unfolding ncPrintDec_def by fastforce
  obtain c7 where c7: "ncPrint (lit '' bytes)'') c6 = Some c7" "cursor_ok c7" "currentVideo c7 = nc_video"
    using ncPrint_ends [OF c6(2)] c6(3) by auto
  obtain c8 where c8: "ncPrint (lit '' [Done]'') c7 = Some c8" "cursor_ok c8" "currentVideo c8 = nc_video"
    using ncPrint_ends [OF c7(2)] c7(3) by auto
  obtain c9 where c9: "ncNewline c8 = Some c9" "cursor_ok c9" "currentVideo c9 = nc_video"
    using ncNewline_total [OF c8(2,3)] by blast
  show ?thesis
    unfolding loadModule_def readUint32_le32 [OF assms(3)] Let_def prod.case c1(1) option.case c2(1) c3(1) c4(1)
      c5(1) c6(1) c7(1) c8(1) c9(1) option.map
    using c9 by simp
qed

text \<open>
  The loop over the modules: what stays of the image is not overwritten, because every target
  lies apart from it and from the other targets.
\<close>

definition apart :: "addr \<Rightarrow> nat \<Rightarrow> addr \<Rightarrow> nat \<Rightarrow> bool" where
  "apart a n b k \<longleftrightarrow> a + n \<le> b \<or> b + k \<le> a"

fun targets_ok :: "addr \<Rightarrow> nat \<Rightarrow> addr list \<Rightarrow> byte list list \<Rightarrow> bool" where
  "targets_ok a n ts [] \<longleftrightarrow> True"
| "targets_ok a n [] (md # mods) \<longleftrightarrow> False"
| "targets_ok a n (t # ts) (md # mods) \<longleftrightarrow>
     apart t (length md) a n \<and> (\<forall>(u, q) \<in> set (zip ts mods). apart t (length md) u (length q)) \<and> targets_ok a n ts mods"

lemma targets_ok_apart:
  "targets_ok a n ts mods \<Longrightarrow> (u, q) \<in> set (zip ts mods) \<Longrightarrow> apart u (length q) a n"
  by (induction a n ts mods rule: targets_ok.induct) auto

lemma targets_ok_sub:
  "targets_ok a n ts mods \<Longrightarrow> a \<le> b \<Longrightarrow> b + k \<le> a + n \<Longrightarrow> targets_ok b k ts mods"
  by (induction a n ts mods rule: targets_ok.induct) (auto simp: apart_def)

lemma loadModules_loop_loads:
  assumes "targets_ok cur (length (packed mods)) ts mods" "bytes_at m cur (length (packed mods)) = packed mods"
    "\<forall>md \<in> set mods. length md < 2 ^ 32" "cursor_ok c" "currentVideo c = nc_video"
  shows "\<exists>m' c'. loadModules_loop (length mods) cur ts m c = Some (m', c') \<and>
    (\<forall>(t, md) \<in> set (zip ts mods). bytes_at m' t (length md) = md) \<and>
    (\<forall>x. (\<forall>(t, md) \<in> set (zip ts mods). x < t \<or> t + length md \<le> x) \<longrightarrow> m' x = m x)"
  using assms
proof (induction mods arbitrary: cur ts m c)
  case Nil
  then show ?case by simp
next
  case (Cons md mods)
  obtain t ts' where ts: "ts = t # ts'" using Cons.prems(1) by (cases ts) auto
  let ?w = "of_nat (length md) :: 32 word" and ?a = "cur + 4" and ?P = "packed mods"
  have w: "unat ?w = length md"
    using Cons.prems(3) by (simp only: unsigned_of_nat of_nat_id) (simp add: take_bit_nat_eq_self)
  have u: "unat (ucast ?w :: 64 word) = length md" by (simp add: unat_ucast_base w)
  have len: "length (packed (md # mods)) = 4 + (length md + length ?P)" by simp
  have "bytes_at m cur 4 @ bytes_at m ?a (length md) @ bytes_at m (?a + length md) (length ?P) = le32 ?w @ md @ ?P"
    using Cons.prems(2) unfolding len bytes_at_add by (simp add: add.assoc)
  then have b: "bytes_at m cur 4 = le32 ?w" "bytes_at m ?a (length md) = md" "bytes_at m (?a + length md) (length ?P) = ?P"
    by simp_all
  define m1 where "m1 = memcpy t ?a (ucast ?w) m"
  obtain c1 where c1: "loadModule cur t m c = Some (?a + length md, m1, c1)" "cursor_ok c1" "currentVideo c1 = nc_video"
    using loadModule_copies [OF Cons.prems(4,5) b(1), of t] by (auto simp: w m1_def)
  have ap: "apart t (length md) cur (4 + (length md + length ?P))" "targets_ok cur (4 + (length md + length ?P)) ts' mods"
    "\<forall>(u, q) \<in> set (zip ts' mods). apart t (length md) u (length q)"
    using Cons.prems(1) unfolding ts len targets_ok.simps by blast+
  have m1: "m1 x = (if t \<le> x \<and> x < t + length md then m (?a + (x - t)) else m x)" for x
    unfolding m1_def using memcpy_spec [of t "ucast ?w" ?a m x] ap(1) by (auto simp: u apart_def)
  have here: "bytes_at m1 t (length md) = md"
  proof -
    have "bytes_at m1 t (length md) = bytes_at m ?a (length md)" by (rule nth_equalityI) (simp_all add: m1)
    then show ?thesis using b(2) by simp
  qed
  have "bytes_at m1 (?a + length md) (length ?P) = ?P"
    using b(3) ap(1) by (subst bytes_at_cong [of _ m1 _ m]) (auto simp: m1 apart_def)
  moreover have "targets_ok (?a + length md) (length ?P) ts' mods" using targets_ok_sub [OF ap(2)] by simp
  ultimately obtain m' c' where IH: "loadModules_loop (length mods) (?a + length md) ts' m1 c1 = Some (m', c')"
    "\<forall>(t, md) \<in> set (zip ts' mods). bytes_at m' t (length md) = md"
    "\<forall>x. (\<forall>(t, md) \<in> set (zip ts' mods). x < t \<or> t + length md \<le> x) \<longrightarrow> m' x = m1 x"
    using Cons.IH [of "?a + length md" ts' m1 c1] Cons.prems(3) c1(2,3) by auto
  have "m' x = m1 x" if "t \<le> x" "x < t + length md" for x
  proof -
    have "\<forall>(u, q) \<in> set (zip ts' mods). x < u \<or> u + length q \<le> x" using ap(3) that by (auto simp: apart_def)
    then show ?thesis using IH(3) by blast
  qed
  then have "bytes_at m' t (length md) = md" using here by (subst bytes_at_cong [of _ m' _ m1]) auto
  moreover have "m' x = m x" if "\<forall>(t, md) \<in> set (zip ts (md # mods)). x < t \<or> t + length md \<le> x" for x
    using that IH(3) m1 unfolding ts by auto
  ultimately show ?case using c1(1) IH(1,2) unfolding ts by (intro exI [of _ m'] exI [of _ c']) simp
qed

text \<open>
  C22: the modules that are packed are loaded: when the image that \<open>buildImage\<close> makes of a kernel
  and at most \<open>2 ^ 32 - 1\<close> binaries lies in memory and the targets lie apart from it and from
  each other, \<open>loadModules\<close> at the end of the kernel ends and leaves at each target the bytes of
  its binary.
\<close>

theorem packed_modules_are_loaded:
  assumes "fs name = Some krn" "list_all2 (\<lambda>n md. fs n = Some md) names mods"
    "buildImage fs True (name # names) = Inr img" "bytes_at m a (length img) = img"
    "targets_ok (a + length krn) (length img - length krn) ts mods"
    "length mods < 2 ^ 32" "\<forall>md \<in> set mods. length md < 2 ^ 32" "cursor_ok c" "currentVideo c = nc_video"
  shows "\<exists>m' c'. loadModules (a + length krn) ts m c = Some (m', c') \<and>
    (\<forall>(t, md) \<in> set (zip ts mods). bytes_at m' t (length md) = md)"
proof -
  let ?e = "a + length krn" and ?w = "of_nat (length mods) :: 32 word"
  have img: "img = krn @ le32 ?w @ packed mods" using buildImage_packs [OF assms(1,2)] assms(3) by simp
  have "bytes_at m a (length krn) @ bytes_at m ?e 4 @ bytes_at m (?e + 4) (length (packed mods)) = krn @ le32 ?w @ packed mods"
    using assms(4) unfolding img length_append length_le32 bytes_at_add .
  then have b: "bytes_at m ?e 4 = le32 ?w" "bytes_at m (?e + 4) (length (packed mods)) = packed mods" by simp_all
  have w: "unat ?w = length mods"
    using assms(6) by (simp only: unsigned_of_nat of_nat_id) (simp add: take_bit_nat_eq_self)
  have "targets_ok (?e + 4) (length (packed mods)) ts mods"
    by (rule targets_ok_sub [OF assms(5)]) (simp_all add: img)
  from loadModules_loop_loads [OF this b(2) assms(7,8,9)]
  show ?thesis unfolding loadModules_def readUint32_le32 [OF b(1)] Let_def prod.case w by blast
qed

definition ex_image :: memory where
  "ex_image x = (let img = [1, 2, 3] @ le32 2 @ packed [[7, 8], [9]] in if 100 \<le> x \<and> x < 100 + length img then img ! (x - 100) else 0)"

definition ex_fs :: "string \<Rightarrow> byte list option" where
  "ex_fs n = (if n = ''k'' then Some [1, 2, 3] else if n = ''a'' then Some [7, 8] else if n = ''b'' then Some [9] else None)"

theorem packed_modules_are_loaded_witness:
  "\<exists>m' c'. loadModules 103 [500, 600] ex_image ex_cstate = Some (m', c') \<and>
    bytes_at m' 500 2 = [7, 8] \<and> bytes_at m' 600 1 = [9]"
proof -
  let ?img = "[1, 2, 3] @ le32 2 @ packed [[7, 8], [9]]"
  have img: "buildImage ex_fs True [''k'', ''a'', ''b''] = Inr ?img"
    using buildImage_packs [of ex_fs "''k''" "[1, 2, 3]" "[''a'', ''b'']" "[[7, 8], [9]]"] by (simp add: ex_fs_def)
  have l: "length ?img = 18" by simp
  have mem: "bytes_at ex_image 100 (length ?img) = ?img"
    by (rule nth_equalityI) (simp_all add: ex_image_def Let_def)
  show ?thesis
    using cursor_ok_ex_cstate currentVideo_ex_cstate packed_modules_are_loaded [of ex_fs "''k''" "[1, 2, 3]" "[''a'', ''b'']" "[[7, 8], [9]]",
        OF _ _ img mem, of "[500, 600]" ex_cstate]
    by (simp add: ex_fs_def apart_def) (simp add: numeral_2_eq_2)
qed

end
