(* ===== verification/Interrupts.thy ===== *)
theory Interrupts
  imports Stdio Loader "HOL-Library.Multiset"
begin

text \<open>
  The interrupts: \<open>Kernel/interrupts.c\<close>. The table of handlers, and the list of sleeping
  processes that every tick of the timer advances: three parallel arrays of 50 places of which
  the first \<open>sleepListeners\<close> are in use. The lemmas relate them to the multiset of sleepers and
  the ticks they still have to wait, and show that a tick wakes exactly those that are due.
\<close>

section \<open>State\<close>

record IDT_Entry =
  offset_l :: "16 word"
  selector :: "16 word"
  zero_l :: "8 word"
  attrs :: "8 word"
  offset_m :: "16 word"
  offset_h :: "32 word"
  zero_h :: "32 word"

text \<open>
  \<open>page_dir\<close> is the memory of the page directory, \<open>literal\<close> tells where the linker put a
  string literal.
\<close>

record istate = kstate +
  IDT :: "nat \<Rightarrow> IDT_Entry"
  sleepListeners :: nat
  sleepPIDS :: "int list"
  sleepCounter :: "int list"
  alarmSleep :: "int list"
  page_dir :: "addr \<Rightarrow> 64 word"
  literal :: "string \<Rightarrow> addr"

definition MAX_LISTENERS :: nat where "MAX_LISTENERS = 50"

section \<open>The table of handlers\<close>

datatype handler = Timer_tick | Master | Slave | General_protection | Page_fault | Sys_call | Keyboard | Mouse

definition setIDTEntry :: "64 word \<Rightarrow> nat \<Rightarrow> 'a istate_scheme \<Rightarrow> 'a istate_scheme" where
  "setIDTEntry offset entry s = s\<lparr>IDT := (IDT s)(entry :=
     \<lparr>offset_l = ucast offset AND 0xFFFF, selector = 0x08, zero_l = 0, attrs = 0x8E,
      offset_m = ucast (drop_bit 16 offset) AND 0xFFFF,
      offset_h = ucast (ucast (drop_bit 32 offset) :: 16 word) AND 0xFFFFFFFF, zero_h = 0\<rparr>)\<rparr>"

text \<open>The entries in the order of the code; \<open>address\<close> is where the handlers are.\<close>

definition IDT_entries :: "(handler \<times> nat) list" where
  "IDT_entries = [(Timer_tick, 0x20), (Master, 0x23), (Master, 0x24), (Master, 0x25), (Master, 0x26), (Master, 0x27),
     (Slave, 0x28), (Slave, 0x29), (Master, 0x2A), (Master, 0x2B), (Master, 0x2D), (Master, 0x2E),
     (General_protection, 0x0D), (Page_fault, 0x0E), (Sys_call, 0x80), (Keyboard, 0x21), (Mouse, 0x2C)]"

definition loadIDT :: "(handler \<Rightarrow> 64 word) \<Rightarrow> 'a istate_scheme \<Rightarrow> 'a istate_scheme" where
  "loadIDT address s = fold (\<lambda>(h, entry). setIDTEntry (address h) entry) IDT_entries s"

definition enablePIC :: "('d, 'b) device_scheme \<Rightarrow> 'd \<Rightarrow> 'd" where
  "enablePIC dev d = outputb dev 0xA1 0xEF (outputb dev 0x21 0xF8 d)"

definition spure :: "'a kstate_scheme \<Rightarrow> 'a kstate_scheme" where
  "spure s = s\<lparr>con := printMsg 10 10 (lit ''xxxxxxxxxx'') 0x20 (con s)\<rparr>"

section \<open>Sleeping processes\<close>

definition deleteSleep :: "nat \<Rightarrow> 'a istate_scheme \<Rightarrow> 'a istate_scheme" where
  "deleteSleep index s =
     (if index \<ge> sleepListeners s then s
      else s\<lparr>alarmSleep := (alarmSleep s)[index := alarmSleep s ! (sleepListeners s - 1)],
             sleepPIDS := (sleepPIDS s)[index := sleepPIDS s ! (sleepListeners s - 1)],
             sleepCounter := (sleepCounter s)[index := sleepCounter s ! (sleepListeners s - 1)],
             sleepListeners := sleepListeners s - 1\<rparr>)"

definition addSleep :: "int \<Rightarrow> int \<Rightarrow> 'a istate_scheme \<Rightarrow> 'a istate_scheme option" where
  "addSleep pid interval s =
     (if sleepListeners s \<ge> MAX_LISTENERS then on_con (ncPrint (lit ''_______________'')) s
      else Some (s\<lparr>alarmSleep := (alarmSleep s)[sleepListeners s := interval],
                   sleepPIDS := (sleepPIDS s)[sleepListeners s := pid],
                   sleepCounter := (sleepCounter s)[sleepListeners s := 0],
                   sleepListeners := sleepListeners s + 1\<rparr>))"

definition doneSleeping :: "nat \<Rightarrow> 'a istate_scheme \<Rightarrow> 'a istate_scheme" where
  "doneSleeping index s = deleteSleep index (changeProcessState (sleepPIDS s ! index) READY s)"

text \<open>
  The loop of the timer over \<open>auxj\<close>. A process that is done leaves its place to the last one,
  which is looked at next: \<open>auxj\<close> goes back and forth by one.
\<close>

partial_function (option) timerTick_loop :: "nat \<Rightarrow> 'a istate_scheme \<Rightarrow> 'a istate_scheme option" where
  "timerTick_loop auxj s =
     (if auxj < sleepListeners s then
        let s1 = s\<lparr>sleepCounter := (sleepCounter s)[auxj := sleepCounter s ! auxj + 1]\<rparr>
        in if sleepCounter s1 ! auxj = alarmSleep s1 ! auxj
           then timerTick_loop auxj (doneSleeping auxj s1)
           else timerTick_loop (auxj + 1) s1
      else Some s)"

text \<open>The array \<open>time\<close> is a local of nine bytes; its string is printed.\<close>

definition timerTickHandlerC :: "('d, 'b) device_scheme \<Rightarrow> 'd \<Rightarrow> 'a istate_scheme \<Rightarrow> ('a istate_scheme \<times> 'd) option" where
  "timerTickHandlerC dev d s =
     (let (m, d1) = getTime dev 0 (\<lambda>_. 0) d;
          time = (case cstr 9 m 0 of None \<Rightarrow> [] | Some str \<Rightarrow> str);
          s1 = s\<lparr>con := printMsg 2 0 time 0x20 (con s)\<rparr>
      in map_option (\<lambda>s2. (s2, d1)) (timerTick_loop 0 s1))"

definition sleep :: "int \<Rightarrow> 'a istate_scheme \<Rightarrow> ('a istate_scheme, unit) exec" where
  "sleep time s =
     (let myPid = getCurrentPid s in
      case addSleep myPid time s of
        None \<Rightarrow> Fault
      | Some s1 \<Rightarrow> yield_exec (changeProcessState myPid SLEEPING s1))"

definition generalProtectionHandlerC :: "'a istate_scheme \<Rightarrow> ('a istate_scheme, unit) exec" where
  "generalProtectionHandlerC s =
     (case on_con (ncPrint (lit ''RECOVERING GENERAL PROTECTION FAULT'')) s of
        None \<Rightarrow> Fault
      | Some s1 \<Rightarrow>
          bind_exec (removeProcess (getCurrentPid s1) s1)
            (\<lambda>s2 _. Done (s2\<lparr>con := printMsg 20 0 (lit ''General Protection'') 0x11 (con s2)\<rparr>) ()))"

section \<open>The sleepers\<close>

text \<open>The rows of the three arrays that are in use, and the processes with the ticks they still wait.\<close>

definition rows :: "'a istate_scheme \<Rightarrow> (int \<times> int \<times> int) list" where
  "rows s = take (sleepListeners s) (zip (sleepPIDS s) (zip (alarmSleep s) (sleepCounter s)))"

definition sleepers :: "'a istate_scheme \<Rightarrow> (int \<times> int) multiset" where
  "sleepers s = image_mset (\<lambda>(p, a, c). (p, a - c)) (mset (rows s))"

definition sleep_ok :: "'a istate_scheme \<Rightarrow> bool" where
  "sleep_ok s \<longleftrightarrow> sleepListeners s \<le> MAX_LISTENERS \<and> length (sleepPIDS s) = MAX_LISTENERS \<and>
     length (sleepCounter s) = MAX_LISTENERS \<and> length (alarmSleep s) = MAX_LISTENERS"

lemma length_rows [simp]: "sleep_ok s \<Longrightarrow> length (rows s) = sleepListeners s"
  by (simp add: rows_def sleep_ok_def)

lemma nth_rows: "sleep_ok s \<Longrightarrow> i < sleepListeners s \<Longrightarrow> rows s ! i = (sleepPIDS s ! i, alarmSleep s ! i, sleepCounter s ! i)"
  by (simp add: rows_def sleep_ok_def)

text \<open>What the timer does to the arrays, apart from the rest of the state.\<close>

definition set_sleeps :: "nat \<Rightarrow> int list \<Rightarrow> int list \<Rightarrow> int list \<Rightarrow> 'a istate_scheme \<Rightarrow> 'a istate_scheme" where
  "set_sleeps n ps as cs s = s\<lparr>sleepListeners := n, sleepPIDS := ps, alarmSleep := as, sleepCounter := cs\<rparr>"

lemma set_sleeps_simps [simp]:
  "sleepListeners (set_sleeps n ps as cs s) = n" "sleepPIDS (set_sleeps n ps as cs s) = ps"
  "alarmSleep (set_sleeps n ps as cs s) = as" "sleepCounter (set_sleeps n ps as cs s) = cs"
  "procs (set_sleeps n ps as cs s) = procs s" "slots (set_sleeps n ps as cs s) = slots s"
  "cardinal_processes (set_sleeps n ps as cs s) = cardinal_processes s" "current (set_sleeps n ps as cs s) = current s"
  "set_sleeps n ps as cs (set_sleeps n1 ps1 as1 cs1 s) = set_sleeps n ps as cs s"
  by (simp_all add: set_sleeps_def)

lemma changeProcessState_loop_set_sleeps:
  "changeProcessState_loop k x pid st (set_sleeps n ps as cs s) =
   set_sleeps n ps as cs (changeProcessState_loop k x pid st s)"
  by (induction k arbitrary: x) (simp_all add: slot_proc_def set_state_def set_sleeps_def)

lemma changeProcessState_set_sleeps:
  "changeProcessState pid st (set_sleeps n ps as cs s) = set_sleeps n ps as cs (changeProcessState pid st s)"
  by (simp add: changeProcessState_def changeProcessState_loop_set_sleeps)

lemma changeProcessState_loop_con:
  "changeProcessState_loop k x pid st (s\<lparr>con := c\<rparr>) = (changeProcessState_loop k x pid st s)\<lparr>con := c\<rparr>"
  by (induction k arbitrary: x) (simp_all add: slot_proc_def set_state_def)

lemma changeProcessState_con: "changeProcessState pid st (s\<lparr>con := c\<rparr>) = (changeProcessState pid st s)\<lparr>con := c\<rparr>"
  by (simp add: changeProcessState_def changeProcessState_loop_con)

lemma changeProcessState_sleeps [simp]:
  "sleepListeners (changeProcessState pid st s) = sleepListeners s" "sleepPIDS (changeProcessState pid st s) = sleepPIDS s"
  "alarmSleep (changeProcessState pid st s) = alarmSleep s" "sleepCounter (changeProcessState pid st s) = sleepCounter s"
  using changeProcessState_frame(11) [of pid st s]
  by (cases s; cases "changeProcessState pid st s"; simp)+

definition wake :: "int list \<Rightarrow> 'a sched_scheme \<Rightarrow> 'a sched_scheme" where
  "wake ws s = fold (\<lambda>p. changeProcessState p READY) ws s"

lemma wake_simps [simp]: "wake [] s = s" "wake (p # ws) s = wake ws (changeProcessState p READY s)"
  by (simp_all add: wake_def)

lemma wake_set_sleeps: "wake ws (set_sleeps n ps as cs s) = set_sleeps n ps as cs (wake ws s)"
  by (induction ws arbitrary: s) (simp_all add: changeProcessState_set_sleeps)

lemma wake_con: "wake ws (s\<lparr>con := c\<rparr>) = (wake ws s)\<lparr>con := c\<rparr>"
  by (induction ws arbitrary: s) (simp_all add: changeProcessState_con)

section \<open>One tick\<close>

definition age :: "int \<times> int \<times> int \<Rightarrow> int \<times> int \<times> int" where
  "age r = (case r of (p, a, c) \<Rightarrow> (p, a, c + 1))"

definition due :: "int \<times> int \<times> int \<Rightarrow> bool" where
  "due r = (case r of (p, a, c) \<Rightarrow> c + 1 = a)"

lemma mset_drop_split: "j < length xs \<Longrightarrow> mset (drop j xs) = add_mset (xs ! j) (mset (drop (Suc j) xs))"
  by (simp flip: Cons_nth_drop_Suc)

text \<open>Moving the last element to a place removes what was there.\<close>

lemma drop_last_to:
  assumes "j < length xs"
  shows "mset (drop j (take (length xs - 1) (xs[j := last xs]))) = mset (drop (Suc j) xs)"
    and "take j (take (length xs - 1) (xs[j := last xs])) = take j xs"
proof -
  obtain ys y where xs: "xs = ys @ [y]" using assms by (cases xs rule: rev_exhaust) auto
  show "mset (drop j (take (length xs - 1) (xs[j := last xs]))) = mset (drop (Suc j) xs)"
  proof (cases "j = length ys")
    case True
    then show ?thesis by (simp add: xs)
  next
    case False
    then have j: "j < length ys" using assms by (simp add: xs)
    then have "drop j (take (length xs - 1) (xs[j := last xs])) = y # drop (Suc j) ys"
    proof -
      have "length ys - j = Suc (length (drop (Suc j) ys))" using j by simp
      then show ?thesis using j by (simp add: xs list_update_append upd_conv_take_nth_drop del: length_drop)
    qed
    then show ?thesis using j by (simp add: xs)
  qed
  show "take j (take (length xs - 1) (xs[j := last xs])) = take j xs"
  proof -
    have "j \<le> length xs - 1" using assms by linarith
    then show ?thesis by (simp add: min_def)
  qed
qed

lemma rows_set_sleeps:
  "rows (set_sleeps n ps as cs s) = take n (zip ps (zip as cs))"
  by (simp add: rows_def)

lemma timerTick_loop_spec:
  assumes "sleep_ok s" "j \<le> sleepListeners s"
  shows "\<exists>n ps as cs ws. timerTick_loop j s = Some (set_sleeps n ps as cs (wake ws s)) \<and>
    sleep_ok (set_sleeps n ps as cs s) \<and>
    mset (take n (zip ps (zip as cs))) = mset (take j (rows s)) + image_mset age (filter_mset (Not \<circ> due) (mset (drop j (rows s)))) \<and>
    mset ws = image_mset fst (filter_mset due (mset (drop j (rows s))))"
  using assms
proof (induction "sleepListeners s - j" arbitrary: s j rule: less_induct)
  case less
  note ok = less.prems(1)
  show ?case
  proof (cases "j < sleepListeners s")
    case False
    then have j: "j = sleepListeners s" using less.prems(2) by simp
    have t: "timerTick_loop j s = Some s" using False by (subst timerTick_loop.simps) simp
    have same: "set_sleeps (sleepListeners s) (sleepPIDS s) (alarmSleep s) (sleepCounter s) s = s"
      by (simp add: set_sleeps_def)
    show ?thesis
    proof (intro exI conjI)
      show "timerTick_loop j s = Some (set_sleeps (sleepListeners s) (sleepPIDS s) (alarmSleep s) (sleepCounter s) (wake [] s))"
        unfolding wake_simps same by (rule t)
      show "sleep_ok (set_sleeps (sleepListeners s) (sleepPIDS s) (alarmSleep s) (sleepCounter s) s)" unfolding same by (rule ok)
    qed (use ok j in \<open>simp_all flip: rows_def\<close>)
  next
    case True
    let ?n = "sleepListeners s" and ?ps = "sleepPIDS s" and ?as = "alarmSleep s" and ?cs = "sleepCounter s"
    let ?r = "rows s ! j"
    have r: "?r = (?ps ! j, ?as ! j, ?cs ! j)" using nth_rows [OF ok True] .
    have l: "?n \<le> 50" "length ?ps = 50" "length ?as = 50" "length ?cs = 50" using ok by (simp_all add: sleep_ok_def MAX_LISTENERS_def)
    have split: "mset (drop j (rows s)) = add_mset ?r (mset (drop (Suc j) (rows s)))"
      using ok True by (intro mset_drop_split) simp
    define cs1 where "cs1 = ?cs[j := ?cs ! j + 1]"
    define s1 where "s1 = set_sleeps ?n ?ps ?as cs1 s"
    have step: "timerTick_loop j s = (if due ?r then timerTick_loop j (doneSleeping j s1) else timerTick_loop (j + 1) s1)"
      using True l by (subst timerTick_loop.simps) (simp add: r due_def s1_def set_sleeps_def cs1_def Let_def)
    have rows1: "rows s1 = (rows s)[j := age ?r]"
      using l True by (intro nth_equalityI) (auto simp: s1_def rows_set_sleeps rows_def cs1_def nth_list_update age_def)
    have ok1: "sleep_ok s1" using ok by (simp add: s1_def sleep_ok_def cs1_def)
    show ?thesis
    proof (cases "due ?r")
      case False
      have lt: "sleepListeners s1 - (j + 1) < ?n - j" "j + 1 \<le> sleepListeners s1" using True by (simp_all add: s1_def)
      obtain n ps as cs ws where IH: "timerTick_loop (j + 1) s1 = Some (set_sleeps n ps as cs (wake ws s1))"
        "sleep_ok (set_sleeps n ps as cs s1)"
        "mset (take n (zip ps (zip as cs))) = mset (take (j + 1) (rows s1)) +
           image_mset age (filter_mset (Not \<circ> due) (mset (drop (j + 1) (rows s1))))"
        "mset ws = image_mset fst (filter_mset due (mset (drop (j + 1) (rows s1))))"
        using less.hyps [OF lt(1) ok1 lt(2)] by (elim exE conjE) (rule that)
      have d: "drop (j + 1) (rows s1) = drop (Suc j) (rows s)" by (simp add: rows1)
      have "take (j + 1) (rows s1) = take j (rows s) @ [age ?r]"
        using True ok by (simp add: rows1 take_Suc_conv_app_nth)
      with IH False step show ?thesis
        unfolding split d
        by (intro exI [of _ n] exI [of _ ps] exI [of _ as] exI [of _ cs] exI [of _ ws])
           (simp_all add: s1_def wake_set_sleeps sleep_ok_def)
    next
      case d: True
      define s2 where "s2 = doneSleeping j s1"
      have s2: "s2 = set_sleeps (?n - 1) (?ps[j := ?ps ! (?n - 1)]) (?as[j := ?as ! (?n - 1)]) (cs1[j := cs1 ! (?n - 1)])
          (changeProcessState (fst ?r) READY s)"
        using True by (simp add: s2_def doneSleeping_def deleteSleep_def s1_def changeProcessState_set_sleeps r)
          (simp add: set_sleeps_def)
      have ok2: "sleep_ok s2" using l by (simp add: s2 sleep_ok_def cs1_def MAX_LISTENERS_def)
      have lst: "last (rows s1) = (?ps ! (?n - 1), ?as ! (?n - 1), cs1 ! (?n - 1))"
        using True ok1 nth_rows [OF ok1, of "?n - 1"] by (subst last_conv_nth) (auto simp: s1_def simp flip: length_0_conv)
      have len1: "length (rows s1) = ?n" using ok1 by (simp add: s1_def)
      have rows2: "rows s2 = take (length (rows s1) - 1) ((rows s1)[j := last (rows s1)])"
        unfolding lst len1 using l True
        by (intro nth_equalityI) (auto simp: s2 rows_set_sleeps s1_def cs1_def nth_list_update)
      have j1: "j < length (rows s1)" using True len1 by simp
      have lt: "sleepListeners s2 - j < ?n - j" "j \<le> sleepListeners s2" using True by (simp_all add: s2)
      obtain n ps as cs ws where IH: "timerTick_loop j s2 = Some (set_sleeps n ps as cs (wake ws s2))"
        "sleep_ok (set_sleeps n ps as cs s2)"
        "mset (take n (zip ps (zip as cs))) = mset (take j (rows s2)) +
           image_mset age (filter_mset (Not \<circ> due) (mset (drop j (rows s2))))"
        "mset ws = image_mset fst (filter_mset due (mset (drop j (rows s2))))"
        using less.hyps [OF lt(1) ok2 lt(2)] by (elim exE conjE) (rule that)
      have "mset (drop j (rows s2)) = mset (drop (Suc j) (rows s))" "take j (rows s2) = take j (rows s)"
        unfolding rows2 drop_last_to [OF j1] by (simp_all add: rows1)
      then show ?thesis
        using IH d step unfolding split
        by (intro exI [of _ n] exI [of _ ps] exI [of _ as] exI [of _ cs] exI [of _ "fst ?r # ws"])
           (simp_all add: s2_def [symmetric], simp_all add: s2 wake_set_sleeps sleep_ok_def)
    qed
  qed
qed

text \<open>The number of ticks that are left goes down by one, and those with one left go.\<close>

definition advance :: "(int \<times> int) multiset \<Rightarrow> (int \<times> int) multiset" where
  "advance M = image_mset (\<lambda>(p, r). (p, r - 1)) (filter_mset (\<lambda>(p, r). r \<noteq> 1) M)"

lemma timerTick_effect:
  assumes "sleep_ok s"
  shows "\<exists>t d' ws. timerTickHandlerC dev d s = Some (t, d') \<and> sleep_ok t \<and> sleepers t = advance (sleepers s) \<and>
    mset ws = image_mset fst (filter_mset (\<lambda>(p, r). r = 1) (sleepers s)) \<and> sched.truncate t = sched.truncate (wake ws s)"
proof -
  obtain m d1 where g: "getTime dev 0 (\<lambda>_. 0) d = (m, d1)" by fastforce
  define c where "c = printMsg 2 0 (case cstr 9 m 0 of None \<Rightarrow> [] | Some str \<Rightarrow> str) 0x20 (con s)"
  let ?s = "s\<lparr>con := c\<rparr>"
  have r: "rows ?s = rows s" by (simp add: rows_def)
  have "sleep_ok ?s" using assms by (simp add: sleep_ok_def)
  then obtain n ps as cs ws where t: "timerTick_loop 0 ?s = Some (set_sleeps n ps as cs (wake ws ?s))"
    "sleep_ok (set_sleeps n ps as cs ?s)"
    "mset (take n (zip ps (zip as cs))) = image_mset age (filter_mset (Not \<circ> due) (mset (rows s)))"
    "mset ws = image_mset fst (filter_mset due (mset (rows s)))"
    using timerTick_loop_spec [of ?s 0] unfolding r by auto
  have h: "timerTickHandlerC dev d s = Some (set_sleeps n ps as cs (wake ws ?s), d1)"
    using t(1) by (simp add: timerTickHandlerC_def g c_def)
  have "(\<lambda>(p, a, c). (p, a - c)) \<circ> age = (\<lambda>(p, r). (p, r - 1)) \<circ> (\<lambda>(p, a, c). (p, a - c))"
    by (auto simp: age_def fun_eq_iff)
  moreover have "(\<lambda>x. case case x of (p, a, c) \<Rightarrow> (p, a - c) of (p, r) \<Rightarrow> r \<noteq> 1) = Not \<circ> due"
    "(\<lambda>x. case case x of (p, a, c) \<Rightarrow> (p, a - c) of (p, r) \<Rightarrow> r = 1) = due"
    by (auto simp: due_def fun_eq_iff)
  ultimately have "sleepers (set_sleeps n ps as cs (wake ws ?s)) = advance (sleepers s)"
    "image_mset fst (filter_mset (\<lambda>(p, r). r = 1) (sleepers s)) = mset ws"
    unfolding sleepers_def rows_set_sleeps t(3,4) advance_def filter_mset_image_mset
    by (simp_all add: multiset.map_comp o_def split_beta)
  moreover have "sleep_ok (set_sleeps n ps as cs (wake ws ?s))" using t(2) by (simp add: sleep_ok_def)
  moreover have "sched.truncate (set_sleeps n ps as cs (wake ws ?s)) = sched.truncate (wake ws s)"
    by (simp add: wake_con set_sleeps_def sched.defs)
  ultimately show ?thesis using h
    by (intro exI [of _ "set_sleeps n ps as cs (wake ws ?s)"] exI [of _ d1] exI [of _ ws]) (simp only: simp_thms)
qed

section \<open>Sleeping to the end\<close>

text \<open>
  What the rest of the system may do while a process sleeps: run other processes, turn the ring, put
  other processes to sleep, but not touch the state of the sleeper.
\<close>

definition leaves_asleep :: "addr \<Rightarrow> 'a istate_scheme \<Rightarrow> 'a istate_scheme \<Rightarrow> bool" where
  "leaves_asleep x s t \<longleftrightarrow> sleep_ok t \<and> (\<exists>ys. ring t ys \<and> x \<in> set ys) \<and> slot_pid t x = slot_pid s x \<and>
     slot_state t x = slot_state s x \<and> (\<exists>N. sleepers t = sleepers s + N \<and> slot_pid s x \<notin># image_mset fst N)"

text \<open>\<open>k\<close> ticks of the timer pass, with anything of that kind before, between and behind them.\<close>

inductive passes :: "('d, 'b) device_scheme \<Rightarrow> addr \<Rightarrow> 'a istate_scheme \<Rightarrow> nat \<Rightarrow> 'a istate_scheme \<Rightarrow> bool" for dev x s0 where
  here: "passes dev x s0 0 s0"
| tick: "passes dev x s0 k s \<Longrightarrow> timerTickHandlerC dev d s = Some (t, d') \<Longrightarrow> passes dev x s0 (Suc k) t"
| other: "passes dev x s0 k s \<Longrightarrow> leaves_asleep x s t \<Longrightarrow> passes dev x s0 k t"

lemma truncate_simps:
  "slots (sched.truncate s) = slots s" "procs (sched.truncate s) = procs s" "current (sched.truncate s) = current s"
  "cardinal_processes (sched.truncate s) = cardinal_processes s"
  by (simp_all add: sched.defs)

lemma same_truncate:
  assumes "sched.truncate t = sched.truncate s"
  shows "ring t xs = ring s xs" "slot_state t x = slot_state s x" "slot_pid t x = slot_pid s x"
  using arg_cong [OF assms, of slots] arg_cong [OF assms, of procs] arg_cong [OF assms, of current]
    arg_cong [OF assms, of cardinal_processes]
  by (simp_all add: truncate_simps ring_def slot_proc_def)

lemma wake_state:
  assumes "ring s xs" "x \<in> set xs"
  shows "ring (wake ws s) xs \<and> slot_pid (wake ws s) x = slot_pid s x \<and>
    slot_state (wake ws s) x = (if slot_pid s x \<in> set ws then READY else slot_state s x)"
  using assms(1)
proof (induction ws arbitrary: s)
  case Nil
  then show ?case by simp
next
  case (Cons p ws)
  have "ring (changeProcessState p READY s) xs" using Cons.prems by simp
  from Cons.IH [OF this] changeProcessState_state [OF Cons.prems assms(2), of p READY] show ?case by auto
qed

lemma addSleep_effect:
  assumes "sleep_ok s" "sleepListeners s < MAX_LISTENERS"
  shows "\<exists>n ps as cs. addSleep p k s = Some (set_sleeps n ps as cs s) \<and> sleep_ok (set_sleeps n ps as cs s) \<and>
    sleepers (set_sleeps n ps as cs s) = add_mset (p, k) (sleepers s)"
proof -
  let ?n = "sleepListeners s"
  let ?t = "set_sleeps (?n + 1) ((sleepPIDS s)[?n := p]) ((alarmSleep s)[?n := k]) ((sleepCounter s)[?n := 0]) s"
  have l: "length (sleepPIDS s) = 50" "length (alarmSleep s) = 50" "length (sleepCounter s) = 50" "?n < 50"
    using assms by (simp_all add: sleep_ok_def MAX_LISTENERS_def)
  have "addSleep p k s = Some ?t" using assms(2) by (simp add: addSleep_def set_sleeps_def)
  moreover have "sleep_ok ?t" using assms by (simp add: sleep_ok_def)
  moreover have "rows ?t = rows s @ [(p, k, 0)]"
    using l by (intro nth_equalityI) (auto simp: rows_set_sleeps rows_def nth_append nth_list_update less_Suc_eq)
  then have "sleepers ?t = add_mset (p, k) (sleepers s)" by (simp add: sleepers_def)
  ultimately show ?thesis by blast
qed

text \<open>One tick, as a process sees it that has the rows \<open>W\<close> in the table.\<close>

lemma tick_step:
  assumes "ring s xs" "x \<in> set xs" "sleep_ok s" "sleepers s = W + M" "slot_pid s x \<notin># image_mset fst M"
  shows "\<exists>t d'. timerTickHandlerC dev d s = Some (t, d') \<and> ring t xs \<and> sleep_ok t \<and> slot_pid t x = slot_pid s x \<and>
    (\<exists>N. sleepers t = advance W + N \<and> slot_pid s x \<notin># image_mset fst N) \<and>
    slot_state t x = (if (slot_pid s x, 1) \<in># W then READY else slot_state s x)"
proof -
  obtain t d' ws where t: "timerTickHandlerC dev d s = Some (t, d')" "sleep_ok t" "sleepers t = advance (sleepers s)"
    "mset ws = image_mset fst (filter_mset (\<lambda>(p, r). r = 1) (sleepers s))" "sched.truncate t = sched.truncate (wake ws s)"
    using timerTick_effect [OF assms(3), of dev d] by (elim exE conjE) (rule that)
  have "slot_pid s x \<in># mset ws \<longleftrightarrow> (slot_pid s x, 1) \<in># W"
    using assms(5) unfolding t(4) assms(4) by force
  then have w: "slot_pid s x \<in> set ws \<longleftrightarrow> (slot_pid s x, 1) \<in># W" by simp
  have "sleepers t = advance W + advance M" by (simp add: t(3) assms(4) advance_def)
  moreover have "slot_pid s x \<notin># image_mset fst (advance M)" using assms(5) by (force simp: advance_def)
  ultimately show ?thesis
    using t(1,2) wake_state [OF assms(1,2), of ws] same_truncate [OF t(5)] w by auto
qed

text \<open>
  The row of a sleeper after \<open>k\<close> ticks; one that found no room in the table has none.
\<close>

definition sleeper_row :: "bool \<Rightarrow> int \<Rightarrow> nat \<Rightarrow> (int \<times> int) multiset" where
  "sleeper_row listed p r = (if listed then {#(p, int r)#} else {#})"

lemma passes_asleep:
  assumes "passes dev x s k t"
    and "ring s xs" "x \<in> set xs" "slot_state s x = SLEEPING" "sleep_ok s"
    and "sleepers s = sleeper_row listed (slot_pid s x) n + M" "slot_pid s x \<notin># image_mset fst M" "listed \<longrightarrow> k < n"
  shows "\<exists>ys N. ring t ys \<and> x \<in> set ys \<and> slot_state t x = SLEEPING \<and> sleep_ok t \<and> slot_pid t x = slot_pid s x \<and>
    sleepers t = sleeper_row listed (slot_pid s x) (n - k) + N \<and> slot_pid s x \<notin># image_mset fst N"
  using assms(1,8)
proof (induction rule: passes.induct)
  case here
  then show ?case using assms(2-7) by (intro exI [of _ xs] exI [of _ M]) simp
next
  case (tick k t d u d')
  then obtain ys N where t: "ring t ys" "x \<in> set ys" "slot_state t x = SLEEPING" "sleep_ok t" "slot_pid t x = slot_pid s x"
    "sleepers t = sleeper_row listed (slot_pid s x) (n - k) + N" "slot_pid s x \<notin># image_mset fst N"
    by (auto simp: Suc_lessD)
  have r: "(slot_pid s x, 1) \<notin># sleeper_row listed (slot_pid s x) (n - k)"
    "advance (sleeper_row listed (slot_pid s x) (n - k)) = sleeper_row listed (slot_pid s x) (n - Suc k)"
    using tick.prems by (auto simp: sleeper_row_def advance_def)
  show ?case
    using tick_step [OF t(1,2,4,6), unfolded t(5), OF t(7), of dev d] tick.hyps(2) t(2,3) unfolding r(2) by (auto simp: r(1))
next
  case (other k t u)
  then obtain ys N where t: "slot_state t x = SLEEPING" "slot_pid t x = slot_pid s x"
    "sleepers t = sleeper_row listed (slot_pid s x) (n - k) + N" "slot_pid s x \<notin># image_mset fst N" by blast
  obtain zs K where u: "sleep_ok u" "ring u zs" "x \<in> set zs" "slot_pid u x = slot_pid t x" "slot_state u x = slot_state t x"
    "sleepers u = sleepers t + K" "slot_pid t x \<notin># image_mset fst K"
    using other.hyps(2) by (auto simp: leaves_asleep_def)
  show ?case using t u by (intro exI [of _ zs] exI [of _ "N + K"]) (auto simp: ac_simps)
qed

text \<open>A turn of the scheduler leaves a sleeping process asleep.\<close>

lemma yield_step_asleep:
  fixes s t :: "'a istate_scheme"
  assumes r: "ring s xs" and x: "x \<in> set xs" "slot_state s x = SLEEPING" and ok: "sleep_ok s" and y: "yield_step s = Some t"
  shows "leaves_asleep x s t"
proof -
  have "current s \<noteq> NULL" using ringD(3) [OF r] by simp
  then obtain th t1 where t1: "schedule (set_userStack th (rsp s) s) = Some t1" "t = t1\<lparr>rsp := rsp t\<rparr>"
    using y by (auto simp: yield_step_def next_process_def split: option.splits)
  let ?s = "set_userStack th (rsp s) s"
  have rs: "ring ?s xs" "slot_state ?s x = SLEEPING" "slot_pid ?s x = slot_pid s x" "current ?s = current s" using r x(2) by simp_all
  obtain n where n: "next_ready ?s xs = Some n" using schedule_stuck [OF rs(1)] t1(1) by (cases "next_ready ?s xs") auto
  note eff = schedule_effect [OF rs(1) n t1(1)]
  have "demoted ?s (rotate1 xs ! n) = READY" using n by (simp add: next_ready_def first_index_Some)
  then have "x \<noteq> current t1" using rs(2) unfolding eff(2) by (auto simp: demoted_def)
  then have st: "slot_state t1 x = SLEEPING" "slot_pid t1 x = slot_pid s x" using eff(4,5) [of x] x(1) rs by (simp_all add: demoted_def)
  have "ring t (rotate (Suc n) xs)" using eff(1) by (subst t1(2)) (simp add: ring_def slot_proc_def)
  moreover have "slot_state t x = SLEEPING" "slot_pid t x = slot_pid s x" using st by (subst t1(2), simp add: slot_proc_def)+
  moreover have "sched.more t = sched.more s" by (rule yield_step_more [OF y])
  then have "sleepers t = sleepers s" "sleep_ok t = sleep_ok s"
    by (cases s; cases t; simp add: sleepers_def rows_def sleep_ok_def)+
  ultimately show ?thesis unfolding leaves_asleep_def
    using x ok by (intro conjI exI [of _ "rotate (Suc n) xs"] exI [of _ "{#}"]) simp_all
qed

text \<open>What \<open>sleep\<close> leaves before the processor is given up.\<close>

lemma sleep_effect:
  assumes "ring s (x # xs)" "sleep_ok s" "slot_pid s x \<notin># image_mset fst (sleepers s)" "cursor_ok (con s)"
  obtains t where "sleep (int n) s = yield_exec t" "ring t (x # xs)" "slot_state t x = SLEEPING" "sleep_ok t" "slot_pid t x = slot_pid s x"
    "sleepers t = sleeper_row (sleepListeners s < MAX_LISTENERS) (slot_pid s x) n + sleepers s"
proof -
  let ?p = "slot_pid s x" and ?listed = "sleepListeners s < MAX_LISTENERS"
  have cur: "current s = x" "x \<noteq> 0" using assms(1) by (auto simp: ring_alt)
  then have pid: "getCurrentPid s = ?p" by (simp add: getCurrentPid_def)
  obtain u where u: "addSleep ?p (int n) s = Some u" "sched.truncate u = sched.truncate s" "sleep_ok u"
    "sleepers u = sleeper_row ?listed ?p n + sleepers s"
  proof (cases ?listed)
    case True
    obtain c ps as cs where "addSleep ?p (int n) s = Some (set_sleeps c ps as cs s)" "sleep_ok (set_sleeps c ps as cs s)"
      "sleepers (set_sleeps c ps as cs s) = add_mset (?p, int n) (sleepers s)"
      using addSleep_effect [OF assms(2) True, of ?p "int n"] by (elim exE conjE) (rule that)
    then show ?thesis using True that by (simp add: sleeper_row_def set_sleeps_def sched.defs)
  next
    case False
    obtain c where "print (lit ''_______________'') (con s) = Some c" using print_total [OF assms(4)] by blast
    then have "addSleep ?p (int n) s = Some (s\<lparr>con := c\<rparr>)" using False by (simp add: addSleep_def on_con_def ncPrint_eq_print)
    then show ?thesis using False assms(2) that
      by (simp add: sleeper_row_def sched.defs sleep_ok_def sleepers_def rows_def)
  qed
  note same = same_truncate [OF u(2)]
  let ?t = "changeProcessState ?p SLEEPING u"
  have "sleep (int n) s = yield_exec ?t" by (simp add: sleep_def pid u(1))
  moreover have ru: "ring u (x # xs)" using same(1) assms(1) by simp
  moreover have "slot_state ?t x = SLEEPING" "slot_pid ?t x = ?p"
    using changeProcessState_state [OF ru, of x ?p SLEEPING] same(3) by simp_all
  moreover have "sleepers ?t = sleepers u" by (simp add: sleepers_def rows_def)
  ultimately show ?thesis using u(3,4) by (intro that [of ?t]) (simp_all add: sleep_ok_def)
qed

text \<open>
  C23: a tick of the timer looks at every sleeping process once, although the processes that are
  done are taken out while it walks over the arrays: those with one tick left are made ready
  and leave, the others have one tick less to wait, and nothing else happens to the processes.
\<close>

theorem timerTick_wakes_due:
  assumes "sleep_ok s"
  shows "\<exists>t d' ws. timerTickHandlerC dev d s = Some (t, d') \<and> sleep_ok t \<and> sleepers t = advance (sleepers s) \<and>
    mset ws = image_mset fst (filter_mset (\<lambda>(p, r). r = 1) (sleepers s)) \<and> sched.truncate t = sched.truncate (wake ws s)"
  by (rule timerTick_effect [OF assms])

text \<open>
  C24: a process that calls \<open>sleep\<close> for \<open>n\<close> ticks, \<open>n\<close> at least 1, and is not in the table of sleepers
  yet, is asleep when it gives up the processor, and the switch to another process leaves it so. If
  the table has room, then however the ticks are interleaved with the work of others that leave
  its state alone, it sleeps through the first \<open>n - 1\<close> of them, and the \<open>n\<close>-th makes it ready. If the
  table is full, it sleeps for ever: no number of ticks wakes it.
\<close>

theorem sleeper_wakes_on_time:
  assumes "ring s (x # xs)" "sleep_ok s" "slot_pid s x \<notin># image_mset fst (sleepers s)" "1 \<le> n" "cursor_ok (con s)"
  shows "\<exists>s1. sleep (int n) s = yield_exec s1 \<and> slot_state s1 x = SLEEPING \<and>
    (\<forall>s2. yield_step s1 = Some s2 \<longrightarrow> leaves_asleep x s1 s2) \<and>
    (sleepListeners s < MAX_LISTENERS \<longrightarrow> (\<forall>k t d. k < n \<and> passes dev x s1 k t \<longrightarrow> slot_state t x = SLEEPING \<and>
       (\<exists>u d'. timerTickHandlerC dev d t = Some (u, d') \<and> slot_state u x = (if Suc k = n then READY else SLEEPING)))) \<and>
    (sleepListeners s = MAX_LISTENERS \<longrightarrow> (\<forall>k t. passes dev x s1 k t \<longrightarrow> slot_state t x = SLEEPING))"
proof -
  let ?listed = "sleepListeners s < MAX_LISTENERS"
  obtain s1 where s1: "sleep (int n) s = yield_exec s1" "ring s1 (x # xs)" "slot_state s1 x = SLEEPING" "sleep_ok s1"
    "slot_pid s1 x = slot_pid s x" "sleepers s1 = sleeper_row ?listed (slot_pid s x) n + sleepers s"
    by (rule sleep_effect [OF assms(1-3,5), of n]) (rule that, assumption+)
  note asleep = passes_asleep [OF _ s1(2) _ s1(3,4), of dev _ _ ?listed n "sleepers s", unfolded s1(5,6), OF _ _ refl assms(3)]
  have "slot_state t x = SLEEPING \<and>
      (\<exists>u d'. timerTickHandlerC dev d t = Some (u, d') \<and> slot_state u x = (if Suc k = n then READY else SLEEPING))"
    if l: ?listed and k: "k < n" "passes dev x s1 k t" for k t d
  proof -
    obtain ys N where t: "ring t ys" "x \<in> set ys" "slot_state t x = SLEEPING" "sleep_ok t" "slot_pid t x = slot_pid s x"
      "sleepers t = sleeper_row ?listed (slot_pid s x) (n - k) + N" "slot_pid s x \<notin># image_mset fst N"
      using asleep [OF k(2)] k(1) by auto
    have "(slot_pid s x, 1) \<in># sleeper_row ?listed (slot_pid s x) (n - k) \<longleftrightarrow> Suc k = n"
      using l k(1) by (auto simp: sleeper_row_def)
    then show ?thesis using tick_step [OF t(1,2,4,6), unfolded t(5), OF t(7), of dev d] t(3) by auto
  qed
  moreover have "slot_state t x = SLEEPING" if "sleepListeners s = MAX_LISTENERS" "passes dev x s1 k t" for k t
    using asleep [OF that(2)] that(1) by auto
  moreover have "leaves_asleep x s1 s2" if "yield_step s1 = Some s2" for s2
    by (rule yield_step_asleep [OF s1(2) _ s1(3,4) that]) simp
  ultimately show ?thesis using s1(1,3) by (intro exI [of _ s1]) blast
qed

section \<open>Examples\<close>

text \<open>The kernel of the examples of \<open>Stdio\<close>, with process 1 asleep for one more tick.\<close>

definition ex_istate :: istate where
  "ex_istate = kstate.extend ex_kstate
     \<lparr>IDT = (\<lambda>_. \<lparr>offset_l = 0, selector = 0, zero_l = 0, attrs = 0, offset_m = 0, offset_h = 0, zero_h = 0\<rparr>),
      sleepListeners = 1, sleepPIDS = 1 # replicate 49 0, sleepCounter = 4 # replicate 49 0,
      alarmSleep = 5 # replicate 49 0, page_dir = (\<lambda>_. 0), literal = (\<lambda>_. 0)\<rparr>"

lemma ex_istate_sched: "slots ex_istate = slots ex_sched" "procs ex_istate = procs ex_sched"
  "current ex_istate = current ex_sched" "cardinal_processes ex_istate = cardinal_processes ex_sched"
  by (simp_all add: ex_istate_def ex_kstate_def ex_hsched_def ex_isched_def ex_ssched_def ex_msched_def
      kstate.defs hsched.defs isched.defs ssched.defs msched.defs sched.defs)

lemma ex_istate_sleeps: "sleepListeners ex_istate = 1" "sleep_ok ex_istate" "sleepers ex_istate = {#(1, 1)#}"
proof -
  show "sleepListeners ex_istate = 1" "sleep_ok ex_istate"
    by (simp_all add: ex_istate_def kstate.defs sleep_ok_def MAX_LISTENERS_def)
  have "rows ex_istate = [(1, 5, 4)]" by (simp add: ex_istate_def kstate.defs rows_def)
  then show "sleepers ex_istate = {#(1, 1)#}" by (simp add: sleepers_def)
qed

theorem timerTick_wakes_due_witness:
  "\<exists>t d'. timerTickHandlerC ex_clock 0 ex_istate = Some (t, d') \<and> sleepers t = {#} \<and> sched.truncate t = sched.truncate (wake [1] ex_istate)"
proof -
  obtain t d' ws where "timerTickHandlerC ex_clock 0 ex_istate = Some (t, d')" "sleepers t = {#}" "mset ws = {#1#}"
    "sched.truncate t = sched.truncate (wake ws ex_istate)"
    using timerTick_wakes_due [OF ex_istate_sleeps(2), of ex_clock 0]
    by (auto simp: ex_istate_sleeps advance_def)
  moreover from this(3) have "ws = [1]" by simp
  ultimately show ?thesis by auto
qed

theorem sleeper_wakes_on_time_witness:
  "\<exists>s1 t u d'. sleep 2 ex_istate = yield_exec s1 \<and> timerTickHandlerC ex_clock 0 s1 = Some (t, d') \<and>
    slot_state t 100 = SLEEPING \<and> (\<exists>d''. timerTickHandlerC ex_clock 0 t = Some (u, d'')) \<and> slot_state u 100 = READY"
proof -
  have r: "ring ex_istate (100 # [200, 300])"
    using ring_ex_sched by (simp add: ring_def ex_istate_sched slot_proc_def)
  have p: "slot_pid ex_istate 100 = 0" by (simp add: slot_proc_def ex_istate_sched ex_sched_def ex_proc_def)
  have m: "slot_pid ex_istate 100 \<notin># image_mset fst (sleepers ex_istate)" by (simp add: p ex_istate_sleeps)
  have c: "cursor_ok (con ex_istate)"
    by (simp add: ex_istate_def ex_kstate_def kstate.defs hsched.defs cursor_ok_def)
      (simp add: ex_cstate_def tstate.defs ex_tstate_def vstate.defs ex_vstate_def)
  have n: "(1::nat) \<le> 2" by simp
  have room: "sleepListeners ex_istate < MAX_LISTENERS" by (simp add: ex_istate_sleeps MAX_LISTENERS_def)
  obtain s1 where s1: "sleep (int 2) ex_istate = yield_exec s1"
    "\<And>k t d. k < 2 \<Longrightarrow> passes ex_clock 100 s1 k t \<Longrightarrow>
       (\<exists>u d'. timerTickHandlerC ex_clock d t = Some (u, d') \<and> slot_state u 100 = (if Suc k = 2 then READY else SLEEPING))"
    using sleeper_wakes_on_time [OF r ex_istate_sleeps(2) m n c, of ex_clock] room by blast
  obtain t d' where t: "timerTickHandlerC ex_clock 0 s1 = Some (t, d')" "slot_state t 100 = SLEEPING"
    using s1(2) [OF _ passes.here, of 0] by auto
  have "passes ex_clock 100 s1 (Suc 0) t" by (rule passes.tick [OF passes.here t(1)])
  from s1(2) [OF _ this, of 0] s1(1) t show ?thesis by auto
qed

end
