(* ===== verification/Syscalls.thy ===== *)
theory Syscalls
  imports Interrupts
begin

text \<open>
  The system calls: \<open>Kernel/systemCalls.c\<close>, with \<open>printProcesses\<close> and \<open>restartSHELL\<close> of
  \<open>Kernel/scheduler.c\<close> and the handler of page faults of \<open>Kernel/interrupts.c\<close>. A table of 35
  function pointers takes the number of a call to the function that serves it. The lemmas
  show which number reaches which function, and that seven numbers reach none.
\<close>

section \<open>State\<close>

text \<open>The functions of the table.\<close>

datatype sysfun = Sys_writeC | Sys_readC | Sys_clearC | Sys_echoC | Sys_runC | Sys_printProcesses
  | Sys_changeModuleEnvironmetC | Sys_undoBackwardsC | Sys_kill | Sys_createThread | Sys_mallock
  | Sys_getAddressOfModuleC | Sys_signal | Sys_semOpen | Sys_semCreate | Sys_semClose | Sys_getMutex
  | Sys_lockMutex | Sys_freeMutex | Sys_closeMutex | Sys_createProcess | Sys_sleep | Sys_wait
  | Sys_openPipe | Sys_createPipe | Sys_closePipe | Sys_read | Sys_write

text \<open>A null pointer of the table is \<open>None\<close>.\<close>

record sstate = istate +
  sysCalls :: "sysfun option list"

definition SYSTEM_CALL_COUNT :: nat where "SYSTEM_CALL_COUNT = 35"
definition DUMMY :: int where "DUMMY = 1"
definition EDITOR :: int where "EDITOR = 2"
definition FORTUNE :: int where "FORTUNE = 3"
definition SHELL :: int where "SHELL = 4"
definition PAGE_FAULT_MODULE :: int where "PAGE_FAULT_MODULE = 5"

definition dummyAddress :: addr where "dummyAddress = 0xA00000"
definition shellAddress :: addr where "shellAddress = 0xC00000"
definition currentAddress :: addr where "currentAddress = 0x800000"
definition editorAddress :: addr where "editorAddress = 0xE00000"
definition fortuneAddress :: addr where "fortuneAddress = 0x600000"
definition sampleCodeModuleAddress :: addr where "sampleCodeModuleAddress = 0x400000"

type_synonym qword = "64 word"

definition int_of :: "qword \<Rightarrow> int" where
  "int_of q = sint (ucast q :: 32 word)"

definition with_con :: "cstate \<Rightarrow> 'a kstate_scheme \<Rightarrow> 'a kstate_scheme" where
  "with_con c s = s\<lparr>con := c\<rparr>"

section \<open>Console\<close>

fun put_bytes :: "addr \<Rightarrow> byte list \<Rightarrow> memory \<Rightarrow> memory" where
  "put_bytes a [] m = m"
| "put_bytes a (b # bs) m = put_bytes (a + 1) bs (m(a := b))"

definition sys_writeC :: "qword \<Rightarrow> qword \<Rightarrow> qword \<Rightarrow> 'a kstate_scheme \<Rightarrow> ('a kstate_scheme, qword) exec" where
  "sys_writeC qstdout qmsg qlength s =
     of_option (map_option (\<lambda>c. (with_con c s, 0)) (sys_call_writeC qstdout qmsg qlength (cmem s) (con s)))"

definition sys_readC :: "qword \<Rightarrow> qword \<Rightarrow> qword \<Rightarrow> 'a kstate_scheme \<Rightarrow> ('a kstate_scheme, qword) exec" where
  "sys_readC qstdin qbuffer qlength s =
     (let (bs, c) = sys_call_readC qstdin qlength (con s)
      in Done (with_con c (s\<lparr>cmem := put_bytes (unat qbuffer) bs (cmem s)\<rparr>)) (of_nat (length bs)))"

definition sys_call_clearC :: "'a vstate_scheme \<Rightarrow> 'a vstate_scheme" where
  "sys_call_clearC c = setCursor 3 0 (fold clearRow (rev [3..25]) c)"

definition sys_call_echoC :: "qword \<Rightarrow> 'a tstate_scheme \<Rightarrow> 'a tstate_scheme" where
  "sys_call_echoC qon c = (if int_of qon \<noteq> 0 then echoON c else echoOF c)"

definition sys_call_changeModuleEnvironmetC :: "qword \<Rightarrow> qword \<Rightarrow> 'a vstate_scheme \<Rightarrow> 'a vstate_scheme" where
  "sys_call_changeModuleEnvironmetC qi qj c = changeStartModule (int_of qi) (int_of qj) c"

definition sys_call_undoBackwardsC :: "qword \<Rightarrow> 'a vstate_scheme \<Rightarrow> 'a vstate_scheme" where
  "sys_call_undoBackwardsC qfrom c = changeStopBackwards (int_of qfrom) c"

section \<open>Processes\<close>

text \<open>A process of the given program, on the entry of the page directory for programs.\<close>

definition start_module :: "addr \<Rightarrow> string \<Rightarrow> addr \<Rightarrow> 'a istate_scheme \<Rightarrow> (int \<times> 'a istate_scheme) option" where
  "start_module module_at description args s =
     createProcess module_at (literal s description) args (s\<lparr>page_dir := mapModulesLogical module_at (page_dir s)\<rparr>)"

definition run_program :: "int \<Rightarrow> addr \<Rightarrow> 'a istate_scheme \<Rightarrow> 'a istate_scheme option" where
  "run_program program dumyProgram s =
     (if program = DUMMY then map_option snd (start_module dummyAddress ''dummy'' dumyProgram s)
      else if program = EDITOR then map_option snd (start_module editorAddress ''editor'' NULL s)
      else if program = FORTUNE then map_option snd (start_module fortuneAddress ''fortune'' NULL s)
      else if program = SHELL then map_option snd (start_module shellAddress ''Shell'' NULL s)
      else if program = PAGE_FAULT_MODULE then
        Option.bind (start_module sampleCodeModuleAddress ''pagefaul'' NULL s)
          (\<lambda>(pid, s1). Option.bind (thread_at (procs s1 (getProcessById pid s1)) 0)
            (\<lambda>t. let u = t_userStack (thrs s1 t)
                 in Some (s1\<lparr>frames := (frames s1)(u := (frames s1 u)\<lparr>f_cs := 0x00D\<rparr>)\<rparr>)))
      else on_con (ncPrint (lit ''MUERTE'')) s)"

definition sys_call_runC :: "qword \<Rightarrow> qword \<Rightarrow> 'a istate_scheme \<Rightarrow> ('a istate_scheme, qword) exec" where
  "sys_call_runC qprogram dumyProgram s =
     (case run_program (int_of qprogram) (unat dumyProgram) (with_con (resetBuffer (con s)) s) of
        None \<Rightarrow> Fault
      | Some s1 \<Rightarrow> bind_exec (removeProcess (getCurrentPid s1) s1) (\<lambda>s2 _. Done s2 (of_nat currentAddress)))"

text \<open>For another number the variable \<open>moduleAdress\<close> is not initialised: \<open>junk_ptr\<close>.\<close>

definition sys_call_getAddressOfModuleC :: "qword \<Rightarrow> 'a hsched_scheme \<Rightarrow> qword" where
  "sys_call_getAddressOfModuleC qprogram s =
     (let program = int_of qprogram in
      of_nat (if program = DUMMY then dummyAddress else if program = EDITOR then editorAddress
              else if program = FORTUNE then fortuneAddress else if program = SHELL then shellAddress
              else junk_ptr s))"

definition sys_call_createThread :: "qword \<Rightarrow> qword \<Rightarrow> 'a sched_scheme \<Rightarrow> ('a sched_scheme, qword) exec" where
  "sys_call_createThread qentryPoint qargs s =
     of_option (map_option (\<lambda>(_, s1). (s1, 0)) (createThread (unat qentryPoint) (unat qargs) (getCurrentProcess s) s))"

definition sys_call_mallock :: "qword \<Rightarrow> 'a hsched_scheme \<Rightarrow> ('a hsched_scheme, qword) exec" where
  "sys_call_mallock qnumberOfBytes s =
     of_option (map_option (\<lambda>(a, s1). (s1, of_nat a)) (mallock (ucast qnumberOfBytes) s))"

definition sys_call_createProcess :: "qword \<Rightarrow> qword \<Rightarrow> qword \<Rightarrow> 'a sched_scheme \<Rightarrow> ('a sched_scheme, qword) exec" where
  "sys_call_createProcess qentryPoint description param s =
     of_option (map_option (\<lambda>(pid, s1). (s1, word_of_int pid))
       (createProcess (unat qentryPoint) (unat description) (unat param) s))"

text \<open>Calls that return nothing answer 0, the others an \<open>int\<close> or a pointer.\<close>

definition ret0 :: "('s, unit) exec \<Rightarrow> ('s, qword) exec" where
  "ret0 m = bind_exec m (\<lambda>s _. Done s 0)"

definition ret_int :: "('s, int) exec \<Rightarrow> ('s, qword) exec" where
  "ret_int m = bind_exec m (\<lambda>s i. Done s (word_of_int i))"

definition ret_addr :: "('s, addr) exec \<Rightarrow> ('s, qword) exec" where
  "ret_addr m = bind_exec m (\<lambda>s a. Done s (of_nat a))"

definition of_step :: "'s option \<Rightarrow> ('s, unit) exec" where
  "of_step r = (case r of None \<Rightarrow> Fault | Some s \<Rightarrow> Done s ())"

section \<open>The list of processes\<close>

fun run_all :: "('s \<Rightarrow> 's option) list \<Rightarrow> 's \<Rightarrow> 's option" where
  "run_all [] s = Some s"
| "run_all (f # fs) s = Option.bind (f s) (run_all fs)"

definition print_lit :: "string \<Rightarrow> 'a kstate_scheme \<Rightarrow> 'a kstate_scheme option" where
  "print_lit str s = on_con (print (lit str)) s"

definition state_number :: "processState \<Rightarrow> int" where
  "state_number st = (case st of RUNNING \<Rightarrow> 0 | READY \<Rightarrow> 1 | BLOCKED \<Rightarrow> 2 | DEAD \<Rightarrow> 3 | SLEEPING \<Rightarrow> 4)"

text \<open>The stack that is printed for every thread is that of the first one.\<close>

definition print_stack :: "addr \<Rightarrow> 'a kstate_scheme \<Rightarrow> 'a kstate_scheme option" where
  "print_stack p s =
     Option.bind (thread_at (procs s p) 0) (\<lambda>t. on_con (ncPrintHex (of_nat (t_userStack (thrs s t)))) s)"

definition printProcesses_thread :: "addr \<Rightarrow> int \<Rightarrow> 'a kstate_scheme \<Rightarrow> 'a kstate_scheme option" where
  "printProcesses_thread p j =
     run_all [on_con (putchar 10), print_lit ''         thread: '', putNumber j, print_lit ''   UserStack:'', print_stack p]"

definition printProcesses_entry :: "addr \<Rightarrow> 'a kstate_scheme \<Rightarrow> 'a kstate_scheme option" where
  "printProcesses_entry p =
     run_all
       [print_lit ''pid: '', \<lambda>s. putNumber (p_pid (procs s p)) s,
        print_lit ''-->description: '', \<lambda>s. on_con (print (strs s (p_description (procs s p)))) s,
        print_lit ''-->state: '', \<lambda>s. print_lit (getStateFromNumber (state_number (p_state (procs s p)))) s,
        print_lit ''  UserStack:'', print_stack p,
        \<lambda>s. run_all (map (printProcesses_thread p) [0..p_numberOfThreads (procs s p) - 1]) s,
        on_con (putchar 10)]"

definition printProcesses :: "'a kstate_scheme \<Rightarrow> 'a kstate_scheme option" where
  "printProcesses s =
     Option.bind (getCurrentProcesses s)
       (\<lambda>(c, processes, ps, s1). run_all (map printProcesses_entry (take (nat c) ps)) s1)"

section \<open>The table\<close>

definition setUpSystemCalls :: "'a sstate_scheme \<Rightarrow> 'a sstate_scheme" where
  "setUpSystemCalls s = s\<lparr>sysCalls := (sysCalls s)
     [4 := Some Sys_writeC, 3 := Some Sys_readC, 5 := Some Sys_clearC, 6 := Some Sys_echoC, 7 := Some Sys_runC,
      10 := Some Sys_printProcesses, 8 := Some Sys_changeModuleEnvironmetC, 9 := Some Sys_undoBackwardsC,
      11 := Some Sys_kill, 12 := Some Sys_createThread, 13 := Some Sys_mallock, 14 := Some Sys_getAddressOfModuleC,
      15 := Some Sys_signal, 16 := Some Sys_semOpen, 17 := Some Sys_semCreate, 18 := Some Sys_semClose,
      19 := Some Sys_getMutex, 20 := Some Sys_lockMutex, 21 := Some Sys_freeMutex, 22 := Some Sys_closeMutex,
      23 := Some Sys_createProcess, 24 := Some Sys_sleep, 25 := Some Sys_wait, 26 := Some Sys_openPipe,
      27 := Some Sys_createPipe, 28 := Some Sys_closePipe, 29 := Some Sys_read, 30 := Some Sys_write]\<rparr>"

text \<open>What each function of the table does with the registers it is called with.\<close>

definition run_sys :: "sysfun \<Rightarrow> qword \<Rightarrow> qword \<Rightarrow> qword \<Rightarrow> 'a istate_scheme \<Rightarrow> ('a istate_scheme, qword) exec" where
  "run_sys f a b c s =
     (case f of
        Sys_writeC \<Rightarrow> sys_writeC a b c s
      | Sys_readC \<Rightarrow> sys_readC a b c s
      | Sys_clearC \<Rightarrow> Done (with_con (sys_call_clearC (con s)) s) 0
      | Sys_echoC \<Rightarrow> Done (with_con (sys_call_echoC a (con s)) s) 0
      | Sys_runC \<Rightarrow> sys_call_runC a b s
      | Sys_printProcesses \<Rightarrow> ret0 (of_step (printProcesses s))
      | Sys_changeModuleEnvironmetC \<Rightarrow> Done (with_con (sys_call_changeModuleEnvironmetC a b (con s)) s) 0
      | Sys_undoBackwardsC \<Rightarrow> Done (with_con (sys_call_undoBackwardsC a (con s)) s) 0
      | Sys_kill \<Rightarrow> ret0 (removeProcess (int_of a) s)
      | Sys_createThread \<Rightarrow> sys_call_createThread a b s
      | Sys_mallock \<Rightarrow> sys_call_mallock a s
      | Sys_getAddressOfModuleC \<Rightarrow> Done s (sys_call_getAddressOfModuleC a s)
      | Sys_signal \<Rightarrow> ret0 (of_step (signal (int_of a) s))
      | Sys_semOpen \<Rightarrow> Done s (word_of_int (semOpen (unat a) s))
      | Sys_semCreate \<Rightarrow> ret_int (semCreate (unat a) (int_of b) s)
      | Sys_semClose \<Rightarrow> ret0 (of_step (semClose (int_of a) s))
      | Sys_getMutex \<Rightarrow> ret_int (getMutex (unat a) s)
      | Sys_lockMutex \<Rightarrow> ret0 (lockMutex (int_of a) s)
      | Sys_freeMutex \<Rightarrow> ret0 (freeMutex (int_of a) s)
      | Sys_closeMutex \<Rightarrow> ret0 (of_step (closeMutex (int_of a) s))
      | Sys_createProcess \<Rightarrow> sys_call_createProcess a b c s
      | Sys_sleep \<Rightarrow> ret0 (sleep (int_of a) s)
      | Sys_wait \<Rightarrow> ret0 (wait (int_of a) s)
      | Sys_openPipe \<Rightarrow> ret_addr (openPipe (unat a) s)
      | Sys_createPipe \<Rightarrow> ret_addr (createPipe (unat a) s)
      | Sys_closePipe \<Rightarrow> ret0 (of_step (closePipe (unat a) s))
      | Sys_read \<Rightarrow> ret_int (read_pipe (unat a) (unat b) (int_of c) s)
      | Sys_write \<Rightarrow> ret_int (write_pipe (unat a) (unat b) s))"

text \<open>
  \<open>rdi\<close> is unsigned, so that only the upper bound of the test says something. A call through a
  null pointer jumps to the table of interrupts at address 0: \<open>Fault\<close>.
\<close>

definition syscallHandler ::
  "qword \<Rightarrow> qword \<Rightarrow> qword \<Rightarrow> qword \<Rightarrow> qword \<Rightarrow> qword \<Rightarrow> 'a sstate_scheme \<Rightarrow> ('a sstate_scheme, qword) exec" where
  "syscallHandler rdi rsi rdx rcx r8 r9 s =
     (if unat rdi \<ge> SYSTEM_CALL_COUNT then Done s 0
      else case sysCalls s ! unat rdi of
        None \<Rightarrow> Fault
      | Some f \<Rightarrow> run_sys f rsi rdx rcx s)"

definition pageFaultHandlerC :: "'a istate_scheme \<Rightarrow> ('a istate_scheme, unit) exec" where
  "pageFaultHandlerC s =
     (case on_con (ncPrint (lit ''RECOVERING FROMPAGE FAULT'')) s of
        None \<Rightarrow> Fault
      | Some s1 \<Rightarrow> bind_exec (sys_call_runC 4 0 s1) (\<lambda>s2 _. Done s2 ()))"

definition restartSHELL :: "'a istate_scheme \<Rightarrow> ('a istate_scheme, unit) exec" where
  "restartSHELL s =
     bind_exec (killAllExceptCurrent s) (\<lambda>s1 _.
     bind_exec (initializeSemaphores (initializeMutexes s1)) (\<lambda>s2 _.
     bind_exec (sys_call_runC 4 0 s2) (\<lambda>s3 _. Done s3 ())))"

section \<open>Properties\<close>

text \<open>The numbers that reach a function, as the table of the code has them.\<close>

definition sys_table :: "(nat \<times> sysfun) list" where
  "sys_table = zip [3..<31] [Sys_readC, Sys_writeC, Sys_clearC, Sys_echoC, Sys_runC, Sys_changeModuleEnvironmetC,
     Sys_undoBackwardsC, Sys_printProcesses, Sys_kill, Sys_createThread, Sys_mallock, Sys_getAddressOfModuleC, Sys_signal,
     Sys_semOpen, Sys_semCreate, Sys_semClose, Sys_getMutex, Sys_lockMutex, Sys_freeMutex, Sys_closeMutex,
     Sys_createProcess, Sys_sleep, Sys_wait, Sys_openPipe, Sys_createPipe, Sys_closePipe, Sys_read, Sys_write]"

lemma sysCalls_after_setUp:
  assumes "sysCalls s = replicate 35 None"
  shows "sysCalls (setUpSystemCalls s) = replicate 3 None @ map (Some \<circ> snd) sys_table @ replicate 4 None"
  using assms by (simp add: setUpSystemCalls_def sys_table_def numeral_nat upt_rec)

lemma map_of_upt: "map_of (zip [a..<a + length xs] xs) k = (if a \<le> k \<and> k < a + length xs then Some (xs ! (k - a)) else None)"
proof (induction xs arbitrary: a)
  case Nil
  then show ?case by simp
next
  case (Cons x xs)
  have "[a..<a + length (x # xs)] = a # [Suc a..<Suc a + length xs]" by (subst upt_conv_Cons) simp_all
  then show ?case using Cons.IH [of "Suc a"] by (auto simp: nth_Cons')
qed

lemma sys_table_lookup: "map_of sys_table k = (if 3 \<le> k \<and> k < 31 then Some (snd (sys_table ! (k - 3))) else None)"
proof -
  let ?fs = "map snd sys_table"
  have l: "length sys_table = 28" by (simp add: sys_table_def)
  have "sys_table = zip [3..<3 + length ?fs] ?fs" by (simp add: sys_table_def)
  then have "map_of sys_table k = (if 3 \<le> k \<and> k < 3 + length ?fs then Some (?fs ! (k - 3)) else None)"
    using map_of_upt [of 3 ?fs k] by metis
  then show ?thesis using l by auto
qed

text \<open>
  C25: once the kernel has set up its table, a system call with number 3 to 30 runs the function
  that \<open>sys_table\<close> lists for it, on the registers shifted by one; a number from 35 on answers 0; and the numbers 0 to 2 and 31 to 34, which the test lets
  through, jump through a null pointer.
\<close>

theorem syscall_dispatch:
  assumes "sysCalls s = replicate 35 None"
  shows "syscallHandler n rsi rdx rcx r8 r9 (setUpSystemCalls s) =
     (if 35 \<le> unat n then Done (setUpSystemCalls s) 0
      else case map_of sys_table (unat n) of
        None \<Rightarrow> Fault
      | Some f \<Rightarrow> run_sys f rsi rdx rcx (setUpSystemCalls s)) \<and>
    (map_of sys_table (unat n) = None \<longleftrightarrow> unat n < 3 \<or> 30 < unat n)"
proof -
  have l: "length sys_table = 28" by (simp add: sys_table_def)
  have "sysCalls (setUpSystemCalls s) ! k = map_of sys_table k" if "k < 35" for k
  proof -
    consider "k < 3" | "3 \<le> k" "k < 31" | "31 \<le> k" by linarith
    then show ?thesis
      unfolding sysCalls_after_setUp [OF assms] sys_table_lookup using that l by cases (auto simp: nth_append)
  qed
  then show ?thesis by (auto simp: syscallHandler_def SYSTEM_CALL_COUNT_def sys_table_lookup)
qed

definition ex_sstate :: sstate where
  "ex_sstate = istate.extend ex_istate \<lparr>sysCalls = replicate 35 None\<rparr>"

theorem syscall_dispatch_witness:
  "syscallHandler 31 0 0 0 0 0 (setUpSystemCalls ex_sstate) = Fault \<and>
   syscallHandler 40 0 0 0 0 0 (setUpSystemCalls ex_sstate) = Done (setUpSystemCalls ex_sstate) 0"
  using syscall_dispatch [of ex_sstate 31 0 0 0 0 0] syscall_dispatch [of ex_sstate 40 0 0 0 0 0]
  by (auto simp: ex_sstate_def istate.defs)

end
