(* ===== verification/Keyboard.thy ===== *)
theory Keyboard
  imports Syscalls
begin

text \<open>
  The keyboard: \<open>Kernel/keyboard.c\<close>. A scan code moves the shift and caps lock states or is
  looked up in a table of four columns, and the character goes to the terminal. The lemmas
  show which character a key types.
\<close>

section \<open>State\<close>

record bstate = sstate +
  kb_shift :: bool
  kb_caps :: bool

definition LEFT_SHIFT_MAKE :: byte where "LEFT_SHIFT_MAKE = 0x2A"
definition RIGHT_SHIFT_MAKE :: byte where "RIGHT_SHIFT_MAKE = 0x36"
definition CAPS_LOCK :: byte where "CAPS_LOCK = 0x3A"
definition LEFT_SHIFT_BREAK :: byte where "LEFT_SHIFT_BREAK = 0xAA"
definition RIGHT_SHIFT_BREAK :: byte where "RIGHT_SHIFT_BREAK = 0xB6"
definition NOCHAR :: byte where "NOCHAR = 255"

text \<open>A row is the scan code, the plain character, and those with shift, with caps lock and with both.\<close>

definition kbd_EN :: "byte list list" where
  "kbd_EN =
    [
     [0x00, 255, 255, 255, 255], [0x01, 255, 255, 255, 255], [0x02, 49, 33, 49, 33], [0x03, 50, 64, 50, 64], [0x04, 51, 35, 51, 35],
     [0x05, 52, 36, 52, 36], [0x06, 53, 37, 53, 37], [0x07, 54, 94, 54, 94], [0x08, 55, 38, 55, 38], [0x09, 56, 42, 56, 42],
     [0x0A, 57, 40, 57, 40], [0x0B, 48, 41, 48, 41], [0x0C, 45, 95, 45, 95], [0x0D, 61, 43, 61, 43], [0x0E, 8, 8, 8, 8],
     [0x0F, 9, 9, 9, 9], [0x10, 113, 81, 81, 113], [0x11, 119, 87, 87, 119], [0x12, 101, 69, 69, 101], [0x13, 114, 82, 82, 114],
     [0x14, 116, 84, 84, 116], [0x15, 121, 89, 89, 121], [0x16, 117, 85, 85, 117], [0x17, 105, 73, 73, 105], [0x18, 111, 79, 79, 111],
     [0x19, 112, 80, 80, 112], [0x1a, 91, 123, 91, 123], [0x1b, 93, 125, 93, 125], [0x1c, 10, 10, 10, 10], [0x1d, 255, 255, 255, 255],
     [0x1e, 97, 65, 65, 97], [0x1f, 115, 83, 83, 115], [0x20, 100, 68, 68, 100], [0x21, 102, 70, 70, 102], [0x22, 103, 71, 71, 103],
     [0x23, 104, 72, 72, 104], [0x24, 106, 74, 74, 106], [0x25, 107, 75, 75, 107], [0x26, 108, 76, 76, 108], [0x27, 59, 58, 59, 58],
     [0x28, 39, 34, 39, 34], [0x29, 96, 126, 96, 126], [0x2a, 0x2A, 0x2A, 0x2A, 0x2A], [0x2b, 92, 124, 255, 124], [0x2c, 122, 90, 90, 122],
     [0x2d, 120, 88, 88, 120], [0x2e, 99, 67, 67, 99], [0x2f, 118, 86, 86, 118], [0x30, 98, 66, 66, 98], [0x31, 110, 78, 78, 110],
     [0x32, 109, 77, 77, 109], [0x33, 44, 60, 44, 60], [0x34, 46, 62, 46, 62], [0x35, 47, 63, 47, 63], [0x36, 0x36, 0x36, 0x36, 0x36],
     [0x37, 42, 255, 255, 255], [0x38, 255, 255, 255, 255], [0x39, 32, 32, 32, 32], [0x3a, 0x3A, 0x3A, 0x3A, 0x3A], [0x3b, 255, 255, 255, 255],
     [0x3c, 255, 255, 255, 255], [0x3d, 255, 255, 255, 255], [0x3e, 255, 255, 255, 255], [0x3f, 255, 255, 255, 255], [0x40, 255, 255, 255, 255],
     [0x41, 255, 255, 255, 255], [0x42, 255, 255, 255, 255], [0x43, 255, 255, 255, 255], [0x44, 255, 255, 255, 255], [0x45, 255, 255, 255, 255],
     [0x46, 255, 255, 255, 255], [0x47, 55, 255, 255, 255], [0x48, 255, 255, 255, 255], [0x49, 57, 255, 255, 255], [0x4a, 45, 255, 255, 255],
     [0x4b, 255, 255, 255, 255], [0x4c, 53, 255, 255, 255], [0x4d, 255, 255, 255, 255], [0x4e, 43, 255, 255, 255], [0x4f, 49, 255, 255, 255],
     [0x50, 255, 255, 255, 255], [0x51, 51, 255, 255, 255], [0x52, 48, 255, 255, 255], [0x53, 46, 255, 255, 255], [0x57, 255, 255, 255, 255],
     [0x58, 255, 255, 255, 255]]"

text \<open>
  \<open>kbd_EN[(int)c][k]\<close>: \<open>c\<close> is signed and not tested, and there are 86 rows; \<open>outside\<close> is the memory
  around the table.
\<close>

definition kbd_at :: "(int \<Rightarrow> byte) \<Rightarrow> byte \<Rightarrow> nat \<Rightarrow> byte" where
  "kbd_at outside c k =
     (if 0 \<le> sint c \<and> sint c < 86 then kbd_EN ! nat (sint c) ! k else outside (5 * sint c + int k))"

section \<open>The handler\<close>

definition type_char :: "byte \<Rightarrow> 'a kstate_scheme \<Rightarrow> ('a kstate_scheme, unit) exec" where
  "type_char ch s = of_step (map_option (\<lambda>c. with_con c s) (putTerminalBuffer ch (con s)))"

definition keyboard_code :: "(int \<Rightarrow> byte) \<Rightarrow> byte \<Rightarrow> 'a bstate_scheme \<Rightarrow> ('a bstate_scheme, unit) exec" where
  "keyboard_code outside c s =
     (if c = CAPS_LOCK then Done (s\<lparr>kb_caps := \<not> kb_caps s\<rparr>) ()
      else if c = LEFT_SHIFT_MAKE \<or> c = RIGHT_SHIFT_MAKE then Done (s\<lparr>kb_shift := True\<rparr>) ()
      else if c = LEFT_SHIFT_BREAK \<or> c = RIGHT_SHIFT_BREAK then Done (s\<lparr>kb_shift := False\<rparr>) ()
      else
        let toSend = kbd_at outside c 1 in
        bind_exec (if kb_shift s \<and> c = 0x3b then restartSHELL s else Done s ()) (\<lambda>s1 _.
          if c AND 0x80 = 0 \<and> toSend \<noteq> NOCHAR then
            type_char (kbd_at outside c
              (if kb_caps s1 \<and> kb_shift s1 then 4 else if kb_caps s1 then 3 else if kb_shift s1 then 2 else 1)) s1
          else Done s1 ()))"

definition keyboardHandlerC ::
  "('d, 'b) device_scheme \<Rightarrow> (int \<Rightarrow> byte) \<Rightarrow> 'd \<Rightarrow> 'a bstate_scheme \<Rightarrow> ('a bstate_scheme, unit) exec \<times> 'd" where
  "keyboardHandlerC dev outside d s = (let (c, d1) = inputb dev 0x60 d in (keyboard_code outside c s, d1))"

section \<open>What a key types\<close>

text \<open>The scan codes of the letters, and the letters.\<close>

definition letter_keys :: "(byte \<times> byte) list" where
  "letter_keys = zip [0x10, 0x11, 0x12, 0x13, 0x14, 0x15, 0x16, 0x17, 0x18, 0x19, 0x1e, 0x1f, 0x20, 0x21, 0x22, 0x23,
       0x24, 0x25, 0x26, 0x2c, 0x2d, 0x2e, 0x2f, 0x30, 0x31, 0x32]
     (map of_char ''qwertyuiopasdfghjklzxcvbnm'')"

text \<open>The row of a letter: the capital in the middle columns, 32 below the small letter.\<close>

lemma kbd_letter_rows:
  "list_all (\<lambda>(c, l). 0 \<le> sint c \<and> sint c < 86 \<and>
     (let row = kbd_EN ! nat (sint c) in row ! 1 = l \<and> row ! 2 = l - 32 \<and> row ! 3 = l - 32 \<and> row ! 4 = l)) letter_keys"
  by code_simp

lemma kbd_letter:
  "(c, l) \<in> set letter_keys \<Longrightarrow>
     kbd_at outside c 1 = l \<and> kbd_at outside c 2 = l - 32 \<and> kbd_at outside c 3 = l - 32 \<and> kbd_at outside c 4 = l"
  using kbd_letter_rows by (auto simp: list_all_iff kbd_at_def Let_def)

lemma letter_code:
  "(c, l) \<in> set letter_keys \<Longrightarrow>
     c \<noteq> CAPS_LOCK \<and> c \<noteq> LEFT_SHIFT_MAKE \<and> c \<noteq> RIGHT_SHIFT_MAKE \<and> c \<noteq> LEFT_SHIFT_BREAK \<and> c \<noteq> RIGHT_SHIFT_BREAK \<and>
     c \<noteq> 0x3b \<and> c AND 0x80 = 0 \<and> l \<noteq> NOCHAR"
  by (auto simp: letter_keys_def CAPS_LOCK_def LEFT_SHIFT_MAKE_def RIGHT_SHIFT_MAKE_def LEFT_SHIFT_BREAK_def
      RIGHT_SHIFT_BREAK_def NOCHAR_def)

text \<open>
  C26: pressing the key of a letter while the terminal has room appends one character to the
  pending input: the capital letter when exactly one of shift and caps lock is on, otherwise
  the small one; the states of shift and caps lock stay.
\<close>

theorem letter_key_types_letter:
  assumes "(c, l) \<in> set letter_keys" "term_ok (con s)" "cursor_ok (con s)" "length (pending (con s)) < BUFFERSIZE - 1"
  shows "\<exists>t. keyboard_code outside c s = Done t () \<and> term_ok (con t) \<and>
    pending (con t) = pending (con s) @ [if kb_shift s \<noteq> kb_caps s then l - 32 else l] \<and>
    kb_shift t = kb_shift s \<and> kb_caps t = kb_caps s"
proof -
  let ?ch = "if kb_shift s \<noteq> kb_caps s then l - 32 else l"
  let ?col = "if kb_caps s \<and> kb_shift s then 4 else if kb_caps s then 3 else if kb_shift s then 2 else 1 :: nat"
  obtain t where t: "putTerminalBuffer ?ch (con s) = Some t" "term_ok t" "pending t = pending (con s) @ [?ch]"
    using putTerminalBuffer_effect [OF assms(2,3), of ?ch] assms(4) by blast
  have col: "kbd_at outside c ?col = ?ch" using kbd_letter [OF assms(1), of outside] by auto
  have "keyboard_code outside c s = type_char (kbd_at outside c ?col) s"
    using letter_code [OF assms(1)] kbd_letter [OF assms(1), of outside] by (simp add: keyboard_code_def Let_def)
  also have "\<dots> = Done (with_con t s) ()" unfolding col type_char_def t(1) by (simp add: of_step_def)
  finally show ?thesis using t by (simp add: with_con_def)
qed

definition ex_bstate :: bstate where
  "ex_bstate = sstate.extend ex_sstate \<lparr>kb_shift = True, kb_caps = False\<rparr>"

lemma ex_bstate_simps [simp]: "con ex_bstate = ex_cstate" "kb_shift ex_bstate" "\<not> kb_caps ex_bstate"
  by (simp_all add: ex_bstate_def ex_sstate_def ex_istate_def sstate.defs istate.defs kstate.defs)

lemma term_ok_ex_cstate: "term_ok ex_cstate" "pending ex_cstate = [65, 66]"
  using ok_ex_tstate(1) pending_ex
  by (simp_all add: ex_cstate_def tstate.defs term_ok_def pending_def term_count_def)

theorem letter_key_types_letter_witness:
  "\<exists>t. keyboard_code (\<lambda>_. 0) 0x1e ex_bstate = Done t () \<and> pending (con t) = [65, 66, 65]"
  using letter_key_types_letter [of "0x1e" 97 ex_bstate "\<lambda>_. 0"] term_ok_ex_cstate cursor_ok_ex_cstate
  by (auto simp: letter_keys_def BUFFERSIZE_def)

end
