(* ===== verification/Mouse.thy ===== *)
theory Mouse
  imports Keyboard
begin

text \<open>
  The mouse: \<open>Kernel/mouse.c\<close>. The controller is programmed through two ports; a packet of
  three bytes moves the pointer, extends the selection while the left button is down, and
  pastes when the right one is released. The lemmas show that the pointer and the ends of the
  selection stay on the screen.
\<close>

section \<open>The controller\<close>

text \<open>The loop of \<open>mouse_wait\<close>: \<open>while (--timeout)\<close>.\<close>

fun mouse_wait_loop :: "('d, 'b) device_scheme \<Rightarrow> byte \<Rightarrow> nat \<Rightarrow> 'd \<Rightarrow> 'd" where
  "mouse_wait_loop dev type 0 d = d"
| "mouse_wait_loop dev type (Suc timeout) d =
     (if timeout = 0 then d
      else
        let (status, d1) = inputb dev 0x64 d in
        if (if type = 0 then status AND 0x01 = 1 else status AND 0x02 = 0) then d1
        else mouse_wait_loop dev type timeout d1)"

definition mouse_wait :: "('d, 'b) device_scheme \<Rightarrow> byte \<Rightarrow> 'd \<Rightarrow> 'd" where
  "mouse_wait dev type d = mouse_wait_loop dev type 100000 d"

definition mouse_write :: "('d, 'b) device_scheme \<Rightarrow> byte \<Rightarrow> 'd \<Rightarrow> 'd" where
  "mouse_write dev v d = outputb dev 0x60 v (mouse_wait dev 1 (outputb dev 0x64 0xD4 (mouse_wait dev 1 d)))"

definition mouse_read :: "('d, 'b) device_scheme \<Rightarrow> 'd \<Rightarrow> byte \<times> 'd" where
  "mouse_read dev d = inputb dev 0x60 (mouse_wait dev 0 d)"

definition detect_ps2_mouse :: "('d, 'b) device_scheme \<Rightarrow> 'd \<Rightarrow> bool \<times> 'd" where
  "detect_ps2_mouse dev d = (let (tmp, d1) = mouse_read dev d in (tmp = 0xFA, d1))"

definition mouse_init :: "('d, 'b) device_scheme \<Rightarrow> 'd \<Rightarrow> 'd" where
  "mouse_init dev d =
     (let d1 = outputb dev 0x64 0xA8 (mouse_wait dev 1 d);
          d2 = outputb dev 0x64 0x20 (mouse_wait dev 1 d1);
          (b, d3) = inputb dev 0x60 (mouse_wait dev 0 d2);
          status_byte = b OR 2;
          d4 = outputb dev 0x64 0x60 (mouse_wait dev 1 d3);
          d5 = outputb dev 0x60 status_byte (mouse_wait dev 1 d4);
          d6 = snd (mouse_read dev (mouse_write dev 0xF6 d5))
      in snd (mouse_read dev (mouse_write dev 0xF4 d6)))"

section \<open>State\<close>

record mstate = bstate +
  mouse_cycle :: nat
  mouse_byte :: "byte list"
  m_flag :: bool
  m_x :: int
  m_y :: int
  m_xinit :: int
  m_yinit :: int
  m_xfin :: int
  m_yfin :: int
  m_selecting :: bool

section \<open>A packet\<close>

text \<open>The selection between the place where it began and where it ends, in reading order.\<close>

definition in_order ::
  "(int \<Rightarrow> int \<Rightarrow> int \<Rightarrow> int \<Rightarrow> cstate \<Rightarrow> cstate) \<Rightarrow> 'a mstate_scheme \<Rightarrow> 'a mstate_scheme" where
  "in_order draw s =
     (if m_yfin s < m_yinit s \<or> (m_yfin s = m_yinit s \<and> m_xfin s < m_xinit s)
      then s\<lparr>con := draw (m_yfin s) (m_xfin s) (m_yinit s) (m_xinit s) (con s)\<rparr>
      else s\<lparr>con := draw (m_yinit s) (m_xinit s) (m_yfin s) (m_xfin s) (con s)\<rparr>)"

definition left_button :: "'a mstate_scheme \<Rightarrow> 'a mstate_scheme" where
  "left_button s =
     (if mouse_byte s ! 0 AND 0x01 \<noteq> 0 then
        in_order selection
          (if m_selecting s then (in_order undoSelection s)\<lparr>m_xfin := m_x s, m_yfin := m_y s\<rparr>
           else s\<lparr>m_selecting := True, m_xinit := m_x s, m_yinit := m_y s, m_xfin := m_x s, m_yfin := m_y s\<rparr>)
      else if m_selecting s then
        (let s1 = (in_order undoSelection s)\<lparr>m_selecting := False\<rparr> in s1\<lparr>con := updateScreen (con s1)\<rparr>)
      else s)"

definition right_button :: "'a mstate_scheme \<Rightarrow> 'a mstate_scheme option" where
  "right_button s =
     (if mouse_byte s ! 0 AND 0x02 \<noteq> 0 then Some (s\<lparr>m_flag := True\<rparr>)
      else if m_flag s then map_option (\<lambda>c. s\<lparr>con := c, m_flag := False\<rparr>) (paste (con s))
      else Some s)"

text \<open>A movement: with its sign bit the byte is extended by ones, without it by its own sign.\<close>

definition relative :: "bool \<Rightarrow> byte \<Rightarrow> int" where
  "relative neg b = (if neg then sint ((scast b :: 32 word) OR 0xFFFFFF00) else sint b)"

definition move_pointer :: "'a mstate_scheme \<Rightarrow> 'a mstate_scheme" where
  "move_pointer s =
     (let d = mouse_byte s ! 0;
          rel_x = relative (d AND 0x10 = 0x10) (mouse_byte s ! 1);
          rel_y = relative (d AND 0x20 = 0x20) (mouse_byte s ! 2);
          s1 = s\<lparr>con := udrawMouse (m_y s) (m_x s) (con s)\<rparr>;
          s2 = (if m_x s1 + rel_x sdiv 10 < 80 \<and> m_x s1 + rel_x sdiv 10 \<ge> 0 then s1\<lparr>m_x := m_x s1 + rel_x sdiv 10\<rparr> else s1);
          s3 = (if m_y s2 - rel_y sdiv 10 < 25 \<and> m_y s2 - rel_y sdiv 10 \<ge> 0 then s2\<lparr>m_y := m_y s2 - rel_y sdiv 10\<rparr> else s2);
          s4 = s3\<lparr>con := drawMouse (m_y s3) (m_x s3) (con s3)\<rparr>
      in s4\<lparr>con := updateScreen (con s4)\<rparr>)"

definition mouse_packet :: "'a mstate_scheme \<Rightarrow> 'a mstate_scheme option" where
  "mouse_packet s =
     (if mouse_byte s ! 0 AND 0x80 \<noteq> 0 \<or> mouse_byte s ! 0 AND 0x40 \<noteq> 0 then Some (s\<lparr>mouse_cycle := 4\<rparr>)
      else map_option (\<lambda>s1. (move_pointer s1)\<lparr>mouse_cycle := 4\<rparr>) (right_button (left_button s)))"

section \<open>The handler\<close>

text \<open>One byte from the mouse; the flag of the result is the early return of \<open>case 0\<close>.\<close>

definition mouse_in :: "byte \<Rightarrow> 'a mstate_scheme \<Rightarrow> (bool \<times> 'a mstate_scheme) option" where
  "mouse_in b s =
     (if mouse_cycle s = 0 then
        let s1 = s\<lparr>mouse_byte := (mouse_byte s)[0 := b]\<rparr>
        in if b AND 0x08 = 0 then Some (True, s1) else Some (False, s1\<lparr>mouse_cycle := 1\<rparr>)
      else if mouse_cycle s = 1 then Some (False, s\<lparr>mouse_byte := (mouse_byte s)[1 := b], mouse_cycle := 2\<rparr>)
      else if mouse_cycle s = 2 then
        map_option (Pair False) (mouse_packet (s\<lparr>mouse_byte := (mouse_byte s)[2 := b]\<rparr>))
      else Some (False, s))"

text \<open>The loop over the bytes that the controller has; \<open>None\<close> when the controller never runs dry.\<close>

partial_function (option) mouse_loop ::
  "('d, 'b) device_scheme \<Rightarrow> byte \<Rightarrow> 'd \<Rightarrow> 'a mstate_scheme \<Rightarrow> ('a mstate_scheme \<times> 'd) option" where
  "mouse_loop dev status d s =
     (if status AND 0x01 = 0 then Some (s, d)
      else
        let (b, d1) = inputb dev 0x60 d in
        Option.bind (if status AND 0x20 \<noteq> 0 then mouse_in b s else Some (False, s))
          (\<lambda>(returned, s1).
             if returned then Some (s1, d1)
             else
               let (status1, d2) = inputb dev 0x64 d1
               in if mouse_cycle s1 \<ge> 4 then Some (s1\<lparr>mouse_cycle := 0\<rparr>, d2) else mouse_loop dev status1 d2 s1))"

definition mouse_handlerC :: "('d, 'b) device_scheme \<Rightarrow> 'd \<Rightarrow> 'a mstate_scheme \<Rightarrow> ('a mstate_scheme \<times> 'd) option" where
  "mouse_handlerC dev d s = (let (status, d1) = inputb dev 0x64 d in mouse_loop dev status d1 s)"

section \<open>The pointer stays on the screen\<close>

lemma same_cursor_mouse:
  "same_cursor s (drawMouse f c s)" "same_cursor s (udrawMouse f c s)" "same_cursor s (copyMouse i e s)"
  "same_cursor s (selection a b f c s)" "same_cursor s (undoSelection a b f c s)"
proof -
  show d: "same_cursor s (drawMouse f c s)" for f c and s :: "'a vstate_scheme" by (simp add: drawMouse_def same_cursor_def)
  show u: "same_cursor s (udrawMouse f c s)" for f c and s :: "'a vstate_scheme" by (simp add: udrawMouse_def same_cursor_def)
  show cm: "same_cursor s (copyMouse i e s)" for i e and s :: "'a vstate_scheme"
  proof -
    have "same_cursor s (s\<lparr>select_size := e - i + 1\<rparr>)" by (simp add: same_cursor_def)
    moreover have "same_cursor (s\<lparr>select_size := e - i + 1\<rparr>) (copyMouse i e s)"
      unfolding copyMouse_def Let_def by (intro fold_same_cursor) (simp add: same_cursor_def)
    ultimately show ?thesis by (rule same_cursor_trans)
  qed
  have m: "same_cursor s (mark_loop draw k i s)" if "\<And>f c s. same_cursor s (draw f c s)"
    for draw :: "int \<Rightarrow> int \<Rightarrow> 'a vstate_scheme \<Rightarrow> 'a vstate_scheme" and k i s
  proof (induction k arbitrary: i s)
    case (Suc k)
    then show ?case using that same_cursor_trans by (auto intro: same_cursor_trans [OF that])
  qed simp
  show "same_cursor s (selection a b f c s)"
    unfolding selection_def Let_def by (rule same_cursor_trans [OF cm m [OF d]])
  show "same_cursor s (undoSelection a b f c s)" unfolding undoSelection_def Let_def by (rule m [OF u])
qed

text \<open>What the drawing of the mouse keeps of the console.\<close>

definition con_ok :: "cstate \<Rightarrow> bool" where
  "con_ok c \<longleftrightarrow> term_ok c \<and> margin_ok c"

lemma con_ok_same_cursor: "same_cursor c c' \<Longrightarrow> con_ok c \<Longrightarrow> con_ok c'"
  by (cases c; cases c') (simp add: same_cursor_def con_ok_def term_ok_def margin_ok_def cursor_ok_def)

lemma con_ok_draw [simp]:
  "con_ok c \<Longrightarrow> con_ok (drawMouse f k c)" "con_ok c \<Longrightarrow> con_ok (udrawMouse f k c)"
  "con_ok c \<Longrightarrow> con_ok (selection a b f k c)" "con_ok c \<Longrightarrow> con_ok (undoSelection a b f k c)"
  "con_ok c \<Longrightarrow> con_ok (updateScreen c)"
  by (rule con_ok_same_cursor [rotated], assumption, simp add: same_cursor_mouse)+

definition on_screen :: "int \<Rightarrow> int \<Rightarrow> bool" where
  "on_screen f c \<longleftrightarrow> 0 \<le> f \<and> f < 25 \<and> 0 \<le> c \<and> c < 80"

definition mouse_ok :: "'a mstate_scheme \<Rightarrow> bool" where
  "mouse_ok s \<longleftrightarrow> on_screen (m_y s) (m_x s) \<and> on_screen (m_yinit s) (m_xinit s) \<and> on_screen (m_yfin s) (m_xfin s) \<and>
     length (mouse_byte s) = 3 \<and> con_ok (con s)"

lemma in_order_frame [simp]:
  "m_x (in_order g s) = m_x s" "m_y (in_order g s) = m_y s" "m_xinit (in_order g s) = m_xinit s"
  "m_yinit (in_order g s) = m_yinit s" "m_xfin (in_order g s) = m_xfin s" "m_yfin (in_order g s) = m_yfin s"
  "mouse_byte (in_order g s) = mouse_byte s" "mouse_cycle (in_order g s) = mouse_cycle s"
  "(\<And>a b c d k. con_ok k \<Longrightarrow> con_ok (g a b c d k)) \<Longrightarrow> con_ok (con s) \<Longrightarrow> con_ok (con (in_order g s))"
  by (simp_all add: in_order_def)

lemma mouse_ok_left: "mouse_ok s \<Longrightarrow> mouse_ok (left_button s)"
  by (simp add: mouse_ok_def left_button_def Let_def)

lemma mouse_ok_right:
  assumes "mouse_ok s"
  shows "\<exists>t. right_button s = Some t \<and> mouse_ok t"
proof -
  have "term_ok (con s)" "margin_ok (con s)" using assms by (simp_all add: mouse_ok_def con_ok_def)
  then obtain c where "paste (con s) = Some c" "con_ok c"
    using paste_loop_total [of "con s"] unfolding paste_def con_ok_def by blast
  then show ?thesis using assms by (auto simp: right_button_def mouse_ok_def)
qed

lemma mouse_ok_move: "mouse_ok s \<Longrightarrow> mouse_ok (move_pointer s)"
  by (auto simp: mouse_ok_def move_pointer_def Let_def on_screen_def)

lemma mouse_ok_packet:
  assumes "mouse_ok s"
  shows "\<exists>t. mouse_packet s = Some t \<and> mouse_ok t \<and> mouse_cycle t = 4"
proof -
  obtain t where t: "right_button (left_button s) = Some t" "mouse_ok t"
    using mouse_ok_right [OF mouse_ok_left [OF assms]] by blast
  have "mouse_ok (u\<lparr>mouse_cycle := 4\<rparr>)" if "mouse_ok u" for u :: "'a mstate_scheme" using that by (simp add: mouse_ok_def)
  then show ?thesis using t assms mouse_ok_move [OF t(2)] by (auto simp: mouse_packet_def)
qed

text \<open>
  C27: the driver takes every byte that the mouse may send: from a state with the pointer and
  both ends of the selection on the screen and a sound terminal it returns, the pointer and
  the selection are on the screen again, and so is the cursor, also when the byte ends a
  packet that moves the pointer by any amount or pastes the selection.
\<close>

theorem mouse_byte_keeps_pointer_on_screen:
  assumes "mouse_ok s"
  shows "\<exists>early t. mouse_in b s = Some (early, t) \<and> mouse_ok t \<and> (early \<longrightarrow> mouse_cycle t = 0) \<and>
    (mouse_cycle s = 2 \<longrightarrow> mouse_cycle t = 4)"
proof -
  have upd: "mouse_ok (s\<lparr>mouse_byte := (mouse_byte s)[i := b]\<rparr>)" "mouse_ok (s\<lparr>mouse_byte := (mouse_byte s)[i := b], mouse_cycle := n\<rparr>)" for i n
    using assms by (simp_all add: mouse_ok_def)
  obtain t where "mouse_packet (s\<lparr>mouse_byte := (mouse_byte s)[2 := b]\<rparr>) = Some t" "mouse_ok t" "mouse_cycle t = 4"
    using mouse_ok_packet [OF upd(1) [of 2]] by blast
  then show ?thesis using assms upd by (auto simp: mouse_in_def Let_def)
qed

definition ex_mstate :: mstate where
  "ex_mstate = bstate.extend ex_bstate
     \<lparr>mouse_cycle = 2, mouse_byte = [0x28, 100, 0], m_flag = False, m_x = 79, m_y = 10, m_xinit = 0, m_yinit = 0,
      m_xfin = 0, m_yfin = 0, m_selecting = False\<rparr>"

theorem mouse_byte_keeps_pointer_on_screen_witness:
  "\<exists>t. mouse_in 90 ex_mstate = Some (False, t) \<and> on_screen (m_y t) (m_x t) \<and> mouse_cycle t = 4"
proof -
  have "con ex_mstate = ex_cstate" "mouse_cycle ex_mstate = 2"
    by (simp_all add: ex_mstate_def bstate.defs ex_bstate_def ex_sstate_def ex_istate_def sstate.defs istate.defs kstate.defs)
  moreover have "margin_ok ex_cstate" using cursor_ok_ex_cstate
    by (simp add: margin_ok_def) (simp add: ex_cstate_def ex_tstate_def ex_vstate_def tstate.defs vstate.defs)
  ultimately have "mouse_ok ex_mstate" "mouse_cycle ex_mstate = 2" using term_ok_ex_cstate(1)
    by (simp_all add: mouse_ok_def con_ok_def) (simp add: ex_mstate_def bstate.defs on_screen_def)
  from mouse_byte_keeps_pointer_on_screen [OF this(1), of 90] this(2) show ?thesis by (auto simp: mouse_ok_def)
qed

end
