(* ===== verification/Kernel.thy ===== *)
theory Kernel
  imports Mouse
begin

text \<open>
  The start of the kernel: \<open>Kernel/kernel.c\<close>. The loader calls \<open>initializeKernelBinary\<close>, which
  unpacks the modules and clears the uninitialised globals, then \<open>main\<close>, which sets up every
  component and creates the first two processes. The lemmas show the system that comes out.
\<close>

section \<open>The binary\<close>

text \<open>The addresses of the sections, which the linker knows.\<close>

record layout =
  text_at :: addr
  rodata_at :: addr
  data_at :: addr
  bss_at :: addr
  endOfKernelBinary :: addr
  endOfKernel :: addr

definition PageSize :: nat where "PageSize = 0x1000"
definition sampleDataModuleAddress :: addr where "sampleDataModuleAddress = 0x500000"

text \<open>
  Clearing the section of the uninitialised globals sets all of them to 0: those of the
  allocator, the scheduler, the tables, the heaps, the terminal and the drivers. The globals
  with an initial value other than 0 lie in another section and keep it.
\<close>

definition con_bss :: "cstate \<Rightarrow> cstate" where
  "con_bss c = c\<lparr>video := (\<lambda>_ _. 0), attributes := (\<lambda>_ _. 0), cur_i := 0, mouseSelect := (\<lambda>_. 0), select_size := 0,
     iStartModule := 0, bufferConsume := NULL, bufferPosition := NULL, bufferStart := NULL, bufferSize := 0,
     isEcho := False\<rparr>"

definition sched_bss :: "'a hsched_scheme \<Rightarrow> 'a hsched_scheme" where
  "sched_bss s = s\<lparr>buddyArray := buddy_bss, current := NULL, cardinal_processes := 0, next_pid := 0,
     mutexes := replicate MAX_MUTEXES mutex_bss, adminMutex := 0,
     semaphores := replicate MAX_SEMAPHORES \<lparr>sem_used = False, sem_name = NULL, sem_queue = replicate 20 0,
       sem_semaphore = 0, sem_cardinalBlocked = 0, sem_mutex = 0, sem_pidCreator = 0\<rparr>,
     semaphoreMutex := 0, pipeNames := replicate MAX_PIPES NULL, pipes_table := replicate MAX_PIPES NULL,
     lastPipeName := 0, ipcAdminMutex := 0, heapBase := NULL, kernelBase := NULL\<rparr>"

definition clearBSS :: "addr \<Rightarrow> 64 word \<Rightarrow> 'a mstate_scheme \<Rightarrow> 'a mstate_scheme" where
  "clearBSS bssAddress bssSize s =
     (sched_bss s)\<lparr>cmem := memset bssAddress 0 bssSize (cmem s), con := con_bss (con s),
       sleepListeners := 0, sleepPIDS := replicate MAX_LISTENERS 0, sleepCounter := replicate MAX_LISTENERS 0,
       alarmSleep := replicate MAX_LISTENERS 0, sysCalls := replicate SYSTEM_CALL_COUNT None,
       kb_shift := False, kb_caps := False, mouse_cycle := 0, mouse_byte := replicate 3 0, m_flag := False,
       m_xinit := 0, m_yinit := 0, m_xfin := 0, m_yfin := 0, m_selecting := False\<rparr>"

definition getStackBase :: "layout \<Rightarrow> addr" where
  "getStackBase l = endOfKernel l + PageSize * 8 - 8"

definition nc_str :: "string \<Rightarrow> 'a kstate_scheme \<Rightarrow> 'a kstate_scheme option" where
  "nc_str str = on_con (ncPrint (lit str))"

definition nc_hex :: "string \<Rightarrow> addr \<Rightarrow> ('a kstate_scheme \<Rightarrow> 'a kstate_scheme option) list" where
  "nc_hex label a = [nc_str label, on_con (ncPrintHex (of_nat a)), on_con ncNewline]"

text \<open>
  \<open>vendor\<close> is what the processor answers about itself. The \<open>ncPrintHex\<close> after the modules
  prints the byte at the end of the binary, not its address.
\<close>

definition initializeKernelBinary :: "layout \<Rightarrow> cstring \<Rightarrow> 'a mstate_scheme \<Rightarrow> (addr \<times> 'a mstate_scheme) option" where
  "initializeKernelBinary l vendor s =
     map_option (Pair (getStackBase l)) (run_all
       ([\<lambda>s. Some (initializeKernelHeap s), nc_str ''[x64BareBones]'', on_con ncNewline,
         nc_str ''CPU Vendor:'', on_con (ncPrint vendor), on_con ncNewline,
         nc_str ''[Loading modules]'', on_con ncNewline,
         \<lambda>s. map_option (\<lambda>(m, c). s\<lparr>cmem := m, con := c\<rparr>)
           (loadModules (endOfKernelBinary l) [sampleCodeModuleAddress, sampleDataModuleAddress, dummyAddress, shellAddress,
             editorAddress, fortuneAddress] (cmem s) (con s)),
         nc_str ''[Done]'', on_con ncNewline, on_con ncNewline,
         nc_str ''[Initializing kernel's binary]'', on_con ncNewline,
         \<lambda>s. on_con (ncPrintHex (ucast (cmem s (endOfKernelBinary l)))) s,
         \<lambda>s. Some (clearBSS (bss_at l) (of_nat (endOfKernel l - bss_at l)) s)] @
        nc_hex ''  text: 0x'' (text_at l) @ nc_hex ''  rodata: 0x'' (rodata_at l) @
        nc_hex ''  data: 0x'' (data_at l) @ nc_hex ''  bss: 0x'' (bss_at l) @
        [nc_str ''[Done]'', on_con ncNewline, on_con ncNewline]) s)"

section \<open>main\<close>

text \<open>The first part of \<open>main\<close>, up to the table of mutexes; \<open>address\<close> is where the handlers are.\<close>

definition set_up :: "(handler \<Rightarrow> 64 word) \<Rightarrow> ('a sstate_scheme \<Rightarrow> 'a sstate_scheme option) list" where
  "set_up address =
     [\<lambda>s. Some (with_con (clear (con s)) s), \<lambda>s. Some (initializeKernelHeap s), \<lambda>s. Some (setUpSystemCalls s),
      \<lambda>s. Some (with_con (terminalInitializeC (con s)) s), \<lambda>s. Some (loadIDT address s),
      nc_str ''SetUp Kernel: OK'', \<lambda>s. Some (s\<lparr>page_dir := mapModulesLogical shellAddress (page_dir s)\<rparr>),
      nc_str ''Starting SHELL: OK'', \<lambda>s. Some (with_con (resetBuffer (con s)) s),
      nc_str ''Reset Buffer: OK'', \<lambda>s. Some (s\<lparr>buddyArray := createHeap (buddyArray s)\<rparr>),
      nc_str ''Maping Memory: OK'', \<lambda>s. Some (initializeMutexes s), nc_str ''Initializing Mutex: OK'']"

definition greeting :: "('a kstate_scheme \<Rightarrow> 'a kstate_scheme option) list" where
  "greeting =
     [nc_str ''Initializing Semaphores: OK'', nc_str ''FinishStartup: OK'', \<lambda>s. Some (with_con (clear (con s)) s),
      \<lambda>s. Some (with_con (printMsg 0 0 (lit ''Sistemas Operativos'') 0x0F (con s)) s),
      \<lambda>s. Some (with_con (printMsg 1 0 (lit ''La hora en UTC es:'') 0x0F (con s)) s)]"

text \<open>
  The result is the address at which \<open>finishStartup\<close> enters the first process. The device is
  touched by \<open>mouse_init\<close> and \<open>enablePIC\<close> alone. \<open>init_at\<close> is the address of \<open>init\<close>.
\<close>

definition main ::
  "('d, 'b) device_scheme \<Rightarrow> (handler \<Rightarrow> 64 word) \<Rightarrow> addr \<Rightarrow> 'd \<Rightarrow> 'a sstate_scheme \<Rightarrow> ('a sstate_scheme, addr) exec \<times> 'd" where
  "main dev address init_at d s =
     (bind_exec (of_step (run_all (set_up address) s)) (\<lambda>s1 _.
      bind_exec (initializeSemaphores s1) (\<lambda>s2 _.
      bind_exec (of_step (run_all greeting s2)) (\<lambda>s3 _.
        of_option (Option.bind (createProcess init_at (literal s3 ''init'') NULL s3) (\<lambda>(_, s4).
          Option.bind (createProcess currentAddress (literal s4 ''SHELL'') NULL s4) (\<lambda>(_, s5).
            map_option (Pair s5) (getCurrentEntryPoint s5))))))),
      enablePIC dev (mouse_init dev d))"

section \<open>What starting up leaves\<close>

text \<open>An empty terminal that writes what is typed to the screen; its buffer is the array of the code.\<close>

definition terminal_ready :: "cstate \<Rightarrow> bool" where
  "terminal_ready c \<longleftrightarrow> term_ok c \<and> pending c = [] \<and> isEcho c \<and> bufferStart c = Buffer_addr c"

lemma terminal_ready_more: "vstate.more c' = vstate.more c \<Longrightarrow> terminal_ready c \<Longrightarrow> terminal_ready c'"
proof -
  assume m: "vstate.more c' = vstate.more c" and t: "terminal_ready c"
  have "Buffer_addr c' = Buffer_addr c" using m by (cases c; cases c') simp
  moreover have b: "same_buffer c c'" using m by (simp add: same_buffer_def)
  moreover have "pending c' = pending c" by (simp add: pending_def term_count_def same_bufferD [OF b])
  ultimately show "terminal_ready c'" using t by (simp add: terminal_ready_def term_ok_def same_bufferD)
qed

lemma terminal_ready_init: "terminal_ready (terminalInitializeC c)" "terminal_ready c \<Longrightarrow> terminal_ready (resetBuffer c)"
  by (simp_all add: terminal_ready_def terminalInitializeC_def resetBuffer_def Let_def term_ok_def pending_def term_count_def
      BUFFERSIZE_def ring_bytes_def)

lemma nc_str_step:
  assumes "cursor_ok (con s)"
  shows "\<exists>c. nc_str str s = Some (s\<lparr>con := c\<rparr>) \<and> cursor_ok c \<and> (terminal_ready (con s) \<longrightarrow> terminal_ready c)"
proof -
  obtain c where c: "print (lit str) (con s) = Some c" "cursor_ok c" "same_buffer (con s) c"
    using print_total [OF assms, of "lit str"] by blast
  then show ?thesis using terminal_ready_more [of c "con s"]
    by (intro exI [of _ c]) (simp add: nc_str_def on_con_def ncPrint_eq_print same_buffer_def)
qed

lemma loadIDT_effect: "\<exists>e. loadIDT address s = s\<lparr>IDT := e\<rparr>"
proof -
  have "\<exists>e. fold (\<lambda>(h, entry). setIDTEntry (address h) entry) xs s = s\<lparr>IDT := e\<rparr>" for xs
  proof (induction xs arbitrary: s)
    case Nil
    then show ?case by (intro exI [of _ "IDT s"]) simp
  next
    case (Cons x xs)
    obtain h n where x: "x = (h, n)" by (cases x)
    obtain e where "setIDTEntry (address h) n s = s\<lparr>IDT := e\<rparr>" by (simp add: setIDTEntry_def)
    then show ?case using Cons.IH [of "s\<lparr>IDT := e\<rparr>"] by (auto simp: x)
  qed
  then show ?thesis by (simp add: loadIDT_def)
qed

lemma same_cursor_clear: "same_cursor s (clear s)"
proof -
  have row: "same_cursor u (fold (\<lambda>c s. s\<lparr>video := upd2 f c 32 (video s), attributes := upd2 f c DEFAULT (attributes s)\<rparr>) xs u)"
    for f xs and u :: "'a vstate_scheme"
    by (intro fold_same_cursor) (simp add: same_cursor_def)
  show ?thesis
    unfolding clear_def by (rule same_cursor_trans [OF fold_same_cursor same_cursor_writes(1)]) (rule row)
qed

lemma cursor_ok_clear: "cursor_ok s \<Longrightarrow> cursor_ok (clear s)"
  using same_cursor_clear [of s] by (simp add: same_cursor_def cursor_ok_def)

lemma printMsg_loop_more: "vstate.more (printMsg_loop i msg s) = vstate.more s"
proof (induction i msg s rule: printMsg_loop.induct)
  case (2 i a msg s)
  then show ?case using same_cursor_writes(5) [of s "i sdiv WIDTH" "i smod WIDTH" a "0x20"] by (simp add: same_cursor_def)
qed simp

lemma terminal_ready_greeting:
  "terminal_ready c \<Longrightarrow> terminal_ready (clear c)" "terminal_ready c \<Longrightarrow> terminal_ready (printMsg f k msg col c)"
  using same_cursor_clear [of c]
  by (auto elim!: terminal_ready_more [rotated] simp: same_cursor_def printMsg_def printMsg_loop_more)

text \<open>The gate of a handler, as the processor reads it; the code keeps 48 bits of the address.\<close>

definition gate_to :: "64 word \<Rightarrow> IDT_Entry" where
  "gate_to a = \<lparr>offset_l = ucast a, selector = 8, zero_l = 0, attrs = 0x8E, offset_m = ucast (drop_bit 16 a),
     offset_h = ucast (take_bit 16 (drop_bit 32 a)), zero_h = 0\<rparr>"

lemma setIDTEntry_gate: "setIDTEntry a n s = s\<lparr>IDT := (IDT s)(n := gate_to a)\<rparr>"
proof -
  have m: "(0xFFFF :: 16 word) = - 1" "(0xFFFFFFFF :: 32 word) = - 1" by simp_all
  have "(ucast (ucast (drop_bit 32 a) :: 16 word) :: 32 word) = ucast (take_bit 16 (drop_bit 32 a))"
    by (rule bit_word_eqI) (auto simp: bit_simps)
  then show ?thesis by (simp add: setIDTEntry_def gate_to_def m)
qed

definition vectors :: "(handler \<times> nat) list" where
  "vectors = [(General_protection, 13), (Page_fault, 14), (Timer_tick, 32), (Keyboard, 33), (Mouse, 44), (Sys_call, 128)]"

lemma loadIDT_gates: "\<forall>(h, n) \<in> set vectors. IDT (loadIDT address s) n = gate_to (address h)"
  by (simp add: loadIDT_def IDT_entries_def vectors_def setIDTEntry_gate)

lemma set_up_effect:
  assumes "cursor_ok (con s)" "length (mutexes s) = MAX_MUTEXES"
  shows "\<exists>t. run_all (set_up address) s = Some t \<and> cursor_ok (con t) \<and> sysCalls t = sysCalls (setUpSystemCalls s) \<and>
    page_dir t (PDbase + 32) = 0xC0008F \<and> literal t = literal s \<and> strs t = strs s \<and> sem_literal t = sem_literal s \<and>
    current t = current s \<and> cardinal_processes t = cardinal_processes s \<and> next_pid t = next_pid s \<and>
    buddyArray t = createHeap (buddyArray s) \<and> kernelBase t = KERNEL_HEAP_START \<and> adminMutex t = 0 \<and>
    mutexes t = (map clean (mutexes s))[0 := (clean (mutexes s ! 0))\<lparr>m_used := True\<rparr>] \<and>
    terminal_ready (con t) \<and> (\<forall>(h, n) \<in> set vectors. IDT t n = gate_to (address h)) \<and> semaphores t = semaphores s \<and>
    heap_list t KERNEL_HEAP_START [KERNEL_HEAP_START] \<and>
    b_size (blocks t KERNEL_HEAP_START) = 0x11000 \<and> b_free (blocks t KERNEL_HEAP_START) = 1"
proof -
  let ?a = "setUpSystemCalls (initializeKernelHeap (with_con (clear (con s)) s))"
  let ?b = "with_con (terminalInitializeC (con ?a)) ?a"
  obtain e where e: "loadIDT address ?b = ?b\<lparr>IDT := e\<rparr>" using loadIDT_effect by blast
  have gates: "\<forall>(h, n) \<in> set vectors. e n = gate_to (address h)" using loadIDT_gates [of address ?b] unfolding e by simp
  have t0: "terminal_ready (con ?b)" by (simp add: with_con_def terminal_ready_init)
  let ?c = "?b\<lparr>IDT := e\<rparr>"
  have "cursor_ok (con ?c)" using cursor_ok_clear [OF assms(1)]
    by (simp add: with_con_def setUpSystemCalls_def initializeKernelHeap_def upd_block_def Let_def terminalInitializeC_def cursor_ok_def)
  from nc_str_step [OF this, of "''SetUp Kernel: OK''"] obtain c1 where
    c1: "nc_str ''SetUp Kernel: OK'' ?c = Some (?c\<lparr>con := c1\<rparr>)" "cursor_ok c1" "terminal_ready c1" using t0 by auto
  let ?d = "?c\<lparr>con := c1\<rparr>\<lparr>page_dir := mapModulesLogical shellAddress (page_dir (?c\<lparr>con := c1\<rparr>))\<rparr>"
  have "cursor_ok (con ?d)" using c1(2) by simp
  from nc_str_step [OF this, of "''Starting SHELL: OK''"] obtain c2 where
    c2: "nc_str ''Starting SHELL: OK'' ?d = Some (?d\<lparr>con := c2\<rparr>)" "cursor_ok c2" "terminal_ready c2" using c1(3) by auto
  let ?e = "with_con (resetBuffer (con (?d\<lparr>con := c2\<rparr>))) (?d\<lparr>con := c2\<rparr>)"
  have "cursor_ok (con ?e)" using c2(2) by (simp add: with_con_def resetBuffer_def cursor_ok_def)
  from nc_str_step [OF this, of "''Reset Buffer: OK''"] obtain c3 where
    c3: "nc_str ''Reset Buffer: OK'' ?e = Some (?e\<lparr>con := c3\<rparr>)" "cursor_ok c3" "terminal_ready c3" using terminal_ready_init(2) [OF c2(3)] by (auto simp: with_con_def)
  let ?f = "?e\<lparr>con := c3\<rparr>\<lparr>buddyArray := createHeap (buddyArray (?e\<lparr>con := c3\<rparr>))\<rparr>"
  have "cursor_ok (con ?f)" using c3(2) by simp
  from nc_str_step [OF this, of "''Maping Memory: OK''"] obtain c4 where
    c4: "nc_str ''Maping Memory: OK'' ?f = Some (?f\<lparr>con := c4\<rparr>)" "cursor_ok c4" "terminal_ready c4" using c3(3) by auto
  have m: "mutexes (?f\<lparr>con := c4\<rparr>) = mutexes s"
    by (simp add: with_con_def setUpSystemCalls_def initializeKernelHeap_def upd_block_def Let_def)
  let ?g = "?f\<lparr>con := c4\<rparr>\<lparr>mutexes := (map clean (mutexes s))[0 := (clean (mutexes s ! 0))\<lparr>m_used := True\<rparr>], adminMutex := 0\<rparr>"
  have g: "initializeMutexes (?f\<lparr>con := c4\<rparr>) = ?g"
    using initializeMutexes_effect [of "?f\<lparr>con := c4\<rparr>", unfolded m, OF assms(2)] .
  have "cursor_ok (con ?g)" using c4(2) by simp
  from nc_str_step [OF this, of "''Initializing Mutex: OK''"] obtain c5 where
    c5: "nc_str ''Initializing Mutex: OK'' ?g = Some (?g\<lparr>con := c5\<rparr>)" "cursor_ok c5" "terminal_ready c5" using c4(3) by auto
  have run: "run_all (set_up address) s = Some (?g\<lparr>con := c5\<rparr>)"
    by (simp only: set_up_def run_all.simps bind.bind_lunit e c1(1) c2(1) c3(1) c4(1) g c5(1))
  show ?thesis unfolding run
    by (intro exI [of _ "?g\<lparr>con := c5\<rparr>"] conjI)
      (use c5(2,3) gates in \<open>simp_all add: with_con_def setUpSystemCalls_def initializeKernelHeap_def upd_block_def Let_def
        mapModulesLogical_def shellAddress_def KERNEL_HEAP_START_def KERNEL_HEAP_SIZE_def PAGE_SIZE_def\<close>)
qed

text \<open>A semaphore nobody uses or waits for.\<close>

definition idle :: "Semaphore \<Rightarrow> bool" where
  "idle m \<longleftrightarrow> \<not> sem_used m \<and> sem_semaphore m = 0 \<and> sem_cardinalBlocked m = 0 \<and> waiting (sem_queue m) = {#}"

lemma initializeSemaphores_loop_effect:
  "i + left \<le> length (semaphores s) \<Longrightarrow>
   \<exists>ss. initializeSemaphores_loop left i s = s\<lparr>semaphores := ss\<rparr> \<and> length ss = length (semaphores s) \<and>
     (\<forall>j. i \<le> j \<and> j < i + left \<longrightarrow> idle (ss ! j)) \<and> (\<forall>j < i. ss ! j = semaphores s ! j)"
proof (induction left arbitrary: i s)
  case 0
  then show ?case by (intro exI [of _ "semaphores s"]) auto
next
  case (Suc left)
  let ?c = "(semaphores s)[i := (semaphores s ! i)\<lparr>sem_used := False, sem_semaphore := 0, sem_cardinalBlocked := 0,
     sem_queue := clearArray MAX_BLOCKED_QUEUE_SIZE NO_BLOCKED_QUEUE_VALUE\<rparr>]"
  have c: "cleanSemaphore i s = s\<lparr>semaphores := ?c\<rparr>" by (simp add: cleanSemaphore_def upd_sem_def)
  obtain ss where ss: "initializeSemaphores_loop left (Suc i) (s\<lparr>semaphores := ?c\<rparr>) = s\<lparr>semaphores := ss\<rparr>"
    "length ss = length (semaphores s)" "\<forall>j. Suc i \<le> j \<and> j < Suc i + left \<longrightarrow> idle (ss ! j)" "\<forall>j < Suc i. ss ! j = ?c ! j"
    using Suc.IH [of "Suc i" "s\<lparr>semaphores := ?c\<rparr>"] Suc.prems by auto
  have "idle (ss ! i)" using ss(4) Suc.prems by (simp add: idle_def)
  then have "\<forall>j. i \<le> j \<and> j < i + Suc left \<longrightarrow> idle (ss ! j)" using ss(3) by (metis Suc_leI add_Suc_right add_Suc le_neq_implies_less)
  then show ?case using ss(1,2,4) by (intro exI [of _ ss]) (simp add: c)
qed

lemma first_index_fresh: "first_index P (x # y # zs) = Some 1" if "\<not> P x" "P y"
  using that by (simp add: first_index_def)

text \<open>The first name after the one of the table itself gets the second place.\<close>

lemma initializeSemaphores_effect:
  assumes "length ms = MAX_MUTEXES" "mutexes s = (map clean ms)[0 := (clean (ms ! 0))\<lparr>m_used := True\<rparr>]"
    and "adminMutex s = 0" "strs s NULL \<noteq> strs s (sem_literal s)" "length (semaphores s) = MAX_SEMAPHORES"
  shows "\<exists>ms' ss. initializeSemaphores s = Done (s\<lparr>mutexes := ms', semaphores := ss, semaphoreMutex := 1\<rparr>) () \<and>
    (\<forall>j < MAX_SEMAPHORES. idle (ss ! j)) \<and>
    names_ok (s\<lparr>mutexes := ms', semaphores := ss, semaphoreMutex := 1\<rparr>) \<and>
    m_used (ms' ! 1) \<and> m_mutex (ms' ! 1) = 0 \<and> m_name (ms' ! 1) = sem_literal s"
proof -
  obtain ss where ss: "initializeSemaphores_loop MAX_SEMAPHORES 0 s = s\<lparr>semaphores := ss\<rparr>" "\<forall>j < MAX_SEMAPHORES. idle (ss ! j)"
    using initializeSemaphores_loop_effect [of 0 MAX_SEMAPHORES s] assms(5) by auto
  let ?s = "s\<lparr>semaphores := ss\<rparr>"
  obtain m0 m1 rest where ms: "ms = m0 # m1 # rest" using assms(1)
    by (cases ms; cases "tl ms") (auto simp: MAX_MUTEXES_def)
  have mu: "mutexes ?s = (clean m0)\<lparr>m_used := True\<rparr> # clean m1 # map clean rest" using assms(2) ms by simp
  have ok: "names_ok ?s"
    using assms(1,3) ms by (simp add: names_ok_def table_ok_def mu mutex_ok_def clean_def)
  have "first_index (named ?s (sem_literal s)) (mutexes ?s) = None"
    using assms(4) by (auto simp: first_index_None mu named_def clean_def)
  then have gi: "getIndex (sem_literal s) ?s = MUTEX_NOT_FOUND" by (simp add: getIndex_named MUTEX_NOT_FOUND_def)
  have "first_index (\<lambda>m. \<not> m_used m) (mutexes ?s) = Some 1"
    unfolding mu by (rule first_index_fresh) (simp_all add: clean_def)
  then have fc: "find_or_create (sem_literal s) ?s =
      (1, upd_mutex 1 (\<lambda>m. m\<lparr>m_used := True, m_name := sem_literal s, m_pidCreator := getCurrentPid ?s\<rparr>) ?s)"
    by (simp add: find_or_create_def gi createMutex_effect)
  note e = getMutex_effect [OF ok, of "sem_literal s", unfolded fc, simplified]
  let ?ms = "(mutexes s)[1 := (mutexes s ! 1)\<lparr>m_used := True, m_name := sem_literal s, m_pidCreator := getCurrentPid ?s\<rparr>]"
  have run: "initializeSemaphores s = Done (s\<lparr>mutexes := ?ms, semaphores := ss, semaphoreMutex := 1\<rparr>) ()"
    unfolding initializeSemaphores_def ss(1) using e(1) by (simp add: upd_mutex_def)
  have "names_ok (s\<lparr>mutexes := ?ms, semaphores := ss, semaphoreMutex := 1\<rparr>)"
    using e(2) by (simp add: names_ok_def table_ok_def upd_mutex_def)
  moreover have "1 < length (mutexes s)" "m_mutex (mutexes s ! 1) = 0" using mu by (simp_all add: clean_def)
  ultimately show ?thesis using run ss(2) by (intro exI [of _ ?ms] exI [of _ ss]) simp
qed

lemma greeting_effect:
  assumes "cursor_ok (con s)" "terminal_ready (con s)"
  shows "\<exists>c. run_all greeting s = Some (s\<lparr>con := c\<rparr>) \<and> terminal_ready c"
proof -
  obtain c1 where c1: "nc_str ''Initializing Semaphores: OK'' s = Some (s\<lparr>con := c1\<rparr>)" "cursor_ok c1" "terminal_ready c1"
    using nc_str_step [OF assms(1)] assms(2) by blast
  have "cursor_ok (con (s\<lparr>con := c1\<rparr>))" using c1(2) by simp
  from nc_str_step [OF this, of "''FinishStartup: OK''"] obtain c2 where
    c2: "nc_str ''FinishStartup: OK'' (s\<lparr>con := c1\<rparr>) = Some (s\<lparr>con := c2\<rparr>)" "terminal_ready c2" using c1(3) by auto
  show ?thesis unfolding greeting_def
    by (simp add: c1(1) c2(1) with_con_def) (intro exI conjI, rule refl, intro terminal_ready_greeting c2(2))
qed

text \<open>Creating a process touches nothing behind the fields of the scheduler.\<close>

lemma alloc_st_more: "alloc_st n s = Some (a, t) \<Longrightarrow> sched.more t = sched.more s"
  by (auto simp: alloc_st_def)

lemma initiatePipes_loop_more: "sched.more (initiatePipesForProcess_loop n a s) = sched.more s"
  by (induction n arbitrary: a s) simp_all

lemma createThread_more: "createThread entryPoint args p s = Some (i, t) \<Longrightarrow> sched.more t = sched.more s"
  by (auto simp: createThread_def fillStackFrame_def upd_proc_def Let_def dest!: alloc_st_more
      split: option.splits prod.splits if_splits)

lemma getProcess_more: "getProcess entryPoint description args s = Some (p, t) \<Longrightarrow> sched.more t = sched.more s"
  by (auto simp: getProcess_def initializePipeFields_def initiatePipesForProcess_def initiatePipes_loop_more upd_proc_def
      Let_def dest!: alloc_st_more createThread_more split: option.splits prod.splits)

lemma createProcess_more: "createProcess entryPoint description args s = Some (i, t) \<Longrightarrow> sched.more t = sched.more s"
  by (auto simp: createProcess_def addProcess_def newProcessSlot_def Let_def dest!: getProcess_more
      split: option.splits prod.splits)

lemma sched_more_sstate:
  fixes s t :: "'a sstate_scheme"
  assumes "sched.more t = sched.more s"
  shows "semaphoreMutex t = semaphoreMutex s" "sysCalls t = sysCalls s" "page_dir t = page_dir s"
    "semaphores t = semaphores s" "con t = con s" "IDT t = IDT s" "kernelBase t = kernelBase s" "blocks t = blocks s"
  using assms by (cases s; cases t; simp)+

text \<open>The first two processes: where they are and where they start.\<close>

lemma first_processes:
  fixes s3 :: "'a istate_scheme"
  assumes s3: "current s3 = NULL" "cardinal_processes s3 = 0" "next_pid s3 = 0" "buddyArray s3 = createHeap buddy_bss"
  obtains s4 s5 where "createProcess init_at (literal s3 ''init'') NULL s3 = Some (0, s4)"
    "createProcess currentAddress (literal s4 ''SHELL'') NULL s4 = Some (1, s5)"
    "kernel_inv s5 [0x1006000, 0x100e000]" "next_pid s5 = 2" "sched.more s5 = sched.more s3" "getCurrentEntryPoint s5 = Some init_at"
    "slot_pid s5 0x1006000 = 0" "slot_state s5 0x1006000 = READY" "slot_pid s5 0x100e000 = 1" "slot_state s5 0x100e000 = READY"
    "f_rsi (frames s5 (t_userStack (thrs s5 (active_thread s5 0x1006000)))) = init_at"
    "f_rsi (frames s5 (t_userStack (thrs s5 (active_thread s5 0x100e000)))) = currentAddress"
proof -
  obtain b5 b10 where al: "alloc_seq allocPage (createHeap buddy_bss) [1, 1, 2, 2, 1] =
      Some ([0x1000000, 0x1001000, 0x1002000, 0x1004000, 0x1006000], b5)"
    "alloc_seq allocPage b5 [1, 1, 2, 2, 1] = Some ([0x1007000, 0x1008000, 0x100a000, 0x100c000, 0x100e000], b10)"
    by (rule boot_run [OF all_empty_bss])
  have inv: "buddy_inv (buddyArray s3) {}" unfolding s3(4) by (rule buddy_inv_createHeap [OF heap_shape_bss])
  from createProcess_first [OF inv s3(1,2) al(1) [folded s3(4)], of init_at "literal s3 ''init''" NULL] obtain s4 where
    s4: "createProcess init_at (literal s3 ''init'') NULL s3 = Some (next_pid s3, s4)" "kernel_inv s4 [0x1006000]"
      "next_pid s4 = next_pid s3 + 1" "buddyArray s4 = b5"
      "slot_proc s4 0x1006000 = fresh_process 0x1000000 0x1001000 (literal s3 ''init'') (next_pid s3) (procs s3 0x1000000)"
      "thrs s4 = (thrs s3)(0x1001000 := \<lparr>t_userStack = ptr_sub (0x1002000 + 2 * PAGE_SIZE) (2 * sizeof_StackFrame),
        t_kernelStack = 0x1004000 + 2 * PAGE_SIZE, t_entryPoint = init_at\<rparr>)"
      "frames s4 = frames (snd (fillStackFrame init_at (0x1002000 + 2 * PAGE_SIZE) NULL s3))"
    by auto
  from createProcess_kernel_inv [OF s4(2) al(2) [folded s4(4)], of currentAddress "literal s4 ''SHELL''" NULL] obtain s5 where
    s5: "createProcess currentAddress (literal s4 ''SHELL'') NULL s4 = Some (next_pid s4, s5)"
      "kernel_inv s5 [0x1006000, 0x100e000]" "next_pid s5 = next_pid s4 + 1" "slot_process (slots s5 0x100e000) = 0x1007000"
      "procs s5 = (procs s4)(0x1007000 := fresh_process 0x1007000 0x1008000 (literal s4 ''SHELL'') (next_pid s4) (procs s4 0x1007000))"
      "slot_proc s5 0x1006000 = slot_proc s4 0x1006000"
      "thrs s5 = (thrs s4)(0x1008000 := \<lparr>t_userStack = ptr_sub (0x100a000 + 2 * PAGE_SIZE) (2 * sizeof_StackFrame),
        t_kernelStack = 0x100c000 + 2 * PAGE_SIZE, t_entryPoint = currentAddress\<rparr>)"
      "frames s5 = frames (snd (fillStackFrame currentAddress (0x100a000 + 2 * PAGE_SIZE) NULL s4))"
    by auto
  have more: "sched.more s5 = sched.more s3" using createProcess_more [OF s4(1)] createProcess_more [OF s5(1)] by simp
  have p1: "slot_proc s5 0x1006000 = fresh_process 0x1000000 0x1001000 (literal s3 ''init'') 0 (procs s3 0x1000000)"
    using s5(6) s4(5) s3(3) by simp
  have p2: "slot_proc s5 0x100e000 = fresh_process 0x1007000 0x1008000 (literal s4 ''SHELL'') 1 (procs s4 0x1007000)"
    using s4(3) s3(3) by (simp add: slot_proc_def s5(4,5))
  have th: "thrs s5 0x1001000 = \<lparr>t_userStack = 0x1003E90, t_kernelStack = 0x1006000, t_entryPoint = init_at\<rparr>"
    "thrs s5 0x1008000 = \<lparr>t_userStack = 0x100BE90, t_kernelStack = 0x100E000, t_entryPoint = currentAddress\<rparr>"
    by (simp_all add: s5(7) s4(6) PAGE_SIZE_def ptr_sub_def sizeof_StackFrame_def)
  have fr: "f_rsi (frames s5 0x1003E90) = init_at" "f_rsi (frames s5 0x100BE90) = currentAddress"
    by (simp_all add: s5(8) s4(7) fillStackFrame_def PAGE_SIZE_def ptr_sub_def sizeof_StackFrame_def)
  have cur: "current s5 = 0x1006000" using s5(2) by (simp add: kernel_inv_def ring_def)
  have ep: "getCurrentEntryPoint s5 = Some init_at"
    by (simp add: getCurrentEntryPoint_def cur p1 fresh_process_def thread_at_def th)
  show ?thesis
    by (rule that [of s4 s5]) (use s4(1,3) s5(1-3) s3(3) more ep fr in \<open>simp_all add: p1 p2 fresh_process_def active_thread_def th\<close>)
qed

text \<open>
  C28: \<open>main\<close>, entered with cleared globals, hands over to the first process and leaves, of each
  component it sets up: the ring with exactly init, number 0, which is current, and the shell, number
  1, both ready with one thread whose first frame starts \<open>callProcess\<close> with their entry point; the
  table of system calls; gates to the handlers of the six interrupts in use; an empty terminal
  that echoes; a kernel heap of one free block of 17 pages; the mutexes with the table of names,
  of which the second one, free, is the lock of the semaphores; semaphores nobody uses; the page
  directory with the program area mapped to the shell; and, after the mouse, the controller of the interrupts
  with its two masks.
\<close>

theorem main_boots:
  assumes "cursor_ok (con_bss (con s))" "strs s NULL \<noteq> strs s (sem_literal s)"
  shows "\<exists>t. main dev address init_at d (clearBSS bss n s) =
      (Done t init_at, dev_out dev 0xA1 0xEF (dev_out dev 0x21 0xF8 (mouse_init dev d))) \<and>
    kernel_inv t [0x1006000, 0x100e000] \<and> next_pid t = 2 \<and>
    slot_pid t 0x1006000 = 0 \<and> slot_state t 0x1006000 = READY \<and>
    slot_pid t 0x100e000 = 1 \<and> slot_state t 0x100e000 = READY \<and>
    f_rsi (frames t (t_userStack (thrs t (active_thread t 0x1006000)))) = init_at \<and>
    f_rsi (frames t (t_userStack (thrs t (active_thread t 0x100e000)))) = currentAddress \<and>
    names_ok t \<and> semaphoreMutex t = 1 \<and> m_mutex (mutexes t ! 1) = 0 \<and>
    sysCalls t = sysCalls (setUpSystemCalls (clearBSS bss n s)) \<and> page_dir t (PDbase + 32) = 0xC0008F \<and>
    (\<forall>(h, v) \<in> set [(General_protection, 13), (Page_fault, 14), (Timer_tick, 32), (Keyboard, 33), (Mouse, 44), (Sys_call, 128)].
       IDT t v = gate_to (address h)) \<and>
    terminal_ready (con t) \<and> (\<forall>j < MAX_SEMAPHORES. idle (semaphores t ! j)) \<and>
    kernelBase t = KERNEL_HEAP_START \<and> heap_list t (kernelBase t) [KERNEL_HEAP_START] \<and>
    b_size (blocks t KERNEL_HEAP_START) = 0x11000 \<and> b_free (blocks t KERNEL_HEAP_START) = 1"
proof -
  define r where "r = clearBSS bss n s"
  have r: "cursor_ok (con r)" "mutexes r = replicate MAX_MUTEXES mutex_bss" "buddyArray r = buddy_bss" "current r = NULL"
    "cardinal_processes r = 0" "next_pid r = 0" "strs r = strs s" "sem_literal r = sem_literal s"
    "length (semaphores r) = MAX_SEMAPHORES"
    using assms(1) by (simp_all add: r_def clearBSS_def sched_bss_def)
  have len: "length (mutexes r) = MAX_MUTEXES" by (simp add: r(2))
  obtain s1 where s1: "run_all (set_up address) r = Some s1" "cursor_ok (con s1)" "sysCalls s1 = sysCalls (setUpSystemCalls r)"
    "page_dir s1 (PDbase + 32) = 0xC0008F" "strs s1 = strs r" "sem_literal s1 = sem_literal r"
    "current s1 = current r" "cardinal_processes s1 = cardinal_processes r" "next_pid s1 = next_pid r"
    "buddyArray s1 = createHeap (buddyArray r)" "adminMutex s1 = 0"
    "mutexes s1 = (map clean (mutexes r))[0 := (clean (mutexes r ! 0))\<lparr>m_used := True\<rparr>]"
    "terminal_ready (con s1)" "\<forall>(h, v) \<in> set vectors. IDT s1 v = gate_to (address h)" "semaphores s1 = semaphores r"
    "heap_list s1 KERNEL_HEAP_START [KERNEL_HEAP_START]" "kernelBase s1 = KERNEL_HEAP_START"
    "b_size (blocks s1 KERNEL_HEAP_START) = 0x11000" "b_free (blocks s1 KERNEL_HEAP_START) = 1"
    using set_up_effect [OF r(1) len, of address] by (elim exE conjE) (rule that, assumption+)
  note m1 = s1(12) [unfolded r(2)]
  have "strs s1 NULL \<noteq> strs s1 (sem_literal s1)" using assms(2) by (simp add: s1(5,6) r(7,8))
  from initializeSemaphores_effect [OF _ m1 s1(11) this] s1(15) r(9) obtain ms ss where
    s2: "initializeSemaphores s1 = Done (s1\<lparr>mutexes := ms, semaphores := ss, semaphoreMutex := 1\<rparr>) ()"
      "names_ok (s1\<lparr>mutexes := ms, semaphores := ss, semaphoreMutex := 1\<rparr>)" "m_mutex (ms ! 1) = 0" "\<forall>j < MAX_SEMAPHORES. idle (ss ! j)" by auto
  let ?s2 = "s1\<lparr>mutexes := ms, semaphores := ss, semaphoreMutex := 1\<rparr>"
  have "cursor_ok (con ?s2)" "terminal_ready (con ?s2)" using s1(2,13) by simp_all
  from greeting_effect [OF this] obtain c where g: "run_all greeting ?s2 = Some (?s2\<lparr>con := c\<rparr>)" "terminal_ready c" by blast
  define s3 where "s3 = ?s2\<lparr>con := c\<rparr>"
  have s3: "current s3 = NULL" "cardinal_processes s3 = 0" "next_pid s3 = 0" "buddyArray s3 = createHeap buddy_bss"
    using s1(7-10) r(3-6) by (simp_all add: s3_def)
  obtain s4 s5 where s5: "createProcess init_at (literal s3 ''init'') NULL s3 = Some (0, s4)"
    "createProcess currentAddress (literal s4 ''SHELL'') NULL s4 = Some (1, s5)"
    "kernel_inv s5 [0x1006000, 0x100e000]" "next_pid s5 = 2" "sched.more s5 = sched.more s3" "getCurrentEntryPoint s5 = Some init_at"
    "slot_pid s5 0x1006000 = 0" "slot_state s5 0x1006000 = READY" "slot_pid s5 0x100e000 = 1" "slot_state s5 0x100e000 = READY"
    "f_rsi (frames s5 (t_userStack (thrs s5 (active_thread s5 0x1006000)))) = init_at"
    "f_rsi (frames s5 (t_userStack (thrs s5 (active_thread s5 0x100e000)))) = currentAddress"
    by (rule first_processes [OF s3]) (rule that, assumption+)
  have "main dev address init_at d r = (Done s5 init_at, dev_out dev 0xA1 0xEF (dev_out dev 0x21 0xF8 (mouse_init dev d)))"
    unfolding main_def enablePIC_def outputb_def of_step_def s1(1) option.case bind_exec.simps s2(1) g(1) s3_def [symmetric]
    by (simp only: s5(1,2,6) bind.bind_lunit prod.case option.map of_option_simps)
  moreover have "names_ok s5" "semaphoreMutex s5 = 1" "mutexes s5 = ms" "sysCalls s5 = sysCalls s1" "page_dir s5 = page_dir s1"
    "semaphores s5 = ss" "con s5 = c" "IDT s5 = IDT s1" "kernelBase s5 = kernelBase s1" "blocks s5 = blocks s1"
    using s5(5) s2(2) more_eqD [OF s5(5)] sched_more_sstate [OF s5(5)]
    by (simp_all add: s3_def names_ok_def table_ok_def)
  ultimately show ?thesis unfolding r_def [symmetric]
    using s5(3,4,7-12) s2(3,4) s1(3,4) s1(14,16-19) [unfolded vectors_def] g(2) by (intro exI [of _ s5]) simp
qed

theorem main_boots_witness:
  "\<exists>t. fst (main ex_clock (\<lambda>_. 0) 0x101000 0 (clearBSS 0x103000 0 ex_mstate)) = Done t 0x101000 \<and>
     kernel_inv t [0x1006000, 0x100e000] \<and> slot_state t 0x100e000 = READY"
proof -
  have "cursor_ok (con_bss (con ex_mstate))"
    by (simp add: ex_mstate_def bstate.defs con_bss_def cursor_ok_def)
      (simp add: ex_cstate_def tstate.defs ex_tstate_def vstate.defs ex_vstate_def)
  moreover have "strs ex_mstate NULL \<noteq> strs ex_mstate (sem_literal ex_mstate)"
    by (simp add: ex_mstate_def ex_bstate_def ex_sstate_def ex_istate_def ex_kstate_def ex_hsched_def ex_isched_def
        ex_ssched_def ex_msched_def bstate.defs sstate.defs istate.defs kstate.defs hsched.defs isched.defs ssched.defs
        msched.defs ex_strs_def sched.defs)
  ultimately show ?thesis using main_boots [of ex_mstate ex_clock "\<lambda>_. 0" "0x101000" 0 "0x103000" 0] by auto
qed

end
