(* ===== verification/Crowd.thy ===== *)
theory Crowd
  imports Semaphores
begin

text \<open>
  What concurrent programs need of the kernel: the interface of an object that blocks its
  callers, provided by its semaphores and its mutexes, and the bookkeeping of a crowd of
  processes, of which some wait for the object.
\<close>

section \<open>Who is where\<close>

text \<open>Every process with its place in the program and a flag that is set while the kernel has it blocked.\<close>

type_synonym 'l crowd = "int \<Rightarrow> ('l \<times> bool) option"

definition those :: "('l \<times> bool \<Rightarrow> bool) \<Rightarrow> 'l crowd \<Rightarrow> int multiset" where
  "those Q T = mset_set {p. case T p of None \<Rightarrow> False | Some x \<Rightarrow> Q x}"

lemma those_upd:
  assumes "finite (dom T)" "T p = Some x"
  shows "those Q (T(p := Some y)) + (if Q x then {#p#} else {#}) = those Q T + (if Q y then {#p#} else {#})"
proof -
  let ?A = "\<lambda>T. {q. case T q of None \<Rightarrow> False | Some x \<Rightarrow> Q x}"
  define B where "B = ?A T - {p}"
  have "finite (?A T)" by (rule finite_subset [OF _ assms(1)]) (auto split: option.splits)
  then have fin: "finite B" "p \<notin> B" by (simp_all add: B_def)
  have m: "mset_set (if b then insert p B else B) = mset_set B + (if b then {#p#} else {#})" for b using fin by simp
  have new: "?A (T(p := Some y)) = (if Q y then insert p B else B)" by (auto simp: B_def split: if_splits)
  have old: "?A T = (if Q x then insert p B else B)" using assms(2) by (auto simp: B_def)
  have "those Q (T(p := Some y)) = mset_set B + (if Q y then {#p#} else {#})" by (simp only: those_def new m)
  moreover have "those Q T = mset_set B + (if Q x then {#p#} else {#})" by (simp only: those_def old m)
  ultimately show ?thesis by (simp only: ac_simps)
qed

lemma those_new:
  assumes "finite (dom T)" "T p = None"
  shows "those Q (T(p := Some y)) = those Q T + (if Q y then {#p#} else {#})"
proof -
  let ?A = "\<lambda>T. {q. case T q of None \<Rightarrow> False | Some x \<Rightarrow> Q x}"
  have fin: "finite (?A T)" by (rule finite_subset [OF _ assms(1)]) (auto split: option.splits)
  have "?A (T(p := Some y)) = (if Q y then insert p (?A T) else ?A T)" "p \<notin> ?A T" using assms(2) by (auto split: if_splits)
  then show ?thesis using fin by (simp add: those_def)
qed

definition headcount :: "('l \<times> bool \<Rightarrow> bool) \<Rightarrow> 'l crowd \<Rightarrow> nat" where
  "headcount Q T = size (those Q T)"

lemma headcount_upd:
  assumes "finite (dom T)" "T p = Some x"
  shows "headcount Q (T(p := Some y)) + of_bool (Q x) = headcount Q T + of_bool (Q y)"
proof -
  from those_upd [OF assms, of Q y] have "size (those Q (T(p := Some y)) + (if Q x then {#p#} else {#})) =
      size (those Q T + (if Q y then {#p#} else {#}))" by (rule arg_cong)
  then show ?thesis by (auto simp: headcount_def split: if_splits)
qed

lemma headcount_new:
  "finite (dom T) \<Longrightarrow> T p = None \<Longrightarrow> headcount Q (T(p := Some y)) = headcount Q T + of_bool (Q y)"
  by (simp add: headcount_def those_new)

lemma those_iff: "finite (dom T) \<Longrightarrow> p \<in># those Q T \<longleftrightarrow> (\<exists>x. T p = Some x \<and> Q x)"
  by (subst those_def, subst finite_set_mset_mset_set) (auto intro: finite_subset [of _ "dom T"] split: option.splits)

lemma headcount_pos: "finite (dom T) \<Longrightarrow> T p = Some x \<Longrightarrow> Q x \<Longrightarrow> 0 < headcount Q T"
  using those_iff [of T p Q] by (auto simp: headcount_def intro!: gr0I)

lemma headcount_none:
  assumes "finite (dom T)" "\<And>p x. T p = Some x \<Longrightarrow> \<not> Q x"
  shows "headcount Q T = 0"
proof -
  have "those Q T = {#}" using those_iff [OF assms(1), of _ Q] assms(2) by (metis multiset_nonemptyE)
  then show ?thesis by (simp add: headcount_def)
qed

lemma those_same: "finite (dom T) \<Longrightarrow> T p = Some x \<Longrightarrow> Q x = Q y \<Longrightarrow> those Q (T(p := Some y)) = those Q T"
  using those_upd [of T p x Q y] by (auto split: if_splits)

lemma size_those_less:
  assumes "finite (dom T)" "T p = Some x" "\<not> Q x"
  shows "size (those Q T) < card (dom T)"
proof -
  let ?A = "{q. case T q of None \<Rightarrow> False | Some x \<Rightarrow> Q x}"
  have "?A \<subseteq> dom T" by (auto split: option.splits)
  moreover have "p \<in> dom T" "p \<notin> ?A" using assms(2,3) by auto
  ultimately have "?A \<subset> dom T" by blast
  then show ?thesis using psubset_card_mono [OF assms(1)] by (simp add: those_def)
qed

lemma only_one:
  assumes "finite (dom T)" "headcount Q T \<le> 1" "T p = Some x" "Q x" "T q = Some y" "Q y"
  shows "p = q"
proof (rule ccontr)
  assume "p \<noteq> q"
  have "p \<in># those Q T" "q \<in># those Q T" using assms by (simp_all add: those_iff)
  then obtain M N where "those Q T = add_mset p M" "those Q T = add_mset q N" by (meson mset_add)
  with \<open>p \<noteq> q\<close> have "M \<noteq> {#}" by (metis add_mset_eq_singleton_iff)
  then have "0 < size M" by (simp add: nonempty_has_size)
  with \<open>those Q T = add_mset p M\<close> show False using assms(2) by (simp add: headcount_def)
qed

text \<open>A process that is woken goes on where it was blocked.\<close>

definition woken :: "int option \<Rightarrow> 'l crowd \<Rightarrow> 'l crowd" where
  "woken q T = (case q of None \<Rightarrow> T
     | Some p \<Rightarrow> (case T p of None \<Rightarrow> T | Some (l, b) \<Rightarrow> T(p := Some (l, False))))"

lemma woken_None [simp]: "woken None T = T"
  by (simp add: woken_def)

lemma dom_woken [simp]: "dom (woken q T) = dom T"
  by (auto simp: woken_def dom_def split: option.splits prod.splits)

lemma woken_cases:
  "woken q T r = Some (l, b) \<Longrightarrow> \<exists>b'. T r = Some (l, b') \<and> (b \<longrightarrow> b')"
  by (auto simp: woken_def split: option.splits prod.splits if_splits)

lemma woken_there: "T r = Some (l, b) \<Longrightarrow> \<exists>b'. woken q T r = Some (l, b')"
  by (auto simp: woken_def split: option.splits prod.splits)

lemma woken_place: "woken q T p = Some (l, b) \<Longrightarrow> \<exists>b'. T p = Some (l, b')"
  by (auto simp: woken_def split: option.splits prod.splits if_splits)

section \<open>The interface of a semaphore\<close>

text \<open>
  What the programs rely on, of a semaphore and of a mutex, which is a semaphore of one unit that
  is only released by who has it. \<open>units\<close> is negative while processes wait, and \<open>idle\<close> objects
  must not be released.
\<close>

locale counting_semaphore =
  fixes acquire :: "int \<Rightarrow> 's \<Rightarrow> bool \<times> 's"
    and release :: "'s \<Rightarrow> int option \<times> 's"
    and units :: "'s \<Rightarrow> int"
    and waiters :: "'s \<Rightarrow> int multiset"
    and ok :: "'s \<Rightarrow> bool"
    and capacity :: nat
    and nobody :: int
    and idle :: "'s \<Rightarrow> bool"
  assumes waiters_units: "ok s \<Longrightarrow> int (size (waiters s)) = max 0 (- units s)"
    and acquire_unit: "ok s \<Longrightarrow> 0 < units s \<Longrightarrow> \<exists>t. acquire p s = (True, t) \<and> ok t \<and> units t = units s - 1 \<and> waiters t = waiters s"
    and acquire_queue: "ok s \<Longrightarrow> units s \<le> 0 \<Longrightarrow> size (waiters s) < capacity \<Longrightarrow> p \<noteq> nobody \<Longrightarrow>
      \<exists>t. acquire p s = (False, t) \<and> ok t \<and> units t = units s - 1 \<and> waiters t = add_mset p (waiters s)"
    and release_unit: "ok s \<Longrightarrow> \<not> idle s \<Longrightarrow> waiters s = {#} \<Longrightarrow> \<exists>t. release s = (None, t) \<and> ok t \<and> units t = units s + 1 \<and> waiters t = {#}"
    and release_queue: "ok s \<Longrightarrow> waiters s \<noteq> {#} \<Longrightarrow>
      \<exists>q t. release s = (Some q, t) \<and> ok t \<and> units t = units s + 1 \<and> waiters s = add_mset q (waiters t)"
begin

text \<open>The units that are there to be taken.\<close>

definition avail :: "'s \<Rightarrow> nat" where
  "avail s = nat (units s)"

lemma acquire_cases:
  assumes "ok s" "size (waiters s) < capacity" "p \<noteq> nobody"
  obtains (pass) t where "acquire p s = (True, t)" "ok t" "waiters t = waiters s" "avail s = Suc (avail t)"
  | (block) t where "acquire p s = (False, t)" "ok t" "waiters t = add_mset p (waiters s)" "avail t = avail s"
proof (cases "0 < units s")
  case True
  with acquire_unit [OF assms(1) True, of p] obtain t where
    "acquire p s = (True, t)" "ok t" "units t = units s - 1" "waiters t = waiters s" by blast
  then show ?thesis using True by (intro pass [of t]) (simp_all add: avail_def)
next
  case False
  with acquire_queue [OF assms(1) _ assms(2,3)] obtain t where
    "acquire p s = (False, t)" "ok t" "units t = units s - 1" "waiters t = add_mset p (waiters s)" by force
  then show ?thesis using False by (intro block [of t]) (simp_all add: avail_def)
qed

lemma waiting_empty: "ok s \<Longrightarrow> waiters s \<noteq> {#} \<Longrightarrow> avail s = 0"
  using waiters_units [of s] by (auto simp: avail_def max_def split: if_splits)

lemma release_cases:
  assumes "ok s" "\<not> idle s"
  obtains (keep) t where "release s = (None, t)" "ok t" "waiters s = {#}" "waiters t = {#}" "avail t = Suc (avail s)"
  | (wake) q t where "release s = (Some q, t)" "ok t" "waiters s = add_mset q (waiters t)" "avail t = avail s"
proof (cases "waiters s = {#}")
  case True
  with release_unit [OF assms] obtain t where t: "release s = (None, t)" "ok t" "units t = units s + 1" "waiters t = {#}" by blast
  have "0 \<le> units s" using waiters_units [OF assms(1)] True by simp
  then show ?thesis using t True by (intro keep [of t]) (simp_all add: avail_def nat_add_distrib)
next
  case False
  with release_queue [OF assms(1)] obtain q t where
    t: "release s = (Some q, t)" "ok t" "units t = units s + 1" "waiters s = add_mset q (waiters t)" by blast
  have "units s < 0" using waiters_units [OF assms(1)] t(4) by (auto simp: max_def split: if_splits)
  then show ?thesis using t by (intro wake [of q t]) (simp_all add: avail_def)
qed

end

section \<open>The books of a semaphore\<close>

text \<open>What acquiring and releasing do to who waits.\<close>

context counting_semaphore
begin

lemma acquire_books:
  assumes "ok m" "waiters m = those W T" "finite (dom T)" "card (dom T) \<le> capacity" "T p = Some x" "\<not> W x"
    "p \<noteq> nobody" "W (l, True)" "\<not> W (l, False)"
  obtains b m' where "acquire p m = (b, m')" "ok m'"
    "waiters m' = those W (T(p := Some (l, \<not> b)))" "avail m' + of_bool b = avail m"
proof -
  have sz: "size (waiters m) < capacity"
    using size_those_less [where Q = W, OF assms(3,5,6)] assms(2,4) by simp
  have up: "those W (T(p := Some y)) = those W T + (if W y then {#p#} else {#})" for y
    using those_upd [OF assms(3,5), of W y] assms(6) by simp
  show ?thesis
  proof (cases rule: acquire_cases [OF assms(1) sz assms(7), case_names pass block])
    case (pass t)
    then show ?thesis by (intro that [of True t]) (simp_all add: up assms(2,9))
  next
    case (block t)
    then show ?thesis by (intro that [of False t]) (simp_all add: up assms(2,8))
  qed
qed

text \<open>
  Releasing wakes who has waited longest, if there is one. Either way one more unit is there or
  held by a process of those that \<open>H\<close> counts as holders, and nothing else changes.
\<close>

lemma release_books:
  assumes "ok m" "\<not> idle m" "waiters m = those W T" "finite (dom T)" "T p = Some x" "\<not> W x" "\<not> W y"
    and "\<And>l. \<not> W (l, False)"
  obtains q m' where "release m = (q, m')" "ok m'" "waiters m' = those W (woken q (T(p := Some y)))"
    "\<forall>H. (\<forall>l. W (l, True) \<longrightarrow> \<not> H (l, True) \<and> H (l, False)) \<longrightarrow>
       avail m' + headcount H (woken q (T(p := Some y))) = Suc (avail m) + headcount H (T(p := Some y))"
    "\<forall>Q. (\<forall>l. W (l, True) \<longrightarrow> Q (l, True) = Q (l, False)) \<longrightarrow>
       those Q (woken q (T(p := Some y))) = those Q (T(p := Some y)) \<and>
       headcount Q (woken q (T(p := Some y))) = headcount Q (T(p := Some y))"
proof -
  let ?T = "T(p := Some y)"
  have same: "those W ?T = those W T" by (rule those_same [where Q = W, OF assms(4,5)]) (simp add: assms(6,7))
  show ?thesis
  proof (cases rule: release_cases [OF assms(1,2), case_names keep wake])
    case (keep t)
    then show ?thesis using same assms(3) by (intro that [of None t]) (simp_all add: woken_def)
  next
    case (wake q t)
    then have "q \<in># those W T" using assms(3) by (metis union_single_eq_member)
    then obtain l b where q: "T q = Some (l, b)" "W (l, b)" using those_iff [OF assms(4)] by auto
    then have b: b using assms(8) by (cases b) auto
    have "q \<noteq> p" using q assms(5,6) by auto
    with q(1) b have Tq: "?T q = Some (l, True)" "finite (dom ?T)" "woken (Some q) ?T = ?T(q := Some (l, False))"
      using assms(4) by (simp_all add: woken_def)
    have W: "W (l, True)" using q(2) b by simp
    have "those W (?T(q := Some (l, False))) + {#q#} = those W T"
      using those_upd [OF Tq(2,1), of W "(l, False)"] assms(8) W same by (simp del: fun_upd_apply)
    then have "waiters t = those W (woken (Some q) ?T)" unfolding Tq(3) using wake(3) assms(3) by simp
    moreover have "avail t + headcount H (woken (Some q) ?T) = Suc (avail m) + headcount H ?T"
      if "\<forall>l. W (l, True) \<longrightarrow> \<not> H (l, True) \<and> H (l, False)" for H
    proof -
      have "\<not> H (l, True)" "H (l, False)" using that W by blast+
      then show ?thesis unfolding Tq(3) using headcount_upd [OF Tq(2,1), of H "(l, False)"] wake(4) by (simp del: fun_upd_apply)
    qed
    moreover have "those Q (woken (Some q) ?T) = those Q ?T \<and> headcount Q (woken (Some q) ?T) = headcount Q ?T" if "\<forall>l. W (l, True) \<longrightarrow> Q (l, True) = Q (l, False)" for Q
      unfolding Tq(3) headcount_def using those_same [where Q = Q, OF Tq(2,1), of "(l, False)"] that W by (simp del: fun_upd_apply)
    ultimately show ?thesis using wake(1,2) by (intro that [of "Some q" t]) blast+
  qed
qed

end

text \<open>The semaphores of the kernel provide it.\<close>

interpretation ks: counting_semaphore sem_acquire sem_release sem_semaphore "\<lambda>m. waiting (sem_queue m)" sem_ok
  MAX_BLOCKED_QUEUE_SIZE NO_BLOCKED_QUEUE_VALUE "\<lambda>_. False"
proof
  fix m :: Semaphore and p
  assume ok: "sem_ok m"
  then have q: "queue_ok (sem_queue m)" "sem_cardinalBlocked m = int (size (waiting (sem_queue m)))"
    "int (size (waiting (sem_queue m))) = max 0 (- sem_semaphore m)" by (simp_all add: sem_ok_alt)
  show "int (size (waiting (sem_queue m))) = max 0 (- sem_semaphore m)" by (rule q(3))
  show "\<exists>t. sem_acquire p m = (True, t) \<and> sem_ok t \<and> sem_semaphore t = sem_semaphore m - 1 \<and>
      waiting (sem_queue t) = waiting (sem_queue m)" if "0 < sem_semaphore m"
    using that q by (auto simp: sem_acquire_def sem_ok_alt)
  show "\<exists>t. sem_acquire p m = (False, t) \<and> sem_ok t \<and> sem_semaphore t = sem_semaphore m - 1 \<and>
      waiting (sem_queue t) = add_mset p (waiting (sem_queue m))"
    if u: "sem_semaphore m \<le> 0" and sz: "size (waiting (sem_queue m)) < MAX_BLOCKED_QUEUE_SIZE" and p: "p \<noteq> NO_BLOCKED_QUEUE_VALUE"
  proof -
    obtain r where r: "queue_put (sem_queue m) p = Some r" using wq.put_room [OF q(1) sz] by blast
    with wq.put_adds [OF q(1) p r] u q show ?thesis by (simp add: sem_acquire_def sem_ok_alt)
  qed
  show "\<exists>t. sem_release m = (None, t) \<and> sem_ok t \<and> sem_semaphore t = sem_semaphore m + 1 \<and> waiting (sem_queue t) = {#}"
    if "waiting (sem_queue m) = {#}"
    using that q by (auto simp: sem_release_def sem_ok_alt)
  show "\<exists>r t. sem_release m = (Some r, t) \<and> sem_ok t \<and> sem_semaphore t = sem_semaphore m + 1 \<and>
      waiting (sem_queue m) = add_mset r (waiting (sem_queue t))" if ne: "waiting (sem_queue m) \<noteq> {#}"
  proof -
    obtain r u where "queue_take (sem_queue m) = Some (r, u)" "queue_ok u" "waiting (sem_queue m) = add_mset r (waiting u)"
      by (rule wq.take_nonempty [OF q(1) ne])
    then show ?thesis using q by (auto simp: sem_release_def sem_ok_alt)
  qed
qed

text \<open>So do its mutexes: one unit while nobody has the mutex.\<close>

interpretation km: counting_semaphore mutex_acquire mutex_release
  "\<lambda>m. if m_mutex m = 0 then 1 else - int (size (waiting (m_queue m)))" "\<lambda>m. waiting (m_queue m)" mutex_ok
  MAX_BLOCKED_QUEUE_SIZE NO_BLOCKED_QUEUE_VALUE "\<lambda>m. m_mutex m = 0"
proof
  fix m :: Mutex and p
  assume ok: "mutex_ok m"
  then have q: "queue_ok (m_queue m)" "m_cardinalBlocked m = int (size (waiting (m_queue m)))" "m_mutex m = 0 \<or> m_mutex m = 1"
    "m_mutex m = 0 \<longrightarrow> waiting (m_queue m) = {#}" by (simp_all add: mutex_ok_def)
  let ?u = "\<lambda>m. if m_mutex m = 0 then 1 else - int (size (waiting (m_queue m)))"
  show "int (size (waiting (m_queue m))) = max 0 (- ?u m)" using q(4) by simp
  show "\<exists>t. mutex_acquire p m = (True, t) \<and> mutex_ok t \<and> ?u t = ?u m - 1 \<and> waiting (m_queue t) = waiting (m_queue m)" if "0 < ?u m"
    using that q by (auto simp: mutex_acquire_def mutex_ok_def split: if_splits)
  show "\<exists>t. mutex_acquire p m = (False, t) \<and> mutex_ok t \<and> ?u t = ?u m - 1 \<and> waiting (m_queue t) = add_mset p (waiting (m_queue m))"
    if u: "?u m \<le> 0" and sz: "size (waiting (m_queue m)) < MAX_BLOCKED_QUEUE_SIZE" and p: "p \<noteq> NO_BLOCKED_QUEUE_VALUE"
  proof -
    have one: "m_mutex m = 1" using u q(3) by (auto split: if_splits)
    obtain r where r: "queue_put (m_queue m) p = Some r" using wq.put_room [OF q(1) sz] by blast
    with wq.put_adds [OF q(1) p r] one q show ?thesis by (simp add: mutex_acquire_def mutex_ok_def)
  qed
  show "\<exists>t. mutex_release m = (None, t) \<and> mutex_ok t \<and> ?u t = ?u m + 1 \<and> waiting (m_queue t) = {#}"
    if "\<not> m_mutex m = 0" "waiting (m_queue m) = {#}"
    using that q by (auto simp: mutex_release_def mutex_ok_def)
  show "\<exists>r t. mutex_release m = (Some r, t) \<and> mutex_ok t \<and> ?u t = ?u m + 1 \<and>
      waiting (m_queue m) = add_mset r (waiting (m_queue t))" if ne: "waiting (m_queue m) \<noteq> {#}"
  proof -
    obtain r u where "queue_take (m_queue m) = Some (r, u)" "queue_ok u" "waiting (m_queue m) = add_mset r (waiting u)"
      by (rule wq.take_nonempty [OF q(1) ne])
    then show ?thesis using q ne by (auto simp: mutex_release_def mutex_ok_def)
  qed
qed

end
