(* ===== verification/ProdCons.thy ===== *)
theory ProdCons
  imports Crowd Ring
begin

text \<open>
  The producers and consumers of \<open>Userland/dummy/dummy.c\<close>: a buffer of 50 characters, one
  semaphore that protects it and two that count its empty and full places. Any number of
  processes up to the limits of \<open>control\<close> run their loops at the same time; a step is one
  statement of one of them, and the semaphores are those of the kernel. The lemmas show that
  the buffer is a queue: nothing is overwritten, lost, repeated or reordered.
\<close>

section \<open>The program\<close>

text \<open>Where a producer and a consumer are in their loops, with the item in their hands.\<close>

datatype place =
    P_next | P_empty byte | P_mutex byte | P_store byte | P_advance byte | P_leave | P_full
  | C_full | C_mutex | C_load | C_advance byte | C_leave byte | C_empty byte

text \<open>
  The globals of the program, its processes with a flag that is set while the kernel has one
  blocked, and what has been inserted and removed so far. \<open>pc_buffer\<close> is the array from its
  first element on; \<open>int\<close> items are stored as characters.
\<close>

record pc_state =
  pc_buffer :: memory
  pc_r :: nat
  pc_w :: nat
  pc_i :: "32 word"
  itemMutex :: Semaphore
  fullCount :: Semaphore
  emptyCount :: Semaphore
  threads :: "int \<Rightarrow> (place \<times> bool) option"
  inserted :: "byte list"
  removed :: "byte list"

definition pc_bufferSize :: nat where "pc_bufferSize = 50"
definition MAX_CONSUMER :: nat where "MAX_CONSUMER = 10"
definition MAX_PRODUCER :: nat where "MAX_PRODUCER = 10"

text \<open>\<open>insertItem\<close> and \<open>removeItem\<close> take two statements each, between which another process may run.\<close>

definition insert_store :: "byte \<Rightarrow> pc_state \<Rightarrow> pc_state" where
  "insert_store c s = s\<lparr>pc_buffer := (pc_buffer s)(pc_w s := c)\<rparr>"

definition insert_advance :: "pc_state \<Rightarrow> pc_state" where
  "insert_advance s = s\<lparr>pc_w := (pc_w s + 1) mod pc_bufferSize\<rparr>"

definition insertItem :: "byte \<Rightarrow> pc_state \<Rightarrow> pc_state" where
  "insertItem c s = insert_advance (insert_store c s)"

definition remove_load :: "pc_state \<Rightarrow> byte" where
  "remove_load s = pc_buffer s (pc_r s)"

definition remove_advance :: "pc_state \<Rightarrow> pc_state" where
  "remove_advance s = s\<lparr>pc_r := (pc_r s + 1) mod pc_bufferSize\<rparr>"

definition removeItem :: "pc_state \<Rightarrow> byte \<times> pc_state" where
  "removeItem s = (remove_load s, remove_advance s)"

definition goes :: "int \<Rightarrow> place \<Rightarrow> bool \<Rightarrow> pc_state \<Rightarrow> pc_state" where
  "goes p l b s = s\<lparr>threads := (threads s)(p := Some (l, b))\<rparr>"

text \<open>A woken process goes on behind its \<open>wait\<close>.\<close>

definition wakes :: "int option \<Rightarrow> pc_state \<Rightarrow> pc_state" where
  "wakes q s = s\<lparr>threads := woken q (threads s)\<rparr>"

text \<open>\<open>wait\<close> and \<open>signal\<close>, by the system calls 25 and 15.\<close>

definition waits_for :: "(pc_state \<Rightarrow> Semaphore) \<Rightarrow> (Semaphore \<Rightarrow> pc_state \<Rightarrow> pc_state) \<Rightarrow> int \<Rightarrow> place \<Rightarrow> pc_state \<Rightarrow> pc_state" where
  "waits_for get put p l s = (let (go, m) = sem_acquire p (get s) in goes p l (\<not> go) (put m s))"

definition signals_to :: "(pc_state \<Rightarrow> Semaphore) \<Rightarrow> (Semaphore \<Rightarrow> pc_state \<Rightarrow> pc_state) \<Rightarrow> int \<Rightarrow> place \<Rightarrow> pc_state \<Rightarrow> pc_state" where
  "signals_to get put p l s = (let (q, m) = sem_release (get s) in wakes q (goes p l False (put m s)))"

definition put_item :: "Semaphore \<Rightarrow> pc_state \<Rightarrow> pc_state" where "put_item m s = s\<lparr>itemMutex := m\<rparr>"
definition put_full :: "Semaphore \<Rightarrow> pc_state \<Rightarrow> pc_state" where "put_full m s = s\<lparr>fullCount := m\<rparr>"
definition put_empty :: "Semaphore \<Rightarrow> pc_state \<Rightarrow> pc_state" where "put_empty m s = s\<lparr>emptyCount := m\<rparr>"

text \<open>One statement of a producer and of a consumer.\<close>

fun producer_step :: "int \<Rightarrow> place \<Rightarrow> pc_state \<Rightarrow> pc_state" where
  "producer_step p P_next s = goes p (P_empty (ucast (pc_i s))) False (s\<lparr>pc_i := pc_i s + 1\<rparr>)"
| "producer_step p (P_empty c) s = waits_for emptyCount put_empty p (P_mutex c) s"
| "producer_step p (P_mutex c) s = waits_for itemMutex put_item p (P_store c) s"
| "producer_step p (P_store c) s = goes p (P_advance c) False (insert_store c s)"
| "producer_step p (P_advance c) s = goes p P_leave False ((insert_advance s)\<lparr>inserted := inserted s @ [c]\<rparr>)"
| "producer_step p P_leave s = signals_to itemMutex put_item p P_full s"
| "producer_step p P_full s = signals_to fullCount put_full p P_next s"
| "producer_step p _ s = s"

fun consumer_step :: "int \<Rightarrow> place \<Rightarrow> pc_state \<Rightarrow> pc_state" where
  "consumer_step p C_full s = waits_for fullCount put_full p C_mutex s"
| "consumer_step p C_mutex s = waits_for itemMutex put_item p C_load s"
| "consumer_step p C_load s = goes p (C_advance (remove_load s)) False s"
| "consumer_step p (C_advance c) s = goes p (C_leave c) False ((remove_advance s)\<lparr>removed := removed s @ [c]\<rparr>)"
| "consumer_step p (C_leave c) s = signals_to itemMutex put_item p (C_empty c) s"
| "consumer_step p (C_empty c) s = signals_to emptyCount put_empty p C_full s"
| "consumer_step p _ s = s"

definition is_producer :: "place \<Rightarrow> bool" where
  "is_producer l = (case l of P_next \<Rightarrow> True | P_empty _ \<Rightarrow> True | P_mutex _ \<Rightarrow> True | P_store _ \<Rightarrow> True
     | P_advance _ \<Rightarrow> True | P_leave \<Rightarrow> True | P_full \<Rightarrow> True | _ \<Rightarrow> False)"

definition pc_step :: "int \<Rightarrow> pc_state \<Rightarrow> pc_state option" where
  "pc_step p s =
     (case threads s p of
        Some (l, False) \<Rightarrow> Some (if is_producer l then producer_step p l s else consumer_step p l s)
      | _ \<Rightarrow> None)"

text \<open>The semaphores as \<open>prodCons\<close> creates them, and the two processes it starts with.\<close>

definition new_semaphore :: "int \<Rightarrow> Semaphore" where
  "new_semaphore start = \<lparr>sem_used = True, sem_name = NULL,
     sem_queue = clearArray MAX_BLOCKED_QUEUE_SIZE NO_BLOCKED_QUEUE_VALUE, sem_semaphore = start,
     sem_cardinalBlocked = 0, sem_mutex = 0, sem_pidCreator = 0\<rparr>"

definition pc_start :: "int \<Rightarrow> int \<Rightarrow> pc_state" where
  "pc_start producer consumer = \<lparr>pc_buffer = (\<lambda>_. 0), pc_r = 0, pc_w = 0, pc_i = 0, itemMutex = new_semaphore 1,
     fullCount = new_semaphore 0, emptyCount = new_semaphore (int pc_bufferSize),
     threads = (\<lambda>_. None)(producer := Some (P_next, False), consumer := Some (C_full, False)),
     inserted = [], removed = []\<rparr>"

text \<open>The runs: a statement of some process, or \<open>control\<close> starts one more producer or consumer.\<close>

inductive pc_runs :: "pc_state \<Rightarrow> pc_state \<Rightarrow> bool" for s0 where
  here: "pc_runs s0 s0"
| step: "pc_runs s0 s \<Longrightarrow> pc_step p s = Some t \<Longrightarrow> pc_runs s0 t"
| more: "pc_runs s0 s \<Longrightarrow> threads s p = None \<Longrightarrow> p \<noteq> - 1 \<Longrightarrow> card (dom (threads s)) < MAX_PRODUCER + MAX_CONSUMER \<Longrightarrow>
    l \<in> {P_next, C_full} \<Longrightarrow> pc_runs s0 (goes p l False s)"

definition pc_reach :: "pc_state \<Rightarrow> bool" where
  "pc_reach s \<longleftrightarrow> (\<exists>p c. p \<noteq> c \<and> p \<noteq> - 1 \<and> c \<noteq> - 1 \<and> pc_runs (pc_start p c) s)"

text \<open>\<open>control\<close> removes a process wherever it is.\<close>

definition kills :: "int \<Rightarrow> pc_state \<Rightarrow> pc_state" where
  "kills p s = s\<lparr>threads := (threads s)(p := None)\<rparr>"

section \<open>Who waits and who is inside\<close>

text \<open>Who waits for which semaphore, who holds a unit of it, and who is inside the protected part.\<close>

fun at_empty :: "place \<times> bool \<Rightarrow> bool" where
  "at_empty (P_mutex c, b) = b" | "at_empty x = False"

fun at_full :: "place \<times> bool \<Rightarrow> bool" where
  "at_full (C_mutex, b) = b" | "at_full x = False"

fun at_item :: "place \<times> bool \<Rightarrow> bool" where
  "at_item (P_store c, b) = b" | "at_item (C_load, b) = b" | "at_item x = False"

fun has_place :: "place \<times> bool \<Rightarrow> bool" where
  "has_place (P_mutex c, b) = (\<not> b)" | "has_place (P_store c, b) = True" | "has_place (P_advance c, b) = True"
| "has_place x = False"

fun has_put :: "place \<times> bool \<Rightarrow> bool" where
  "has_put (P_leave, b) = True" | "has_put (P_full, b) = True" | "has_put x = False"

fun has_item :: "place \<times> bool \<Rightarrow> bool" where
  "has_item (C_mutex, b) = (\<not> b)" | "has_item (C_load, b) = True" | "has_item (C_advance c, b) = True"
| "has_item x = False"

fun has_taken :: "place \<times> bool \<Rightarrow> bool" where
  "has_taken (C_leave c, b) = True" | "has_taken (C_empty c, b) = True" | "has_taken x = False"

fun inside :: "place \<times> bool \<Rightarrow> bool" where
  "inside (P_store c, b) = (\<not> b)" | "inside (P_advance c, b) = True" | "inside (P_leave, b) = True"
| "inside (C_load, b) = (\<not> b)" | "inside (C_advance c, b) = True" | "inside (C_leave c, b) = True"
| "inside x = False"

lemma at_cases:
  "at_empty (l, b) \<Longrightarrow> b \<and> (\<exists>c. l = P_mutex c)" "at_full (l, b) \<Longrightarrow> b \<and> l = C_mutex"
  "at_item (l, b) \<Longrightarrow> b \<and> (l = C_load \<or> (\<exists>c. l = P_store c))"
  by (cases l; simp)+

lemma at_awake [simp]: "\<not> at_empty (l, False)" "\<not> at_full (l, False)" "\<not> at_item (l, False)"
  by (cases l; simp)+

section \<open>The books of a semaphore\<close>

lemma wait_books:
  assumes "sem_ok m" "waiting (sem_queue m) = those W T" "finite (dom T)" "card (dom T) \<le> 20" "T p = Some x" "\<not> W x"
    "p \<noteq> - 1" "W (l, True)" "\<not> W (l, False)"
  obtains b m' where "sem_acquire p m = (b, m')" "sem_ok m'"
    "waiting (sem_queue m') = those W (T(p := Some (l, \<not> b)))" "ks.avail m' + of_bool b = ks.avail m"
proof -
  have c: "card (dom T) \<le> MAX_BLOCKED_QUEUE_SIZE" "p \<noteq> NO_BLOCKED_QUEUE_VALUE"
    using assms(4,7) by (simp_all add: MAX_BLOCKED_QUEUE_SIZE_def NO_BLOCKED_QUEUE_VALUE_def)
  show ?thesis by (rule ks.acquire_books [OF assms(1-3) c(1) assms(5,6) c(2) assms(8,9)]) (rule that, assumption+)
qed

lemmas signal_books = ks.release_books [unfolded not_False_eq_True, OF _ TrueI]

text \<open>What waking a process that waits for a semaphore does to the other books: nothing.\<close>

lemma woken_at_empty:
  "at_empty (l, True) \<Longrightarrow> at_full (l, True) = at_full (l, False)" "at_empty (l, True) \<Longrightarrow> at_item (l, True) = at_item (l, False)"
  "at_empty (l, True) \<Longrightarrow> has_put (l, True) = has_put (l, False)" "at_empty (l, True) \<Longrightarrow> has_item (l, True) = has_item (l, False)"
  "at_empty (l, True) \<Longrightarrow> has_taken (l, True) = has_taken (l, False)" "at_empty (l, True) \<Longrightarrow> inside (l, True) = inside (l, False)"
  "at_empty (l, True) \<Longrightarrow> \<not> has_place (l, True) \<and> has_place (l, False)"
  by (cases l; simp)+

lemma woken_at_full:
  "at_full (l, True) \<Longrightarrow> at_empty (l, True) = at_empty (l, False)" "at_full (l, True) \<Longrightarrow> at_item (l, True) = at_item (l, False)"
  "at_full (l, True) \<Longrightarrow> has_put (l, True) = has_put (l, False)" "at_full (l, True) \<Longrightarrow> has_place (l, True) = has_place (l, False)"
  "at_full (l, True) \<Longrightarrow> has_taken (l, True) = has_taken (l, False)" "at_full (l, True) \<Longrightarrow> inside (l, True) = inside (l, False)"
  "at_full (l, True) \<Longrightarrow> \<not> has_item (l, True) \<and> has_item (l, False)"
  by (cases l; simp)+

lemma woken_at_item:
  "at_item (l, True) \<Longrightarrow> at_empty (l, True) = at_empty (l, False)" "at_item (l, True) \<Longrightarrow> at_full (l, True) = at_full (l, False)"
  "at_item (l, True) \<Longrightarrow> has_put (l, True) = has_put (l, False)" "at_item (l, True) \<Longrightarrow> has_place (l, True) = has_place (l, False)"
  "at_item (l, True) \<Longrightarrow> has_taken (l, True) = has_taken (l, False)" "at_item (l, True) \<Longrightarrow> has_item (l, True) = has_item (l, False)"
  "at_item (l, True) \<Longrightarrow> \<not> inside (l, True) \<and> inside (l, False)"
  by (cases l; simp)+

section \<open>The invariant\<close>

text \<open>
  Every place of the buffer and every unit of a semaphore is accounted for: \<open>ke\<close> places, \<open>km\<close>
  units of the protection, and \<open>kf\<close> items that were never announced (50, 1 and 0 in a run
  in which no process is removed).
\<close>

definition books_ok :: "nat \<Rightarrow> nat \<Rightarrow> nat \<Rightarrow> pc_state \<Rightarrow> bool" where
  "books_ok ke kf km s \<longleftrightarrow> finite (dom (threads s)) \<and> card (dom (threads s)) \<le> 20 \<and> threads s (- 1) = None \<and>
     sem_ok (emptyCount s) \<and> sem_ok (fullCount s) \<and> sem_ok (itemMutex s) \<and>
     waiting (sem_queue (emptyCount s)) = those at_empty (threads s) \<and>
     waiting (sem_queue (fullCount s)) = those at_full (threads s) \<and>
     waiting (sem_queue (itemMutex s)) = those at_item (threads s) \<and>
     ks.avail (emptyCount s) + headcount has_place (threads s) + length (inserted s) + headcount has_taken (threads s) =
       ke + length (removed s) \<and>
     ks.avail (fullCount s) + headcount has_item (threads s) + headcount has_put (threads s) + length (removed s) + kf =
       length (inserted s) \<and>
     ks.avail (itemMutex s) + headcount inside (threads s) = km"

text \<open>What has been inserted is what has been removed and what the buffer holds, in order.\<close>

definition data_ok :: "pc_state \<Rightarrow> bool" where
  "data_ok s \<longleftrightarrow> pc_r s < 50 \<and>
     (\<exists>n. pc_w s = (pc_r s + n) mod 50 \<and> inserted s = removed s @ ring_bytes (pc_buffer s) 0 50 (pc_r s) n) \<and>
     (\<forall>p c b. threads s p = Some (P_advance c, b) \<longrightarrow> pc_buffer s (pc_w s) = c) \<and>
     (\<forall>p c b. threads s p = Some (C_advance c, b) \<longrightarrow> pc_buffer s (pc_r s) = c)"

lemma books_okD:
  assumes "books_ok ke kf km s"
  shows "finite (dom (threads s))" "card (dom (threads s)) \<le> 20" "threads s (- 1) = None"
    "sem_ok (emptyCount s)" "sem_ok (fullCount s)" "sem_ok (itemMutex s)"
    "waiting (sem_queue (emptyCount s)) = those at_empty (threads s)"
    "waiting (sem_queue (fullCount s)) = those at_full (threads s)"
    "waiting (sem_queue (itemMutex s)) = those at_item (threads s)"
    "ks.avail (emptyCount s) + headcount has_place (threads s) + length (inserted s) + headcount has_taken (threads s) =
       ke + length (removed s)"
    "ks.avail (fullCount s) + headcount has_item (threads s) + headcount has_put (threads s) + length (removed s) + kf =
       length (inserted s)"
    "ks.avail (itemMutex s) + headcount inside (threads s) = km"
  using assms by (simp_all add: books_ok_def)

lemma dom_upd_Some: "T p = Some x \<Longrightarrow> dom (T(p := Some y)) = dom T"
  by auto

text \<open>A statement that touches no semaphore: the same holds for every predicate it moves a process between.\<close>

lemma headcounts_upd:
  assumes "finite (dom T)" "T p = Some x"
  shows "headcount has_place (T(p := Some y)) + of_bool (has_place x) = headcount has_place T + of_bool (has_place y)"
    "headcount has_taken (T(p := Some y)) + of_bool (has_taken x) = headcount has_taken T + of_bool (has_taken y)"
    "headcount has_item (T(p := Some y)) + of_bool (has_item x) = headcount has_item T + of_bool (has_item y)"
    "headcount has_put (T(p := Some y)) + of_bool (has_put x) = headcount has_put T + of_bool (has_put y)"
    "headcount inside (T(p := Some y)) + of_bool (inside x) = headcount inside T + of_bool (inside y)"
  by (rule headcount_upd [OF assms])+

lemma those_at_same:
  assumes "finite (dom T)" "T p = Some x"
  shows "at_empty x = at_empty y \<Longrightarrow> those at_empty (T(p := Some y)) = those at_empty T"
    "at_full x = at_full y \<Longrightarrow> those at_full (T(p := Some y)) = those at_full T"
    "at_item x = at_item y \<Longrightarrow> those at_item (T(p := Some y)) = those at_item T"
  using those_same [where Q = at_empty, OF assms] those_same [where Q = at_full, OF assms]
    those_same [where Q = at_item, OF assms] by blast+

lemma books_plain:
  assumes "books_ok ke kf km s" "threads s p = Some (l, False)"
    "threads t = (threads s)(p := Some (l', False))" "emptyCount t = emptyCount s" "fullCount t = fullCount s"
    "itemMutex t = itemMutex s" "length (inserted t) = length (inserted s) + i" "length (removed t) = length (removed s) + r"
    "inside (l', False) = inside (l, False)"
    "of_bool (has_place (l', False)) + of_bool (has_taken (l', False)) + i =
       of_bool (has_place (l, False)) + of_bool (has_taken (l, False)) + r"
    "of_bool (has_item (l', False)) + of_bool (has_put (l', False)) + r =
       of_bool (has_item (l, False)) + of_bool (has_put (l, False)) + i"
  shows "books_ok ke kf km t"
proof -
  note d = books_okD [OF assms(1)]
  note hc = headcounts_upd [OF d(1) assms(2), of "(l', False)"]
  note same = those_at_same [OF d(1) assms(2), of "(l', False)"]
  have "p \<noteq> - 1" using assms(2) d(3) by auto
  then show ?thesis
    unfolding books_ok_def assms(3-6) dom_upd_Some [where T = "threads s", OF assms(2)]
    using d hc same assms(7-11) by auto
qed

text \<open>The three semaphores, waiting and signalling.\<close>

lemma books_wait_empty:
  assumes "books_ok ke kf km s" "threads s p = Some (P_empty c, False)"
  shows "books_ok ke kf km (waits_for emptyCount put_empty p (P_mutex c) s)"
proof -
  note d = books_okD [OF assms(1)]
  have pn: "p \<noteq> - 1" "insert p (dom (threads s)) = dom (threads s)" using assms(2) d(3) by auto
  from wait_books [where W = at_empty and l = "P_mutex c", OF d(4) d(7) d(1,2) assms(2) _ pn(1)] obtain b m where
    m: "sem_acquire p (emptyCount s) = (b, m)" "sem_ok m" "waiting (sem_queue m) = those at_empty ((threads s)(p := Some ((P_mutex c), \<not> b)))"
      "ks.avail m + of_bool b = ks.avail (emptyCount s)" by auto
  note hc = headcounts_upd [OF d(1) assms(2), of "((P_mutex c), \<not> b)"]
  note same = those_at_same [OF d(1) assms(2), of "((P_mutex c), \<not> b)"]
  show ?thesis
    unfolding books_ok_def waits_for_def m(1) prod.case goes_def put_empty_def
    using d hc same m pn by (cases b) simp_all
qed

lemma books_wait_full:
  assumes "books_ok ke kf km s" "threads s p = Some (C_full, False)"
  shows "books_ok ke kf km (waits_for fullCount put_full p C_mutex s)"
proof -
  note d = books_okD [OF assms(1)]
  have pn: "p \<noteq> - 1" "insert p (dom (threads s)) = dom (threads s)" using assms(2) d(3) by auto
  from wait_books [where W = at_full and l = "C_mutex", OF d(5) d(8) d(1,2) assms(2) _ pn(1)] obtain b m where
    m: "sem_acquire p (fullCount s) = (b, m)" "sem_ok m" "waiting (sem_queue m) = those at_full ((threads s)(p := Some (C_mutex, \<not> b)))"
      "ks.avail m + of_bool b = ks.avail (fullCount s)" by auto
  note hc = headcounts_upd [OF d(1) assms(2), of "(C_mutex, \<not> b)"]
  note same = those_at_same [OF d(1) assms(2), of "(C_mutex, \<not> b)"]
  show ?thesis
    unfolding books_ok_def waits_for_def m(1) prod.case goes_def put_full_def
    using d hc same m pn by (cases b) simp_all
qed

lemma books_wait_item_P:
  assumes "books_ok ke kf km s" "threads s p = Some (P_mutex c, False)"
  shows "books_ok ke kf km (waits_for itemMutex put_item p (P_store c) s)"
proof -
  note d = books_okD [OF assms(1)]
  have pn: "p \<noteq> - 1" "insert p (dom (threads s)) = dom (threads s)" using assms(2) d(3) by auto
  from wait_books [where W = at_item and l = "P_store c", OF d(6) d(9) d(1,2) assms(2) _ pn(1)] obtain b m where
    m: "sem_acquire p (itemMutex s) = (b, m)" "sem_ok m" "waiting (sem_queue m) = those at_item ((threads s)(p := Some ((P_store c), \<not> b)))"
      "ks.avail m + of_bool b = ks.avail (itemMutex s)" by auto
  note hc = headcounts_upd [OF d(1) assms(2), of "((P_store c), \<not> b)"]
  note same = those_at_same [OF d(1) assms(2), of "((P_store c), \<not> b)"]
  show ?thesis
    unfolding books_ok_def waits_for_def m(1) prod.case goes_def put_item_def
    using d hc same m pn by (cases b) simp_all
qed

lemma books_wait_item_C:
  assumes "books_ok ke kf km s" "threads s p = Some (C_mutex, False)"
  shows "books_ok ke kf km (waits_for itemMutex put_item p C_load s)"
proof -
  note d = books_okD [OF assms(1)]
  have pn: "p \<noteq> - 1" "insert p (dom (threads s)) = dom (threads s)" using assms(2) d(3) by auto
  from wait_books [where W = at_item and l = "C_load", OF d(6) d(9) d(1,2) assms(2) _ pn(1)] obtain b m where
    m: "sem_acquire p (itemMutex s) = (b, m)" "sem_ok m" "waiting (sem_queue m) = those at_item ((threads s)(p := Some (C_load, \<not> b)))"
      "ks.avail m + of_bool b = ks.avail (itemMutex s)" by auto
  note hc = headcounts_upd [OF d(1) assms(2), of "(C_load, \<not> b)"]
  note same = those_at_same [OF d(1) assms(2), of "(C_load, \<not> b)"]
  show ?thesis
    unfolding books_ok_def waits_for_def m(1) prod.case goes_def put_item_def
    using d hc same m pn by (cases b) simp_all
qed

lemma signal_empty:
  assumes "books_ok ke kf km s" "threads s p = Some x" "\<not> at_empty x" "\<not> at_empty y"
  obtains q m U where "U = woken q ((threads s)(p := Some y))" "dom U = dom (threads s)" "U (- 1) = None"
    "sem_release (emptyCount s) = (q, m)" "sem_ok m" "waiting (sem_queue m) = those at_empty U"
    "ks.avail m + headcount has_place U = Suc (ks.avail (emptyCount s)) + headcount has_place ((threads s)(p := Some y))"
    "those at_full U = those at_full ((threads s)(p := Some y))" "those at_item U = those at_item ((threads s)(p := Some y))"
    "headcount has_put U = headcount has_put ((threads s)(p := Some y))" "headcount has_item U = headcount has_item ((threads s)(p := Some y))"
    "headcount has_taken U = headcount has_taken ((threads s)(p := Some y))" "headcount inside U = headcount inside ((threads s)(p := Some y))"
proof -
  note d = books_okD [OF assms(1)]
  let ?T = "(threads s)(p := Some y)"
  obtain q m where r: "sem_release (emptyCount s) = (q, m)" "sem_ok m" "waiting (sem_queue m) = those at_empty (woken q ?T)"
    "\<forall>H. (\<forall>l. at_empty (l, True) \<longrightarrow> \<not> H (l, True) \<and> H (l, False)) \<longrightarrow>
       ks.avail m + headcount H (woken q ?T) = Suc (ks.avail (emptyCount s)) + headcount H ?T"
    "\<forall>Q. (\<forall>l. at_empty (l, True) \<longrightarrow> Q (l, True) = Q (l, False)) \<longrightarrow> 
       those Q (woken q ?T) = those Q ?T \<and> headcount Q (woken q ?T) = headcount Q ?T"
    by (rule signal_books [where W = at_empty, OF d(4) d(7) d(1) assms(2-4)]) (simp, rule that, assumption+)
  have dom: "dom (woken q ?T) = dom (threads s)" using assms(2) by auto
  then have "woken q ?T (- 1) = None" using d(3) by (metis domIff)
  from refl dom this r(1-3) show ?thesis
    by (rule that) (simp_all add: r(4,5) [rule_format] woken_at_empty del: fun_upd_apply)
qed

lemma signal_full:
  assumes "books_ok ke kf km s" "threads s p = Some x" "\<not> at_full x" "\<not> at_full y"
  obtains q m U where "U = woken q ((threads s)(p := Some y))" "dom U = dom (threads s)" "U (- 1) = None"
    "sem_release (fullCount s) = (q, m)" "sem_ok m" "waiting (sem_queue m) = those at_full U"
    "ks.avail m + headcount has_item U = Suc (ks.avail (fullCount s)) + headcount has_item ((threads s)(p := Some y))"
    "those at_empty U = those at_empty ((threads s)(p := Some y))" "those at_item U = those at_item ((threads s)(p := Some y))"
    "headcount has_place U = headcount has_place ((threads s)(p := Some y))" "headcount has_put U = headcount has_put ((threads s)(p := Some y))"
    "headcount has_taken U = headcount has_taken ((threads s)(p := Some y))" "headcount inside U = headcount inside ((threads s)(p := Some y))"
proof -
  note d = books_okD [OF assms(1)]
  let ?T = "(threads s)(p := Some y)"
  obtain q m where r: "sem_release (fullCount s) = (q, m)" "sem_ok m" "waiting (sem_queue m) = those at_full (woken q ?T)"
    "\<forall>H. (\<forall>l. at_full (l, True) \<longrightarrow> \<not> H (l, True) \<and> H (l, False)) \<longrightarrow>
       ks.avail m + headcount H (woken q ?T) = Suc (ks.avail (fullCount s)) + headcount H ?T"
    "\<forall>Q. (\<forall>l. at_full (l, True) \<longrightarrow> Q (l, True) = Q (l, False)) \<longrightarrow> 
       those Q (woken q ?T) = those Q ?T \<and> headcount Q (woken q ?T) = headcount Q ?T"
    by (rule signal_books [where W = at_full, OF d(5) d(8) d(1) assms(2-4)]) (simp, rule that, assumption+)
  have dom: "dom (woken q ?T) = dom (threads s)" using assms(2) by auto
  then have "woken q ?T (- 1) = None" using d(3) by (metis domIff)
  from refl dom this r(1-3) show ?thesis
    by (rule that) (simp_all add: r(4,5) [rule_format] woken_at_full del: fun_upd_apply)
qed

lemma signal_item:
  assumes "books_ok ke kf km s" "threads s p = Some x" "\<not> at_item x" "\<not> at_item y"
  obtains q m U where "U = woken q ((threads s)(p := Some y))" "dom U = dom (threads s)" "U (- 1) = None"
    "sem_release (itemMutex s) = (q, m)" "sem_ok m" "waiting (sem_queue m) = those at_item U"
    "ks.avail m + headcount inside U = Suc (ks.avail (itemMutex s)) + headcount inside ((threads s)(p := Some y))"
    "those at_empty U = those at_empty ((threads s)(p := Some y))" "those at_full U = those at_full ((threads s)(p := Some y))"
    "headcount has_place U = headcount has_place ((threads s)(p := Some y))" "headcount has_put U = headcount has_put ((threads s)(p := Some y))"
    "headcount has_item U = headcount has_item ((threads s)(p := Some y))" "headcount has_taken U = headcount has_taken ((threads s)(p := Some y))"
proof -
  note d = books_okD [OF assms(1)]
  let ?T = "(threads s)(p := Some y)"
  obtain q m where r: "sem_release (itemMutex s) = (q, m)" "sem_ok m" "waiting (sem_queue m) = those at_item (woken q ?T)"
    "\<forall>H. (\<forall>l. at_item (l, True) \<longrightarrow> \<not> H (l, True) \<and> H (l, False)) \<longrightarrow>
       ks.avail m + headcount H (woken q ?T) = Suc (ks.avail (itemMutex s)) + headcount H ?T"
    "\<forall>Q. (\<forall>l. at_item (l, True) \<longrightarrow> Q (l, True) = Q (l, False)) \<longrightarrow> 
       those Q (woken q ?T) = those Q ?T \<and> headcount Q (woken q ?T) = headcount Q ?T"
    by (rule signal_books [where W = at_item, OF d(6) d(9) d(1) assms(2-4)]) (simp, rule that, assumption+)
  have dom: "dom (woken q ?T) = dom (threads s)" using assms(2) by auto
  then have "woken q ?T (- 1) = None" using d(3) by (metis domIff)
  from refl dom this r(1-3) show ?thesis
    by (rule that) (simp_all add: r(4,5) [rule_format] woken_at_item del: fun_upd_apply)
qed

lemma books_signal_empty:
  assumes "books_ok ke kf km s" "threads s p = Some (C_empty c, False)"
  shows "books_ok ke kf km (signals_to emptyCount put_empty p C_full s)"
proof (cases rule: signal_empty [OF assms, of "(C_full, False)", case_names before behind goes])
  case (goes q m U)
  note d = books_okD [OF assms(1)]
  note hc = headcounts_upd [OF d(1) assms(2), of "(C_full, False)"]
  note same = those_at_same [OF d(1) assms(2), of "(C_full, False)"]
  have "signals_to emptyCount put_empty p C_full s = (put_empty m s)\<lparr>threads := U\<rparr>"
    by (simp add: signals_to_def wakes_def goes_def goes(1,4) put_empty_def)
  then show ?thesis unfolding books_ok_def using d hc same goes(2-) by (simp add: put_empty_def del: fun_upd_apply)
qed simp_all

lemma books_signal_full:
  assumes "books_ok ke kf km s" "threads s p = Some (P_full, False)"
  shows "books_ok ke kf km (signals_to fullCount put_full p P_next s)"
proof (cases rule: signal_full [OF assms, of "(P_next, False)", case_names before behind goes])
  case (goes q m U)
  note d = books_okD [OF assms(1)]
  note hc = headcounts_upd [OF d(1) assms(2), of "(P_next, False)"]
  note same = those_at_same [OF d(1) assms(2), of "(P_next, False)"]
  have "signals_to fullCount put_full p P_next s = (put_full m s)\<lparr>threads := U\<rparr>"
    by (simp add: signals_to_def wakes_def goes_def goes(1,4) put_full_def)
  then show ?thesis unfolding books_ok_def using d hc same goes(2-) by (simp add: put_full_def del: fun_upd_apply)
qed simp_all

lemma books_signal_item_P:
  assumes "books_ok ke kf km s" "threads s p = Some (P_leave, False)"
  shows "books_ok ke kf km (signals_to itemMutex put_item p P_full s)"
proof (cases rule: signal_item [OF assms, of "(P_full, False)", case_names before behind goes])
  case (goes q m U)
  note d = books_okD [OF assms(1)]
  note hc = headcounts_upd [OF d(1) assms(2), of "(P_full, False)"]
  note same = those_at_same [OF d(1) assms(2), of "(P_full, False)"]
  have "signals_to itemMutex put_item p P_full s = (put_item m s)\<lparr>threads := U\<rparr>"
    by (simp add: signals_to_def wakes_def goes_def goes(1,4) put_item_def)
  then show ?thesis unfolding books_ok_def using d hc same goes(2-) by (simp add: put_item_def del: fun_upd_apply)
qed simp_all

lemma books_signal_item_C:
  assumes "books_ok ke kf km s" "threads s p = Some (C_leave c, False)"
  shows "books_ok ke kf km (signals_to itemMutex put_item p (C_empty c) s)"
proof (cases rule: signal_item [OF assms, of "((C_empty c), False)", case_names before behind goes])
  case (goes q m U)
  note d = books_okD [OF assms(1)]
  note hc = headcounts_upd [OF d(1) assms(2), of "((C_empty c), False)"]
  note same = those_at_same [OF d(1) assms(2), of "((C_empty c), False)"]
  have "signals_to itemMutex put_item p (C_empty c) s = (put_item m s)\<lparr>threads := U\<rparr>"
    by (simp add: signals_to_def wakes_def goes_def goes(1,4) put_item_def)
  then show ?thesis unfolding books_ok_def using d hc same goes(2-) by (simp add: put_item_def del: fun_upd_apply)
qed simp_all

section \<open>The data\<close>

text \<open>What waiting and signalling leave alone.\<close>

definition same_data :: "pc_state \<Rightarrow> pc_state \<Rightarrow> bool" where
  "same_data s t \<longleftrightarrow> pc_buffer t = pc_buffer s \<and> pc_r t = pc_r s \<and> pc_w t = pc_w s \<and>
     inserted t = inserted s \<and> removed t = removed s \<and>
     (\<forall>p c b. threads t p = Some (P_advance c, b) \<longrightarrow> (\<exists>b'. threads s p = Some (P_advance c, b'))) \<and>
     (\<forall>p c b. threads t p = Some (C_advance c, b) \<longrightarrow> (\<exists>b'. threads s p = Some (C_advance c, b')))"

lemma data_same: "data_ok s \<Longrightarrow> same_data s t \<Longrightarrow> data_ok t"
  by (fastforce simp: data_ok_def same_data_def)

lemma same_data_goes:
  "(\<And>c. l \<noteq> P_advance c) \<Longrightarrow> (\<And>c. l \<noteq> C_advance c) \<Longrightarrow> same_data s (goes p l b s)"
  by (auto simp: same_data_def goes_def)

lemma same_data_wakes: "same_data s (wakes q s)"
  by (auto simp: same_data_def wakes_def dest: woken_place)

lemma same_data_trans: "same_data s t \<Longrightarrow> same_data t u \<Longrightarrow> same_data s u"
  unfolding same_data_def by metis

lemma same_data_put: "same_data s (put_item m s)" "same_data s (put_full m s)" "same_data s (put_empty m s)"
  by (auto simp: same_data_def put_item_def put_full_def put_empty_def)

lemma same_data_semaphores:
  assumes "\<And>c. l \<noteq> P_advance c" "\<And>c. l \<noteq> C_advance c" "\<And>m. same_data s (put m s)"
  shows "same_data s (waits_for get put p l s)" "same_data s (signals_to get put p l s)"
proof -
  show "same_data s (waits_for get put p l s)"
    unfolding waits_for_def
    by (auto split: prod.splits intro: same_data_trans [OF assms(3) same_data_goes [OF assms(1,2)]])
  show "same_data s (signals_to get put p l s)"
    unfolding signals_to_def
    by (auto split: prod.splits intro: same_data_trans [OF same_data_trans [OF assms(3) same_data_goes [OF assms(1,2)]] same_data_wakes])
qed

text \<open>The stock: how many characters the buffer holds.\<close>

lemma stock:
  assumes "data_ok s"
  obtains n where "pc_w s = (pc_r s + n) mod 50" "inserted s = removed s @ ring_bytes (pc_buffer s) 0 50 (pc_r s) n"
    "length (inserted s) = length (removed s) + n" "pc_r s < 50"
  using assms unfolding data_ok_def by (metis length_append length_ring_bytes)

lemma room_to_store:
  assumes "books_ok 50 kf km s" "threads s p = Some (l, b)" "has_place (l, b)"
  shows "length (inserted s) < 50 + length (removed s)"
  using headcount_pos [where Q = has_place, OF books_okD(1) [OF assms(1)] assms(2,3)] books_okD(10) [OF assms(1)] by linarith

lemma item_to_load:
  assumes "books_ok ke kf km s" "threads s p = Some (l, b)" "has_item (l, b)"
  shows "length (removed s) < length (inserted s)"
  using headcount_pos [where Q = has_item, OF books_okD(1) [OF assms(1)] assms(2,3)] books_okD(11) [OF assms(1)] by linarith

lemma one_inside:
  assumes "books_ok ke kf 1 s" "threads s p = Some x" "inside x" "threads s q = Some y" "inside y"
  shows "p = q"
proof -
  have "headcount inside (threads s) \<le> 1" using books_okD(12) [OF assms(1)] by linarith
  from only_one [where Q = inside, OF books_okD(1) [OF assms(1)] this assms(2-5)] show ?thesis .
qed

lemma data_store:
  assumes "books_ok 50 kf 1 s" "data_ok s" "threads s p = Some (P_store c, False)"
  shows "data_ok (goes p (P_advance c) False (insert_store c s))"
proof -
  obtain n where n: "pc_w s = (pc_r s + n) mod 50" "inserted s = removed s @ ring_bytes (pc_buffer s) 0 50 (pc_r s) n"
    "length (inserted s) = length (removed s) + n" "pc_r s < 50" by (rule stock [OF assms(2)])
  have "n < 50" using room_to_store [OF assms(1,3)] n(3) by simp
  then have same: "ring_bytes ((pc_buffer s)(pc_w s := c)) 0 50 (pc_r s) n = ring_bytes (pc_buffer s) 0 50 (pc_r s) n"
    using ring_slot_neq [of _ n 50 "pc_r s"] n(1) by (auto simp: ring_bytes_def)
  have alone: "q = p" if "threads s q = Some (l, b)" "inside (l, b)" for q l b
    using one_inside [OF assms(1) that assms(3)] by simp
  show ?thesis
    unfolding data_ok_def goes_def insert_store_def
    using n same alone by (auto intro!: exI [of _ n] dest!: alone)
qed

lemma data_insert:
  assumes "books_ok 50 kf 1 s" "data_ok s" "threads s p = Some (P_advance c, False)"
  shows "data_ok (goes p P_leave False ((insert_advance s)\<lparr>inserted := inserted s @ [c]\<rparr>))"
proof -
  obtain n where n: "pc_w s = (pc_r s + n) mod 50" "inserted s = removed s @ ring_bytes (pc_buffer s) 0 50 (pc_r s) n"
    "length (inserted s) = length (removed s) + n" "pc_r s < 50" by (rule stock [OF assms(2)])
  have n50: "n < 50" using room_to_store [OF assms(1,3)] n(3) by simp
  have c: "pc_buffer s (pc_w s) = c" using assms(2,3) unfolding data_ok_def by blast
  have "(pc_buffer s)(0 + (pc_r s + n) mod 50 := c) = pc_buffer s" using c n(1) by (intro ext) simp
  with ring_bytes_put [OF n50, of "pc_buffer s" 0 "pc_r s" c]
  have r: "ring_bytes (pc_buffer s) 0 50 (pc_r s) (Suc n) = ring_bytes (pc_buffer s) 0 50 (pc_r s) n @ [c]" by simp
  have w: "(pc_w s + 1) mod 50 = (pc_r s + Suc n) mod 50" unfolding n(1) by (simp add: mod_Suc_eq)
  have alone: "q = p" if "threads s q = Some (l, b)" "inside (l, b)" for q l b
    using one_inside [OF assms(1) that assms(3)] by simp
  show ?thesis
    unfolding data_ok_def goes_def insert_advance_def pc_bufferSize_def
    using n(2,4) r w by (auto intro!: exI [of _ "Suc n"] dest!: alone)
qed

lemma data_remove:
  assumes "books_ok ke kf 1 s" "data_ok s" "threads s p = Some (C_advance c, False)"
  shows "data_ok (goes p (C_leave c) False ((remove_advance s)\<lparr>removed := removed s @ [c]\<rparr>))"
proof -
  obtain n where n: "pc_w s = (pc_r s + n) mod 50" "inserted s = removed s @ ring_bytes (pc_buffer s) 0 50 (pc_r s) n"
    "length (inserted s) = length (removed s) + n" "pc_r s < 50" by (rule stock [OF assms(2)])
  obtain k where k: "n = Suc k" using item_to_load [OF assms(1,3)] n(3) by (cases n) auto
  have c: "pc_buffer s (pc_r s) = c" using assms(2,3) unfolding data_ok_def by blast
  have r: "ring_bytes (pc_buffer s) 0 50 (pc_r s) n = c # ring_bytes (pc_buffer s) 0 50 (Suc (pc_r s) mod 50) k"
    using ring_bytes_get [OF n(4), of "pc_buffer s" 0 k] c k by simp
  have w: "pc_w s = (Suc (pc_r s) mod 50 + k) mod 50" using n(1) k by (simp add: mod_add_left_eq)
  have alone: "q = p" if "threads s q = Some (l, b)" "inside (l, b)" for q l b
    using one_inside [OF assms(1) that assms(3)] by simp
  show ?thesis
    unfolding data_ok_def goes_def remove_advance_def pc_bufferSize_def
    using n(2,4) r w by (auto intro!: exI [of _ k] dest!: alone)
qed

lemma data_load:
  assumes "data_ok s"
  shows "data_ok (goes p (C_advance (remove_load s)) False s)"
  using assms by (auto simp: data_ok_def goes_def remove_load_def)

section \<open>Runs\<close>

text \<open>A step, whatever was lost before.\<close>

lemma books_step:
  assumes "books_ok ke kf km s" "pc_step p s = Some t"
  shows "books_ok ke kf km t"
proof -
  from assms(2) obtain l where l: "threads s p = Some (l, False)"
    "t = (if is_producer l then producer_step p l s else consumer_step p l s)"
    by (auto simp: pc_step_def split: option.splits prod.splits bool.splits)
  note plain = books_plain [OF assms(1) l(1)]
  show ?thesis
  proof (cases l)
    case P_next
    show ?thesis using l(2) by (intro plain [where l' = "P_empty (ucast (pc_i s))" and i = 0 and r = 0]) (simp_all add: P_next is_producer_def goes_def)
  next
    case (P_empty c)
    then show ?thesis using l books_wait_empty [OF assms(1)] by (simp add: is_producer_def)
  next
    case (P_mutex c)
    then show ?thesis using l books_wait_item_P [OF assms(1)] by (simp add: is_producer_def)
  next
    case (P_store c)
    show ?thesis using l(2) by (intro plain [where l' = "P_advance c" and i = 0 and r = 0]) (simp_all add: P_store is_producer_def goes_def insert_store_def)
  next
    case (P_advance c)
    show ?thesis using l(2) by (intro plain [where l' = "P_leave" and i = 1 and r = 0]) (simp_all add: P_advance is_producer_def goes_def insert_advance_def)
  next
    case P_leave
    then show ?thesis using l books_signal_item_P [OF assms(1)] by (simp add: is_producer_def)
  next
    case P_full
    then show ?thesis using l books_signal_full [OF assms(1)] by (simp add: is_producer_def)
  next
    case C_full
    then show ?thesis using l books_wait_full [OF assms(1)] by (simp add: is_producer_def)
  next
    case C_mutex
    then show ?thesis using l books_wait_item_C [OF assms(1)] by (simp add: is_producer_def)
  next
    case C_load
    show ?thesis using l(2) by (intro plain [where l' = "C_advance (remove_load s)" and i = 0 and r = 0]) (simp_all add: C_load is_producer_def goes_def)
  next
    case (C_advance c)
    show ?thesis using l(2) by (intro plain [where l' = "C_leave c" and i = 0 and r = 1]) (simp_all add: C_advance is_producer_def goes_def remove_advance_def)
  next
    case (C_leave c)
    then show ?thesis using l books_signal_item_C [OF assms(1)] by (simp add: is_producer_def)
  next
    case (C_empty c)
    then show ?thesis using l books_signal_empty [OF assms(1)] by (simp add: is_producer_def)
  qed
qed

lemma data_step:
  assumes "books_ok 50 kf 1 s" "data_ok s" "pc_step p s = Some t"
  shows "data_ok t"
proof -
  from assms(3) obtain l where l: "threads s p = Some (l, False)"
    "t = (if is_producer l then producer_step p l s else consumer_step p l s)"
    by (auto simp: pc_step_def split: option.splits prod.splits bool.splits)
  note same = data_same [OF assms(2)] same_data_semaphores same_data_put
  show ?thesis
  proof (cases l)
    case P_next
    have "same_data s (s\<lparr>pc_i := pc_i s + 1\<rparr>)" by (auto simp: same_data_def)
    then have "same_data s (goes p (P_empty (ucast (pc_i s))) False (s\<lparr>pc_i := pc_i s + 1\<rparr>))"
      by (rule same_data_trans) (rule same_data_goes; simp)
    with P_next l(2) show ?thesis using same(1) by (simp add: is_producer_def)
  next
    case (P_store c)
    then show ?thesis using l data_store [OF assms(1,2)] by (simp add: is_producer_def)
  next
    case (P_advance c)
    then show ?thesis using l data_insert [OF assms(1,2)] by (simp add: is_producer_def)
  next
    case C_load
    then show ?thesis using l data_load [OF assms(2)] by (simp add: is_producer_def)
  next
    case (C_advance c)
    then show ?thesis using l data_remove [OF assms(1,2)] by (simp add: is_producer_def)
  qed (use l(2) in \<open>simp_all add: is_producer_def same\<close>)
qed

lemma books_more:
  assumes "books_ok ke kf km s" "threads s p = None" "p \<noteq> - 1" "card (dom (threads s)) < MAX_PRODUCER + MAX_CONSUMER"
    "l \<in> {P_next, C_full}"
  shows "books_ok ke kf km (goes p l False s)"
proof -
  note d = books_okD [OF assms(1)]
  have "card (insert p (dom (threads s))) \<le> 20"
    using assms(2,4) d(1) by (simp add: MAX_PRODUCER_def MAX_CONSUMER_def card_insert_if)
  then show ?thesis
    using d assms(2,3,5) by (auto simp: books_ok_def goes_def those_new headcount_new)
qed

lemma data_more: "data_ok s \<Longrightarrow> l \<in> {P_next, C_full} \<Longrightarrow> data_ok (goes p l False s)"
  by (rule data_same, assumption, rule same_data_goes) auto

lemma sem_ok_new: "0 \<le> n \<Longrightarrow> sem_ok (new_semaphore n)" "waiting (sem_queue (new_semaphore n)) = {#}"
  "ks.avail (new_semaphore n) = nat n"
  by (simp_all add: sem_ok_def new_semaphore_def ks.avail_def)

lemma those_none [simp]: "those Q (\<lambda>_. None) = {#}" "headcount Q (\<lambda>_. None) = 0"
  by (simp_all add: those_def headcount_def)

lemma start_ok:
  assumes "p \<noteq> c" "p \<noteq> - 1" "c \<noteq> - 1"
  shows "books_ok 50 0 1 (pc_start p c)" "data_ok (pc_start p c)"
proof -
  show "books_ok 50 0 1 (pc_start p c)"
    using assms by (auto simp: books_ok_def pc_start_def sem_ok_new those_new headcount_new pc_bufferSize_def)
  show "data_ok (pc_start p c)" by (auto simp: data_ok_def pc_start_def intro!: exI [of _ 0])
qed

lemma runs_books: "pc_runs s0 s \<Longrightarrow> books_ok ke kf km s0 \<Longrightarrow> books_ok ke kf km s"
  by (induction rule: pc_runs.induct) (blast intro: books_step books_more)+

lemma runs_data: "pc_runs s0 s \<Longrightarrow> books_ok 50 kf 1 s0 \<Longrightarrow> data_ok s0 \<Longrightarrow> data_ok s"
  by (induction rule: pc_runs.induct) (blast intro: data_step data_more runs_books)+

lemma pc_reach_ok: "pc_reach s \<Longrightarrow> books_ok 50 0 1 s \<and> data_ok s"
  unfolding pc_reach_def using runs_books runs_data start_ok by blast

text \<open>After a process has been removed while it was inside, the unit it held is lost.\<close>

lemma those_remove:
  assumes "finite (dom T)" "T p = Some x"
  shows "those Q T = those Q (T(p := None)) + (if Q x then {#p#} else {#})"
  using those_new [of "T(p := None)" p Q x] assms by (simp add: fun_upd_idem)

lemma books_kills:
  assumes "books_ok 50 0 1 s" "threads s p = Some x" "inside x"
  shows "\<exists>ke kf. books_ok ke kf 0 (kills p s)"
proof -
  note d = books_okD [OF assms(1)]
  have away: "\<not> at_empty x" "\<not> at_full x" "\<not> at_item x" using assms(3) by (cases x; cases "fst x"; auto)+
  have hc: "headcount Q (threads s) = headcount Q ((threads s)(p := None)) + of_bool (Q x)" for Q
    using those_remove [OF d(1) assms(2), of Q] by (simp add: headcount_def)
  have "card (dom (threads s) - {p}) \<le> 20" using d(2) card_Diff1_le [of "dom (threads s)" p] by linarith
  then have "books_ok (50 - of_bool (has_place x) - of_bool (has_taken x)) (of_bool (has_item x) + of_bool (has_put x)) 0 (kills p s)"
    unfolding books_ok_def kills_def
    using d away those_remove [OF d(1) assms(2), of at_empty] those_remove [OF d(1) assms(2), of at_full]
      those_remove [OF d(1) assms(2), of at_item] hc [of has_place] hc [of has_taken] hc [of has_item] hc [of has_put]
      hc [of inside] assms(3)
    by (auto simp: of_bool_def split: if_splits)
  then show ?thesis by blast
qed

lemma locked_out:
  assumes "books_ok ke kf 0 s"
  shows "threads s p = Some x \<Longrightarrow> \<not> inside x"
    and "pc_step p s = Some t \<Longrightarrow> inserted t = inserted s \<and> removed t = removed s"
proof -
  show out: "\<not> inside x" if "threads s p = Some x" for p x
    using headcount_pos [where Q = inside, OF books_okD(1) [OF assms] that] books_okD(12) [OF assms] by auto
  show "inserted t = inserted s \<and> removed t = removed s" if step: "pc_step p s = Some t"
  proof -
    from step obtain l where l: "threads s p = Some (l, False)"
      "t = (if is_producer l then producer_step p l s else consumer_step p l s)"
      by (auto simp: pc_step_def split: option.splits prod.splits bool.splits)
    have keep: "same_data s (waits_for g h p m s)" "same_data s (signals_to g h p m s)"
      if "\<And>c. m \<noteq> P_advance c" "\<And>c. m \<noteq> C_advance c" "h \<in> {put_item, put_full, put_empty}" for g h m
      using that same_data_put by (auto intro!: same_data_semaphores)
    show ?thesis using out [OF l(1)] l(2) keep
      by (cases l) (auto simp: is_producer_def goes_def insert_store_def same_data_def)
  qed
qed

lemma runs_locked_out:
  "pc_runs s0 s \<Longrightarrow> books_ok ke kf 0 s0 \<Longrightarrow> inserted s = inserted s0 \<and> removed s = removed s0"
proof (induction rule: pc_runs.induct)
  case (step s p t)
  then show ?case using locked_out(2) [OF runs_books [OF step(1) step.prems]] by simp
qed (simp_all add: goes_def)

text \<open>
  C29: in every run of up to ten producers and ten consumers, none of them removed, however the
  scheduler interleaves their statements, the buffer is a queue: what has been inserted is what has been removed
  followed by the at most 50 characters that the buffer holds; a producer that is about to
  store finds a free place, a consumer that is about to load finds a character, and at most
  one process is between its \<open>wait\<close> and its \<open>signal\<close> on \<open>itemMutex\<close>.
\<close>

theorem prodCons_is_queue:
  assumes "pc_reach s"
  shows "\<exists>n \<le> 50. inserted s = removed s @ ring_bytes (pc_buffer s) 0 50 (pc_r s) n \<and>
    (\<forall>p c. threads s p = Some (P_store c, False) \<longrightarrow> n < 50) \<and>
    (\<forall>p. threads s p = Some (C_load, False) \<longrightarrow> 0 < n) \<and>
    (\<forall>p q x y. threads s p = Some x \<longrightarrow> inside x \<longrightarrow> threads s q = Some y \<longrightarrow> inside y \<longrightarrow> p = q)"
proof -
  have ok: "books_ok 50 0 1 s" "data_ok s" using pc_reach_ok [OF assms] by simp_all
  obtain n where n: "inserted s = removed s @ ring_bytes (pc_buffer s) 0 50 (pc_r s) n"
    "length (inserted s) = length (removed s) + n" by (rule stock [OF ok(2)])
  have "n \<le> 50" using books_okD(10) [OF ok(1)] n(2) by linarith
  moreover have "n < 50" if "threads s p = Some (P_store c, False)" for p c
    using room_to_store [OF ok(1) that] n(2) by simp
  moreover have "0 < n" if "threads s p = Some (C_load, False)" for p
    using item_to_load [OF ok(1) that] n(2) by simp
  ultimately show ?thesis using n(1) one_inside [OF ok(1)] by blast
qed


text \<open>
  C31: when \<open>control\<close> removes a producer or a consumer that is between its \<open>wait\<close> and its \<open>signal\<close>
  on \<open>itemMutex\<close>, the program never moves another character: whatever the other processes
  do and however many are started, nobody gets inside again.
\<close>

theorem removal_inside_stops_all:
  assumes "pc_reach s" "threads s p = Some x" "inside x" "pc_runs (kills p s) t"
  shows "(\<forall>q y. threads t q = Some y \<longrightarrow> \<not> inside y) \<and> inserted t = inserted s \<and> removed t = removed s"
proof -
  obtain ke kf where b: "books_ok ke kf 0 (kills p s)"
    using books_kills [OF conjunct1 [OF pc_reach_ok [OF assms(1)]] assms(2,3)] by blast
  have "inserted t = inserted (kills p s) \<and> removed t = removed (kills p s)" by (rule runs_locked_out [OF assms(4) b])
  then show ?thesis using locked_out(1) [OF runs_books [OF assms(4) b]] by (auto simp: kills_def)
qed

section \<open>Examples\<close>

fun pc_schedule :: "int list \<Rightarrow> pc_state \<Rightarrow> pc_state option" where
  "pc_schedule [] s = Some s"
| "pc_schedule (p # ps) s = (case pc_step p s of None \<Rightarrow> None | Some t \<Rightarrow> pc_schedule ps t)"

lemma pc_schedule_runs: "pc_runs s0 s \<Longrightarrow> pc_schedule ps s = Some t \<Longrightarrow> pc_runs s0 t"
  by (induction ps arbitrary: s) (auto split: option.splits intro: pc_runs.step)

lemmas pc_eval = pc_step_def is_producer_def waits_for_def signals_to_def goes_def wakes_def put_item_def put_full_def
  put_empty_def insert_store_def insert_advance_def sem_acquire_def sem_release_def pc_start_def new_semaphore_def
  pc_bufferSize_def

text \<open>A producer that stores a character while the consumer waits for it.\<close>

lemma ex_run:
  "\<exists>s. pc_schedule [1, 1, 2, 1, 1, 1] (pc_start 1 2) = Some s \<and> inserted s = [0] \<and> removed s = [] \<and>
     threads s 1 = Some (P_leave, False) \<and> pc_reach s"
proof -
  let ?r = "pc_schedule [1, 1, 2, 1, 1, 1] (pc_start 1 2)"
  have "\<exists>s. ?r = Some s \<and> inserted s = [0] \<and> removed s = [] \<and> threads s 1 = Some (P_leave, False)"
    by (simp add: pc_eval clearArray_def MAX_BLOCKED_QUEUE_SIZE_def queue_put_def getFreeSpotInBlockedQueue_def
        NO_BLOCKED_QUEUE_VALUE_def NO_SPACE_LEFT_M_def)
  moreover have "pc_reach s" if "?r = Some s" for s
    unfolding pc_reach_def using pc_schedule_runs [OF pc_runs.here that]
    by (intro exI [of _ 1] exI [of _ 2]) simp
  ultimately show ?thesis by blast
qed

theorem prodCons_is_queue_witness:
  "\<exists>s n. pc_schedule [1, 1, 2, 1, 1, 1] (pc_start 1 2) = Some s \<and> n \<le> 50 \<and>
     [0] = [] @ ring_bytes (pc_buffer s) 0 50 (pc_r s) n"
proof -
  obtain s where s: "pc_schedule [1, 1, 2, 1, 1, 1] (pc_start 1 2) = Some s" "inserted s = [0]" "removed s = []" "pc_reach s"
    using ex_run by blast
  from prodCons_is_queue [OF s(4)] s(1-3) show ?thesis by metis
qed

theorem removal_inside_stops_all_witness:
  "\<exists>s. pc_schedule [1, 1, 2, 1, 1, 1] (pc_start 1 2) = Some s \<and> inserted (goes 3 P_next False (kills 1 s)) = [0]"
proof -
  obtain s where s: "pc_schedule [1, 1, 2, 1, 1, 1] (pc_start 1 2) = Some s" "inserted s = [0]" "pc_reach s"
    "threads s 1 = Some (P_leave, False)" using ex_run by blast
  from removal_inside_stops_all [OF s(3,4) _ pc_runs.here] s(1,2) show ?thesis by (auto simp: goes_def)
qed

end
