(* ===== verification/Alive.thy ===== *)
theory Alive
  imports ProdCons
begin

text \<open>
  Progress of the producers and consumers of theory \<open>ProdCons\<close>: a state in which all of them wait
  would contradict the books of the three semaphores.
\<close>

section \<open>Steps and roles\<close>

text \<open>What a step does to the crowd: its process goes on, is blocked by a semaphore, or wakes another one.\<close>

definition may_block :: "place \<Rightarrow> bool" where
  "may_block l \<longleftrightarrow> at_empty (l, True) \<or> at_full (l, True) \<or> at_item (l, True)"

definition moves_to :: "int \<Rightarrow> place \<Rightarrow> pc_state \<Rightarrow> pc_state \<Rightarrow> bool" where
  "moves_to p l s t \<longleftrightarrow> (\<exists>b q. threads t = woken q ((threads s)(p := Some (l, b))) \<and> (b \<longrightarrow> may_block l))"

lemma moves_goes: "threads u = threads s \<Longrightarrow> moves_to p l s (goes p l False u)"
  unfolding moves_to_def by (intro exI [of _ False] exI [of _ None]) (simp add: goes_def)

lemma moves_waits: "(\<And>m. threads (put m s) = threads s) \<Longrightarrow> may_block l \<Longrightarrow> moves_to p l s (waits_for get put p l s)"
  unfolding moves_to_def waits_for_def
  by (intro exI [of _ "\<not> fst (sem_acquire p (get s))"] exI [of _ None]) (simp add: goes_def case_prod_beta)

lemma moves_signals: "(\<And>m. threads (put m s) = threads s) \<Longrightarrow> moves_to p l s (signals_to get put p l s)"
  unfolding moves_to_def signals_to_def
  by (intro exI [of _ False] exI [of _ "fst (sem_release (get s))"]) (simp add: goes_def wakes_def case_prod_beta)

lemma threads_puts [simp]:
  "threads (put_item m s) = threads s" "threads (put_full m s) = threads s" "threads (put_empty m s) = threads s"
  "threads (insert_store c s) = threads s" "threads (insert_advance s) = threads s" "threads (remove_advance s) = threads s"
  by (simp_all add: put_item_def put_full_def put_empty_def insert_store_def insert_advance_def remove_advance_def)

lemma step_moves:
  assumes "pc_step p s = Some t"
  obtains l l' where "threads s p = Some (l, False)" "moves_to p l' s t" "is_producer l' = is_producer l"
proof -
  from assms obtain l where l: "threads s p = Some (l, False)"
    "t = (if is_producer l then producer_step p l s else consumer_step p l s)"
    by (auto simp: pc_step_def split: option.splits prod.splits bool.splits)
  have "\<exists>l'. moves_to p l' s t \<and> is_producer l' = is_producer l"
    unfolding l(2) by (cases l) (auto simp: is_producer_def may_block_def intro!: exI conjI moves_goes moves_waits moves_signals)
  with l(1) show ?thesis using that by blast
qed

text \<open>Who is blocked is blocked by a semaphore, and the producers and consumers of the start stay what they are.\<close>

definition roles_ok :: "int \<Rightarrow> int \<Rightarrow> pc_state \<Rightarrow> bool" where
  "roles_ok p c s \<longleftrightarrow> (\<forall>q l. threads s q = Some (l, True) \<longrightarrow> may_block l) \<and>
     (\<exists>l b. threads s p = Some (l, b) \<and> is_producer l) \<and> (\<exists>l b. threads s c = Some (l, b) \<and> \<not> is_producer l)"

lemma roles_step:
  assumes "roles_ok p c s" "pc_step r s = Some t"
  shows "roles_ok p c t"
proof -
  obtain l l' b q where m: "threads s r = Some (l, False)" "is_producer l' = is_producer l"
    "threads t = woken q ((threads s)(r := Some (l', b)))" "b \<longrightarrow> may_block l'"
    using step_moves [OF assms(2)] unfolding moves_to_def by metis
  have "may_block k" if "threads t u = Some (k, True)" for u k
    using woken_cases [OF that [unfolded m(3)]] assms(1) m(4) by (auto simp: roles_ok_def split: if_splits)
  moreover have "\<exists>k b. threads t u = Some (k, b) \<and> is_producer k = is_producer j" if "threads s u = Some (j, b')" for u j b'
  proof (cases "u = r")
    case True
    then show ?thesis using woken_there [of "(threads s)(r := Some (l', b))" r l' b q] that m(1,2) unfolding m(3) by auto
  next
    case False
    then show ?thesis using woken_there [of "(threads s)(r := Some (l', b))" u j b' q] that unfolding m(3) by auto
  qed
  ultimately show ?thesis using assms(1) unfolding roles_ok_def by metis
qed

lemma roles_runs: "pc_runs s0 s \<Longrightarrow> roles_ok p c s0 \<Longrightarrow> roles_ok p c s"
proof (induction rule: pc_runs.induct)
  case (more s q l)
  then show ?case by (auto simp: roles_ok_def goes_def)
qed (blast intro: roles_step)+

section \<open>Somebody can always go on\<close>

lemma somebody_goes_on:
  assumes "books_ok 50 0 1 s" "roles_ok p c s"
  shows "\<exists>q l. threads s q = Some (l, False)"
proof (rule ccontr)
  assume "\<not> ?thesis"
  then have all: "b" if "threads s q = Some (l, b)" for q l b using that by (cases b) auto
  note d = books_okD [OF assms(1)]
  have blocked: "may_block l" "b" if "threads s q = Some (l, b)" for q l b
    using assms(2) all [OF that] that by (auto simp: roles_ok_def)
  have none: "\<not> has_taken (l, True)" "\<not> has_put (l, True)" "\<not> inside (l, True)" "\<not> has_place (l, True) \<or> at_item (l, True)"
    "\<not> has_item (l, True) \<or> at_item (l, True)" if "may_block l" for l
    using that by (cases l; simp add: may_block_def)+
  have inside: "headcount inside (threads s) = 0" using blocked none
    by (intro headcount_none [OF d(1)]) (metis (full_types) surj_pair)
  have "\<not> at_item (l, True)" if "threads s q = Some (l, b)" for q l b
  proof
    assume "at_item (l, True)"
    then have "q \<in># those at_item (threads s)" using that all [OF that] those_iff [OF d(1), of q at_item] by auto
    then have "ks.avail (itemMutex s) = 0" using ks.waiting_empty [OF d(6)] d(9) by force
    then show False using inside d(12) by simp
  qed
  note free = this
  have "headcount has_place (threads s) = 0" "headcount has_item (threads s) = 0" "headcount has_taken (threads s) = 0"
    "headcount has_put (threads s) = 0"
    by (rule headcount_none [OF d(1)]; use blocked none free in fastforce)+
  moreover have "ks.avail (emptyCount s) = 0"
  proof -
    obtain l b where l: "threads s p = Some (l, b)" "is_producer l" using assms(2) by (auto simp: roles_ok_def)
    then have "at_empty (l, b)" using blocked [OF l(1)] free [OF l(1)] by (cases l) (simp_all add: may_block_def is_producer_def)
    then have "p \<in># those at_empty (threads s)" using l(1) those_iff [OF d(1), of p at_empty] by auto
    then show ?thesis using ks.waiting_empty [OF d(4)] d(7) by force
  qed
  moreover have "ks.avail (fullCount s) = 0"
  proof -
    obtain l b where l: "threads s c = Some (l, b)" "\<not> is_producer l" using assms(2) by (auto simp: roles_ok_def)
    then have "at_full (l, b)" using blocked [OF l(1)] free [OF l(1)] by (cases l) (simp_all add: may_block_def is_producer_def)
    then have "c \<in># those at_full (threads s)" using l(1) those_iff [OF d(1), of c at_full] by auto
    then show ?thesis using ks.waiting_empty [OF d(5)] d(8) by force
  qed
  ultimately show False using d(10,11) by simp
qed

text \<open>
  C30: Producers and consumers never block each other for good: in every state that they reach, at
  least one of the processes can take its next step.
\<close>

theorem prodCons_never_deadlocks:
  assumes "pc_reach s"
  shows "\<exists>p t. pc_step p s = Some t"
proof -
  obtain p c where r: "p \<noteq> c" "pc_runs (pc_start p c) s" using assms by (auto simp: pc_reach_def)
  have "roles_ok p c (pc_start p c)" using r(1) by (auto simp: roles_ok_def pc_start_def is_producer_def)
  then have "roles_ok p c s" using roles_runs [OF r(2)] by blast
  with pc_reach_ok [OF assms] obtain q l where "threads s q = Some (l, False)" using somebody_goes_on by blast
  then have "\<exists>t. pc_step q s = Some t" by (simp add: pc_step_def)
  then show ?thesis by (rule exI)
qed

theorem prodCons_never_deadlocks_witness:
  "\<exists>s p t. pc_schedule [1, 1, 2, 1, 1, 1] (pc_start 1 2) = Some s \<and> pc_step p s = Some t"
proof -
  obtain s where s: "pc_schedule [1, 1, 2, 1, 1, 1] (pc_start 1 2) = Some s" "pc_reach s" using ex_run by blast
  with prodCons_never_deadlocks [OF s(2)] show ?thesis by blast
qed

end
