(* ===== verification/Philosophers.thy ===== *)
theory Philosophers
  imports Crowd
begin

text \<open>
  The dining philosophers of \<open>Userland/dummy/dummy.c\<close>: an array of states that a mutex protects,
  and a semaphore for each philosopher. A step is one statement of one philosopher; the mutex
  and the semaphores are those of the kernel. The lemmas show that two neighbours are never
  both \<open>EATING\<close> in the array, and that philosophers all the same do not wait for their forks.
\<close>

section \<open>The program\<close>

definition DEFAULTP :: nat where "DEFAULTP = 5"
definition THINKING :: int where "THINKING = 0"
definition HUNGRY :: int where "HUNGRY = 1"
definition EATING :: int where "EATING = 2"

text \<open>
  Where a philosopher is in \<open>take_fork\<close> and \<open>put_fork\<close>; the three parts of \<open>testP\<close> carry the number
  that is tested and where the call returns to.
\<close>

datatype ph_next = To_take_free | To_right | To_put_free

datatype ph_place = Take_lock | Take_hungry | Test nat ph_next | Eat nat ph_next | Tell nat ph_next | Take_free | Take_wait
  | Put_lock | Put_thinking | Put_free

text \<open>
  The array \<open>state\<close>, the mutex, the semaphores of the kernel, the array of pointers that
  \<open>createThreads\<close> passes on as \<open>sems\<close>, and the philosophers, each a process of its own number.
\<close>

record ph_state =
  states :: "int list"
  ph_mutex :: Mutex
  ph_table :: "Semaphore list"
  ph_sems :: "64 word list"
  philos :: "ph_place crowd"

text \<open>
  \<open>*(sems + i)\<close>: the cast makes an array of \<open>int\<close> of the array of pointers, so that it reads one
  half of a pointer.
\<close>

definition sem_arg :: "64 word list \<Rightarrow> nat \<Rightarrow> int" where
  "sem_arg ptrs i = sint (ucast (drop_bit (32 * (i mod 2)) (ptrs ! (i div 2))) :: 32 word)"

definition ph_goes :: "nat \<Rightarrow> ph_place \<Rightarrow> bool \<Rightarrow> ph_state \<Rightarrow> ph_state" where
  "ph_goes i l b s = s\<lparr>philos := (philos s)(int i := Some (l, b))\<rparr>"

definition ph_wakes :: "int option \<Rightarrow> ph_state \<Rightarrow> ph_state" where
  "ph_wakes q s = s\<lparr>philos := woken q (philos s)\<rparr>"

text \<open>
  \<open>wait\<close> and \<open>signal\<close>: an index behind the table or of an unused place is refused, which the
  program does not see; one in front of the table is read (\<open>None\<close>).
\<close>

definition ph_semaphore :: "int \<Rightarrow> ph_state \<Rightarrow> nat option option" where
  "ph_semaphore k s =
     (if k \<ge> int MAX_SEMAPHORES then Some None
      else if k < 0 then None
      else Some (if sem_used (ph_table s ! nat k) then Some (nat k) else None))"

definition ph_wait :: "nat \<Rightarrow> int \<Rightarrow> ph_place \<Rightarrow> ph_state \<Rightarrow> ph_state option" where
  "ph_wait i sem l s =
     map_option (\<lambda>found. case found of
         None \<Rightarrow> ph_goes i l False s
       | Some k \<Rightarrow>
           let (go, m) = sem_acquire (int i) (ph_table s ! k)
           in ph_goes i l (\<not> go) (s\<lparr>ph_table := (ph_table s)[k := m]\<rparr>)) (ph_semaphore sem s)"

definition ph_signal :: "nat \<Rightarrow> int \<Rightarrow> ph_place \<Rightarrow> ph_state \<Rightarrow> ph_state option" where
  "ph_signal i sem l s =
     map_option (\<lambda>found. case found of
         None \<Rightarrow> ph_goes i l False s
       | Some k \<Rightarrow>
           let (q, m) = sem_release (ph_table s ! k)
           in ph_wakes q (ph_goes i l False (s\<lparr>ph_table := (ph_table s)[k := m]\<rparr>))) (ph_semaphore sem s)"

definition ph_lock :: "nat \<Rightarrow> ph_place \<Rightarrow> ph_state \<Rightarrow> ph_state" where
  "ph_lock i l s = (let (go, m) = mutex_acquire (int i) (ph_mutex s) in ph_goes i l (\<not> go) (s\<lparr>ph_mutex := m\<rparr>))"

definition ph_free :: "nat \<Rightarrow> ph_place \<Rightarrow> ph_state \<Rightarrow> ph_state" where
  "ph_free i l s = (let (q, m) = mutex_release (ph_mutex s) in ph_wakes q (ph_goes i l False (s\<lparr>ph_mutex := m\<rparr>)))"

text \<open>The test of \<open>testP\<close>, and where it returns to.\<close>

definition may_eat :: "nat \<Rightarrow> nat \<Rightarrow> int list \<Rightarrow> bool" where
  "may_eat number cant st \<longleftrightarrow>
     st ! number = HUNGRY \<and> st ! ((number + 4) mod cant) \<noteq> EATING \<and> st ! ((number + 1) mod cant) \<noteq> EATING"

fun ph_after :: "nat \<Rightarrow> nat \<Rightarrow> ph_next \<Rightarrow> ph_place" where
  "ph_after cant i To_take_free = Take_free"
| "ph_after cant i To_right = Test ((i + 1) mod cant) To_put_free"
| "ph_after cant i To_put_free = Put_free"

text \<open>One statement of philosopher \<open>i\<close>.\<close>

fun testP :: "nat \<Rightarrow> nat \<Rightarrow> ph_place \<Rightarrow> ph_state \<Rightarrow> ph_state option" where
  "testP cant i (Test number k) s =
     Some (ph_goes i (if may_eat number cant (states s) then Eat number k else ph_after cant i k) False s)"
| "testP cant i (Eat number k) s = Some (ph_goes i (Tell number k) False (s\<lparr>states := (states s)[number := EATING]\<rparr>))"
| "testP cant i (Tell number k) s = ph_signal i (sem_arg (ph_sems s) number) (ph_after cant i k) s"
| "testP cant i _ s = None"

fun take_fork :: "nat \<Rightarrow> nat \<Rightarrow> ph_place \<Rightarrow> ph_state \<Rightarrow> ph_state option" where
  "take_fork cant i Take_lock s = Some (ph_lock i Take_hungry s)"
| "take_fork cant i Take_hungry s = Some (ph_goes i (Test i To_take_free) False (s\<lparr>states := (states s)[i := HUNGRY]\<rparr>))"
| "take_fork cant i Take_free s = Some (ph_free i Take_wait s)"
| "take_fork cant i Take_wait s = ph_wait i (sem_arg (ph_sems s) i) Put_lock s"
| "take_fork cant i _ s = None"

fun put_fork :: "nat \<Rightarrow> nat \<Rightarrow> ph_place \<Rightarrow> ph_state \<Rightarrow> ph_state option" where
  "put_fork cant i Put_lock s = Some (ph_lock i Put_thinking s)"
| "put_fork cant i Put_thinking s =
     Some (ph_goes i (Test ((i + 4) mod cant) To_right) False (s\<lparr>states := (states s)[i := THINKING]\<rparr>))"
| "put_fork cant i Put_free s = Some (ph_free i Take_lock s)"
| "put_fork cant i _ s = None"

definition philospher :: "nat \<Rightarrow> nat \<Rightarrow> ph_state \<Rightarrow> ph_state option" where
  "philospher cant i s =
     (case philos s (int i) of
        Some (l, False) \<Rightarrow>
          (if l \<in> {Take_lock, Take_hungry, Take_free, Take_wait} then take_fork cant i l s
           else if l \<in> {Put_lock, Put_thinking, Put_free} then put_fork cant i l s
           else testP cant i l s)
      | _ \<Rightarrow> None)"

text \<open>\<open>createThreads\<close> starts one philosopher after the other while the first ones already run.\<close>

inductive ph_runs :: "ph_state \<Rightarrow> ph_state \<Rightarrow> bool" for s0 where
  here: "ph_runs s0 s0"
| step: "ph_runs s0 s \<Longrightarrow> i < DEFAULTP \<Longrightarrow> philospher DEFAULTP i s = Some t \<Longrightarrow> ph_runs s0 t"
| create: "ph_runs s0 s \<Longrightarrow> i < DEFAULTP \<Longrightarrow> philos s (int i) = None \<Longrightarrow> ph_runs s0 (ph_goes i Take_lock False s)"

text \<open>The start of \<open>dPhilosphers\<close>: nobody uses the mutex or a semaphore; the array is as the stack has it.\<close>

definition ph_start :: "ph_state \<Rightarrow> bool" where
  "ph_start s \<longleftrightarrow> length (states s) = DEFAULTP \<and> philos s = Map.empty \<and>
     mutex_ok (ph_mutex s) \<and> m_mutex (ph_mutex s) = 0 \<and> length (ph_table s) = MAX_SEMAPHORES \<and>
     (\<forall>m \<in> set (ph_table s). sem_ok m \<and> waiting (sem_queue m) = {#})"


section \<open>The books\<close>

text \<open>Who is inside the mutex, who waits for it, and who waits for a fork.\<close>

fun inside :: "ph_place \<times> bool \<Rightarrow> bool" where
  "inside (l, b) \<longleftrightarrow> l \<notin> {Take_lock, Take_wait, Put_lock} \<and> \<not> (b \<and> l \<in> {Take_hungry, Put_thinking})"

fun lock_wait :: "ph_place \<times> bool \<Rightarrow> bool" where
  "lock_wait (l, b) \<longleftrightarrow> b \<and> l \<in> {Take_hungry, Put_thinking}"

fun fork_wait :: "ph_place \<times> bool \<Rightarrow> bool" where
  "fork_wait (l, b) \<longleftrightarrow> b \<and> l = Put_lock"

definition sleepers :: "Semaphore list \<Rightarrow> int multiset" where
  "sleepers tab = (\<Sum>m\<leftarrow>tab. waiting (sem_queue m))"

definition ph_books :: "ph_state \<Rightarrow> bool" where
  "ph_books s \<longleftrightarrow>
     dom (philos s) \<subseteq> int ` {..<DEFAULTP} \<and>
     mutex_ok (ph_mutex s) \<and> waiting (m_queue (ph_mutex s)) = those lock_wait (philos s) \<and>
     km.avail (ph_mutex s) + headcount inside (philos s) = 1 \<and>
     length (ph_table s) = MAX_SEMAPHORES \<and> (\<forall>m \<in> set (ph_table s). sem_ok m) \<and>
     sleepers (ph_table s) = those fork_wait (philos s)"

lemma sleepers_upd:
  "k < length tab \<Longrightarrow> sleepers (tab[k := m]) + waiting (sem_queue (tab ! k)) = sleepers tab + waiting (sem_queue m)"
proof (induction tab arbitrary: k)
  case (Cons a tab)
  then show ?case by (cases k) (auto simp: sleepers_def ac_simps)
qed simp

lemma sleepers_ge: "k < length tab \<Longrightarrow> waiting (sem_queue (tab ! k)) \<subseteq># sleepers tab"
proof (induction tab arbitrary: k)
  case (Cons a tab)
  then show ?case by (cases k) (auto simp: sleepers_def intro: subset_mset.add_increasing)
qed simp

lemma ph_books_finite:
  assumes "ph_books s"
  shows "finite (dom (philos s))" "card (dom (philos s)) \<le> MAX_BLOCKED_QUEUE_SIZE"
proof -
  have d: "dom (philos s) \<subseteq> int ` {..<DEFAULTP}" using assms by (simp add: ph_books_def)
  show "finite (dom (philos s))" by (rule finite_subset [OF d]) simp
  have "card (dom (philos s)) \<le> card (int ` {..<DEFAULTP})" by (rule card_mono [OF _ d]) simp
  also have "\<dots> \<le> DEFAULTP" using card_image_le [of "{..<DEFAULTP}" int] by simp
  finally show "card (dom (philos s)) \<le> MAX_BLOCKED_QUEUE_SIZE" by (simp add: DEFAULTP_def MAX_BLOCKED_QUEUE_SIZE_def)
qed

lemma ph_goes_sel [simp]:
  "states (ph_goes i l b s) = states s" "ph_mutex (ph_goes i l b s) = ph_mutex s" "ph_table (ph_goes i l b s) = ph_table s"
  "philos (ph_goes i l b s) = (philos s)(int i := Some (l, b))"
  by (simp_all add: ph_goes_def)

lemma books_move:
  assumes "ph_books s" "philos s (int i) = Some (l, False)" "inside (l, False) = inside (l', False)"
    and "ph_mutex t = ph_mutex s" "ph_table t = ph_table s" "philos t = (philos s)(int i := Some (l', False))"
  shows "ph_books t"
proof -
  note fin = ph_books_finite [OF assms(1)]
  have "those lock_wait (philos t) = those lock_wait (philos s)" "those fork_wait (philos t) = those fork_wait (philos s)"
    "headcount inside (philos t) = headcount inside (philos s)"
    unfolding assms(6) headcount_def
    using those_same [OF fin(1) assms(2), of lock_wait "(l', False)"] those_same [OF fin(1) assms(2), of fork_wait "(l', False)"]
      those_same [OF fin(1) assms(2), of inside "(l', False)"] assms(3) by (simp_all only: lock_wait.simps fork_wait.simps simp_thms)
  moreover have "dom (philos t) = dom (philos s)" unfolding assms(6) using assms(2) by auto
  ultimately show ?thesis using assms(1,4,5) by (simp add: ph_books_def)
qed

lemma books_lock:
  assumes "ph_books s" "philos s (int i) = Some (l, False)" "\<not> inside (l, False)" "l' \<in> {Take_hungry, Put_thinking}"
  shows "ph_books (ph_lock i l' s)"
proof -
  note fin = ph_books_finite [OF assms(1)]
  have inv: "mutex_ok (ph_mutex s)" "waiting (m_queue (ph_mutex s)) = those lock_wait (philos s)"
    "km.avail (ph_mutex s) + headcount inside (philos s) = 1" using assms(1) by (simp_all add: ph_books_def)
  obtain b m' where m': "mutex_acquire (int i) (ph_mutex s) = (b, m')" "mutex_ok m'"
    "waiting (m_queue m') = those lock_wait ((philos s)(int i := Some (l', \<not> b)))" "km.avail m' + of_bool b = km.avail (ph_mutex s)"
    by (rule km.acquire_books [where W = lock_wait and l = l', OF inv(1,2) fin assms(2)])
       (use assms(4) in \<open>auto simp: NO_BLOCKED_QUEUE_VALUE_def\<close>)
  have "headcount inside ((philos s)(int i := Some (l', \<not> b))) = headcount inside (philos s) + of_bool b"
    using headcount_upd [OF fin(1) assms(2), of inside "(l', \<not> b)"] assms(3,4) by auto
  moreover have "those fork_wait ((philos s)(int i := Some (l', \<not> b))) = those fork_wait (philos s)"
    by (rule those_same [OF fin(1) assms(2)]) (use assms(4) in auto)
  moreover have "dom ((philos s)(int i := Some (l', \<not> b))) = dom (philos s)" using assms(2) by auto
  ultimately show ?thesis using assms(1) m' inv(3) by (simp add: ph_books_def ph_lock_def)
qed


lemma books_free:
  assumes "ph_books s" "philos s (int i) = Some (l, False)" "inside (l, False)" "\<not> inside (l', False)"
  shows "ph_books (ph_free i l' s)"
proof -
  note fin = ph_books_finite [OF assms(1)]
  let ?T = "(philos s)(int i := Some (l', False))"
  have inv: "mutex_ok (ph_mutex s)" "waiting (m_queue (ph_mutex s)) = those lock_wait (philos s)"
    "km.avail (ph_mutex s) + headcount inside (philos s) = 1" using assms(1) by (simp_all add: ph_books_def)
  have "0 < headcount inside (philos s)" by (rule headcount_pos [where Q = inside, OF fin(1) assms(2,3)])
  then have taken: "m_mutex (ph_mutex s) \<noteq> 0" using inv(3) by (auto simp: km.avail_def)
  have inside_T: "headcount inside ?T + 1 = headcount inside (philos s)"
    using headcount_upd [OF fin(1) assms(2), of inside "(l', False)"] assms(3,4) by (simp del: inside.simps)
  have dom_T: "dom ?T = dom (philos s)" using assms(2) by auto
  have fork_T: "those fork_wait ?T = those fork_wait (philos s)" by (rule those_same [OF fin(1) assms(2)]) simp
  obtain q m' where r: "mutex_release (ph_mutex s) = (q, m')" "mutex_ok m'" "waiting (m_queue m') = those lock_wait (woken q ?T)"
    "\<forall>H. (\<forall>k. lock_wait (k, True) \<longrightarrow> \<not> H (k, True) \<and> H (k, False)) \<longrightarrow>
       km.avail m' + headcount H (woken q ?T) = Suc (km.avail (ph_mutex s)) + headcount H ?T"
    "\<forall>Q. (\<forall>k. lock_wait (k, True) \<longrightarrow> Q (k, True) = Q (k, False)) \<longrightarrow>
       those Q (woken q ?T) = those Q ?T \<and> headcount Q (woken q ?T) = headcount Q ?T"
    by (rule km.release_books [OF inv(1) taken inv(2) fin(1) assms(2), of "(l', False)"]) (simp, simp, simp, rule that, assumption+)
  have "lock_wait (k, True) \<Longrightarrow> \<not> inside (k, True) \<and> inside (k, False)" for k by auto
  from r(4) [rule_format, OF this] have "km.avail m' + headcount inside (woken q ?T) = 1" using inside_T inv(3) by simp
  moreover have "those fork_wait (woken q ?T) = those fork_wait ?T" using r(5) [rule_format, of fork_wait] by auto
  ultimately show ?thesis using assms(1) r(1-3) dom_T fork_T by (simp add: ph_books_def ph_free_def ph_wakes_def)
qed

text \<open>What a semaphore operation leaves of the books: any philosopher that waits there is one that waits for a fork.\<close>

lemma books_wait:
  assumes "ph_books s" "philos s (int i) = Some (Take_wait, False)" "ph_wait i k Put_lock s = Some t"
  shows "ph_books t"
proof (cases "ph_semaphore k s = Some None")
  case True
  then have "t = ph_goes i Put_lock False s" using assms(3) by (simp add: ph_wait_def)
  then show ?thesis by (intro books_move [OF assms(1,2), where l' = Put_lock]) simp_all
next
  case False
  then obtain n where n: "ph_semaphore k s = Some (Some n)" using assms(3) by (auto simp: ph_wait_def)
  note fin = ph_books_finite [OF assms(1)]
  let ?m = "ph_table s ! n"
  have inv: "length (ph_table s) = MAX_SEMAPHORES" "\<forall>m \<in> set (ph_table s). sem_ok m"
    "sleepers (ph_table s) = those fork_wait (philos s)" using assms(1) by (simp_all add: ph_books_def)
  have k: "n < length (ph_table s)" using n inv(1) by (auto simp: ph_semaphore_def split: if_splits)
  then have ok: "sem_ok ?m" using inv(2) by simp
  have add: "those Q ((philos s)(int i := Some y)) + (if Q (Take_wait, False) then {#int i#} else {#}) =
      those Q (philos s) + (if Q y then {#int i#} else {#})" for Q y by (rule those_upd [OF fin(1) assms(2)])
  have "size (those fork_wait (philos s)) < card (dom (philos s))" by (rule size_those_less [where Q = fork_wait, OF fin(1) assms(2)]) simp
  moreover have "size (waiting (sem_queue ?m)) \<le> size (sleepers (ph_table s))"
    by (rule size_mset_mono [OF sleepers_ge [OF k]])
  ultimately have sz: "size (waiting (sem_queue ?m)) < MAX_BLOCKED_QUEUE_SIZE" using fin(2) inv(3) by simp
  have head: "headcount inside ((philos s)(int i := Some (Put_lock, b))) = headcount inside (philos s)" for b
    using headcount_upd [OF fin(1) assms(2), of inside "(Put_lock, b)"] by simp
  have lock: "those lock_wait ((philos s)(int i := Some (Put_lock, b))) = those lock_wait (philos s)" for b
    by (rule those_same [OF fin(1) assms(2)]) simp
  have dom: "dom ((philos s)(int i := Some (Put_lock, b))) = dom (philos s)" for b using assms(2) by auto
  have sems: "\<forall>a \<in> set ((ph_table s)[n := m']). sem_ok a" if "sem_ok m'" for m'
    using that inv(2) set_update_subset_insert [of "ph_table s" n m'] by auto
  show ?thesis
  proof (cases rule: ks.acquire_cases [OF ok sz, of "int i", case_names plain pass block])
    case (pass m')
    then have "t = ph_goes i Put_lock False (s\<lparr>ph_table := (ph_table s)[n := m']\<rparr>)" using assms(3) n by (simp add: ph_wait_def)
    then show ?thesis using assms(1) head lock dom sems [OF pass(2)] add [of fork_wait "(Put_lock, False)"] sleepers_upd [OF k, of m'] pass(3)
      by (simp add: ph_books_def)
  next
    case (block m')
    then have "t = ph_goes i Put_lock True (s\<lparr>ph_table := (ph_table s)[n := m']\<rparr>)" using assms(3) n by (simp add: ph_wait_def)
    then show ?thesis using assms(1) head lock dom sems [OF block(2)] add [of fork_wait "(Put_lock, True)"] sleepers_upd [OF k, of m'] block(3)
      by (simp add: ph_books_def)
  qed (simp add: NO_BLOCKED_QUEUE_VALUE_def)
qed


lemma books_signal:
  assumes "ph_books s" "philos s (int i) = Some (l, False)" "inside (l, False)" "inside (l', False)" "ph_signal i k l' s = Some t"
  shows "ph_books t"
proof (cases "ph_semaphore k s = Some None")
  case True
  then have "t = ph_goes i l' False s" using assms(5) by (simp add: ph_signal_def)
  then show ?thesis using assms(3,4) by (intro books_move [OF assms(1,2), where l' = l']) simp_all
next
  case False
  then obtain n where n: "ph_semaphore k s = Some (Some n)" using assms(5) by (auto simp: ph_signal_def)
  let ?m = "ph_table s ! n"
  have inv: "length (ph_table s) = MAX_SEMAPHORES" "\<forall>m \<in> set (ph_table s). sem_ok m" using assms(1) by (simp_all add: ph_books_def)
  have k: "n < length (ph_table s)" using n inv(1) by (auto simp: ph_semaphore_def split: if_splits)
  then have ok: "sem_ok ?m" using inv(2) by simp
  have sems: "\<forall>a \<in> set ((ph_table s)[n := m']). sem_ok a" if "sem_ok m'" for m'
    using that inv(2) set_update_subset_insert [of "ph_table s" n m'] by auto
  define u where "u = ph_goes i l' False s"
  have u: "ph_books u" unfolding u_def using assms(3,4) by (intro books_move [OF assms(1,2), where l' = l']) simp_all
  note fin = ph_books_finite [OF u]
  have tab: "ph_table u = ph_table s" by (simp add: u_def)
  have sl: "sleepers (ph_table s) = those fork_wait (philos u)" using u by (simp add: ph_books_def tab)
  have shape: "t = ph_wakes q (u\<lparr>ph_table := (ph_table s)[n := m']\<rparr>)" if "sem_release ?m = (q, m')" for q m'
    using assms(5) n that by (cases s) (auto simp: ph_signal_def u_def ph_goes_def)
  show ?thesis
  proof (cases rule: ks.release_cases [OF ok, case_names plain keep wake])
    case (keep m')
    then show ?thesis using u sems [OF keep(2)] sleepers_upd [OF k, of m'] sl tab shape [OF keep(1)]
      by (simp add: ph_books_def ph_wakes_def woken_def)
  next
    case (wake q m')
    have up: "sleepers ((ph_table s)[n := m']) + {#q#} = sleepers (ph_table s)"
      using sleepers_upd [OF k, of m'] wake(3) by simp
    then have "q \<in># those fork_wait (philos u)" by (metis sl union_single_eq_member add.commute add_mset_add_single)
    then have q: "philos u q = Some (Put_lock, True)" using those_iff [OF fin(1)] by auto
    let ?U = "(philos u)(q := Some (Put_lock, False))"
    have "those fork_wait ?U + {#q#} = those fork_wait (philos u)"
      using those_upd [OF fin(1) q, of fork_wait "(Put_lock, False)"] by (simp del: fun_upd_apply)
    then have "those fork_wait ?U + {#q#} = sleepers ((ph_table s)[n := m']) + {#q#}" using up sl by (simp only:)
    then have "those fork_wait ?U = sleepers ((ph_table s)[n := m'])" by (rule add_right_imp_eq)
    moreover have "those lock_wait ?U = those lock_wait (philos u)" by (rule those_same [OF fin(1) q]) simp
    moreover have "headcount inside ?U = headcount inside (philos u)"
      using headcount_upd [OF fin(1) q, of inside "(Put_lock, False)"] by simp
    moreover have "dom ?U = dom (philos u)" using q by auto
    ultimately show ?thesis using u sems [OF wake(2)] inv(1) shape [OF wake(1)] q
      by (simp add: ph_books_def ph_wakes_def woken_def)
  qed simp
qed

section \<open>The array\<close>

text \<open>
  Of the pairs that the set \<open>A\<close> names by their left member, none has both \<open>EATING\<close>. The array is not
  initialised, so that the others may.
\<close>

definition no_neighbours :: "nat set \<Rightarrow> int list \<Rightarrow> bool" where
  "no_neighbours A st \<longleftrightarrow> (\<forall>i < DEFAULTP. i \<in> A \<longrightarrow> \<not> (st ! i = EATING \<and> st ! ((i + 1) mod DEFAULTP) = EATING))"

fun ph_knows :: "int list \<Rightarrow> ph_place \<Rightarrow> bool" where
  "ph_knows st (Test n k) \<longleftrightarrow> n < DEFAULTP"
| "ph_knows st (Eat n k) \<longleftrightarrow> n < DEFAULTP \<and> may_eat n DEFAULTP st"
| "ph_knows st (Tell n k) \<longleftrightarrow> n < DEFAULTP"
| "ph_knows st _ \<longleftrightarrow> True"

definition ph_array :: "nat set \<Rightarrow> ph_state \<Rightarrow> bool" where
  "ph_array A s \<longleftrightarrow> length (states s) = DEFAULTP \<and> no_neighbours A (states s) \<and>
     (\<forall>p l b. philos s p = Some (l, b) \<longrightarrow> ph_knows (states s) l)"

lemma below_DEFAULTP: "i < DEFAULTP \<longleftrightarrow> i = 0 \<or> i = Suc 0 \<or> i = 2 \<or> i = 3 \<or> i = 4"
  by (auto simp: DEFAULTP_def)

lemma all_DEFAULTP: "(\<forall>i < DEFAULTP. P i) \<longleftrightarrow> P 0 \<and> P (Suc 0) \<and> P 2 \<and> P 3 \<and> P 4"
  by (auto simp: below_DEFAULTP)

lemma no_neighbours_five:
  "no_neighbours A [a, b, c, d, e] \<longleftrightarrow>
     (0 \<in> A \<longrightarrow> \<not> (a = EATING \<and> b = EATING)) \<and> (Suc 0 \<in> A \<longrightarrow> \<not> (b = EATING \<and> c = EATING)) \<and>
     (2 \<in> A \<longrightarrow> \<not> (c = EATING \<and> d = EATING)) \<and> (3 \<in> A \<longrightarrow> \<not> (d = EATING \<and> e = EATING)) \<and>
     (4 \<in> A \<longrightarrow> \<not> (e = EATING \<and> a = EATING))"
  unfolding no_neighbours_def all_DEFAULTP by (simp add: DEFAULTP_def)

lemma may_eat_five:
  "may_eat i DEFAULTP [a, b, c, d, e] \<longleftrightarrow>
     [a, b, c, d, e] ! i = HUNGRY \<and> [e, a, b, c, d] ! i \<noteq> EATING \<and> [b, c, d, e, a] ! i \<noteq> EATING" if "i < DEFAULTP"
  using that unfolding below_DEFAULTP by (elim disjE) (simp_all add: may_eat_def DEFAULTP_def)

lemma no_neighbours_upd:
  assumes "no_neighbours A st" "length st = DEFAULTP" "i < DEFAULTP" "v \<noteq> EATING \<or> may_eat i DEFAULTP st"
  shows "no_neighbours A (st[i := v])"
proof -
  obtain a b c d e where st: "st = [a, b, c, d, e]"
    using assms(2) by (auto simp: DEFAULTP_def numeral_eq_Suc length_Suc_conv)
  have "v \<noteq> EATING \<or> [e, a, b, c, d] ! i \<noteq> EATING \<and> [b, c, d, e, a] ! i \<noteq> EATING"
    using assms(4) may_eat_five [OF assms(3)] by (auto simp: st)
  then show ?thesis using assms(1,3) unfolding st below_DEFAULTP
    by (elim disjE) (auto simp: no_neighbours_five)
qed

text \<open>Only who is inside the mutex writes to the array, and nobody else relies on it meanwhile.\<close>

lemma array_goes:
  assumes "ph_array A s" "states t = states s" "philos t = (philos s)(int i := Some (l', b))" "ph_knows (states s) l'"
  shows "ph_array A t"
  using assms by (auto simp: ph_array_def)

lemma array_writes:
  assumes "ph_array A s" "ph_books s" "philos s (int i) = Some (l, False)" "inside (l, False)"
    and "n < DEFAULTP" "v \<noteq> EATING \<or> may_eat n DEFAULTP (states s)" "ph_knows (states s) l'" "\<And>m k. l' \<noteq> Eat m k"
  shows "ph_array A (ph_goes i l' False (s\<lparr>states := (states s)[n := v]\<rparr>))"
proof -
  note fin = ph_books_finite [OF assms(2)]
  have one: "headcount inside (philos s) \<le> 1" using assms(2) by (simp add: ph_books_def)
  have other: "ph_knows ((states s)[n := v]) k" if "philos s p = Some (k, b)" "p \<noteq> int i" for p k b
  proof -
    have "ph_knows (states s) k" using that(1) assms(1) by (auto simp: ph_array_def)
    moreover have "k \<noteq> Eat m j" for m j
      using that only_one [where Q = inside, OF fin(1) one that(1) _ assms(3,4)] by auto
    ultimately show ?thesis by (cases k; simp; blast)
  qed
  have mine: "ph_knows ((states s)[n := v]) l'" using assms(7,8) by (cases l'; simp; blast)
  show ?thesis using assms(1) other mine no_neighbours_upd [OF _ _ assms(5,6)] by (auto simp: ph_array_def)
qed

lemma array_wakes: "ph_array A s \<Longrightarrow> ph_array A (ph_wakes q s)"
  by (auto simp: ph_wakes_def ph_array_def) (metis woken_place)

lemma array_wait:
  assumes "ph_array A s" "ph_knows (states s) l'" "ph_wait i k l' s = Some t" shows "ph_array A t"
proof -
  have u: "ph_array A (ph_goes i l' b (s\<lparr>ph_table := tab\<rparr>))" "ph_array A (ph_goes i l' b s)" for b tab
    by (rule array_goes [OF assms(1) _ _ assms(2), of _ i b]; simp)+
  show ?thesis using assms(3) u by (auto simp: ph_wait_def case_prod_beta Let_def split: option.splits)
qed

lemma array_signal:
  assumes "ph_array A s" "ph_knows (states s) l'" "ph_signal i k l' s = Some t" shows "ph_array A t"
proof -
  have u: "ph_array A (ph_goes i l' False (s\<lparr>ph_table := tab\<rparr>))" "ph_array A (ph_goes i l' False s)" for tab
    by (rule array_goes [OF assms(1) _ _ assms(2), of _ i False]; simp)+
  show ?thesis using assms(3) u(2) array_wakes [OF u(1)]
    by (auto simp: ph_signal_def case_prod_beta Let_def split: option.splits)
qed


definition ph_inv :: "nat set \<Rightarrow> ph_state \<Rightarrow> bool" where
  "ph_inv A s \<longleftrightarrow> ph_books s \<and> ph_array A s"

lemma ph_lock_array: "ph_array A s \<Longrightarrow> ph_knows (states s) l' \<Longrightarrow> ph_array A (ph_lock i l' s)"
  by (auto simp: ph_lock_def ph_array_def case_prod_beta Let_def split: if_splits)

lemma ph_free_array: "ph_array A s \<Longrightarrow> ph_knows (states s) l' \<Longrightarrow> ph_array A (ph_free i l' s)"
  unfolding ph_free_def case_prod_beta Let_def
  by (intro array_wakes) (auto simp: ph_array_def split: if_splits)

lemma ph_after_place: "inside (ph_after c i k, b)" if "\<not> b" using that by (cases k) simp_all

lemma ph_after_knows: "ph_knows st (ph_after DEFAULTP i k)"
  by (cases k) (simp_all add: DEFAULTP_def)

lemma testP_keeps:
  assumes "ph_inv A s" "philos s (int i) = Some (l, False)" "testP DEFAULTP i l s = Some t"
  shows "ph_inv A t"
proof -
  have b: "ph_books s" and a: "ph_array A s" and k: "ph_knows (states s) l"
    using assms(1,2) by (auto simp: ph_inv_def ph_array_def)
  note after = ph_after_place [of False DEFAULTP i] ph_after_knows [of _ i]
  show ?thesis
  proof (cases l)
    case (Test n k')
    let ?l = "if may_eat n DEFAULTP (states s) then Eat n k' else ph_after DEFAULTP i k'"
    have t: "t = ph_goes i ?l False s" using assms(3) Test by simp
    have "ph_books t" using after(1) [of k'] unfolding t by (intro books_move [OF b assms(2), where l' = ?l]) (simp_all add: Test)
    moreover have "ph_array A t" unfolding t by (rule array_goes [OF a, of _ i ?l False]) (use k after in \<open>simp_all add: Test\<close>)
    ultimately show ?thesis by (simp add: ph_inv_def)
  next
    case (Eat n k')
    have t: "t = ph_goes i (Tell n k') False (s\<lparr>states := (states s)[n := EATING]\<rparr>)" using assms(3) Eat by simp
    have "ph_books t" unfolding t by (rule books_move [OF b assms(2), where l' = "Tell n k'"]) (simp_all add: Eat)
    moreover have "ph_array A t" unfolding t by (rule array_writes [OF a b assms(2)]) (use k in \<open>simp_all add: Eat\<close>)
    ultimately show ?thesis by (simp add: ph_inv_def)
  next
    case (Tell n k')
    have t: "ph_signal i (sem_arg (ph_sems s) n) (ph_after DEFAULTP i k') s = Some t" using assms(3) Tell by simp
    have "ph_books t" by (rule books_signal [OF b assms(2) _ after(1) t]) (simp_all add: Tell)
    moreover have "ph_array A t" by (rule array_signal [OF a after(2) t])
    ultimately show ?thesis by (simp add: ph_inv_def)
  qed (use assms(3) in simp_all)
qed

lemma take_fork_keeps:
  assumes "ph_inv A s" "philos s (int i) = Some (l, False)" "take_fork DEFAULTP i l s = Some t" "i < DEFAULTP"
  shows "ph_inv A t"
proof -
  have b: "ph_books s" and a: "ph_array A s" using assms(1) by (auto simp: ph_inv_def)
  show ?thesis
  proof (cases l)
    case Take_lock
    have "ph_books (ph_lock i Take_hungry s)" by (rule books_lock [OF b assms(2)]) (simp_all add: Take_lock)
    then show ?thesis using assms(3) ph_lock_array [OF a, of Take_hungry i] by (simp add: Take_lock ph_inv_def)
  next
    case Take_hungry
    have t: "t = ph_goes i (Test i To_take_free) False (s\<lparr>states := (states s)[i := HUNGRY]\<rparr>)" using assms(3) Take_hungry by simp
    have "ph_books t" unfolding t by (rule books_move [OF b assms(2), where l' = "Test i To_take_free"]) (simp_all add: Take_hungry)
    moreover have "ph_array A t" unfolding t
      by (rule array_writes [OF a b assms(2)]) (use assms(4) in \<open>simp_all add: Take_hungry HUNGRY_def EATING_def\<close>)
    ultimately show ?thesis by (simp add: ph_inv_def)
  next
    case Take_free
    have "ph_books (ph_free i Take_wait s)" by (rule books_free [OF b assms(2)]) (simp_all add: Take_free)
    then show ?thesis using assms(3) ph_free_array [OF a, of Take_wait i] by (simp add: Take_free ph_inv_def)
  next
    case Take_wait
    then have t: "ph_wait i (sem_arg (ph_sems s) i) Put_lock s = Some t" using assms(3) by simp
    show ?thesis using books_wait [OF b _ t] array_wait [OF a _ t] assms(2) Take_wait by (simp add: ph_inv_def)
  qed (use assms(3) in simp_all)
qed

lemma put_fork_keeps:
  assumes "ph_inv A s" "philos s (int i) = Some (l, False)" "put_fork DEFAULTP i l s = Some t" "i < DEFAULTP"
  shows "ph_inv A t"
proof -
  have b: "ph_books s" and a: "ph_array A s" using assms(1) by (auto simp: ph_inv_def)
  show ?thesis
  proof (cases l)
    case Put_lock
    have "ph_books (ph_lock i Put_thinking s)" by (rule books_lock [OF b assms(2)]) (simp_all add: Put_lock)
    then show ?thesis using assms(3) ph_lock_array [OF a, of Put_thinking i] by (simp add: Put_lock ph_inv_def)
  next
    case Put_thinking
    let ?l = "Test ((i + 4) mod DEFAULTP) To_right"
    have t: "t = ph_goes i ?l False (s\<lparr>states := (states s)[i := THINKING]\<rparr>)" using assms(3) Put_thinking by simp
    have "ph_books t" unfolding t by (rule books_move [OF b assms(2), where l' = ?l]) (simp_all add: Put_thinking)
    moreover have "ph_array A t" unfolding t
      by (rule array_writes [OF a b assms(2)]) (use assms(4) in \<open>simp_all add: Put_thinking THINKING_def EATING_def DEFAULTP_def\<close>)
    ultimately show ?thesis by (simp add: ph_inv_def)
  next
    case Put_free
    have "ph_books (ph_free i Take_lock s)" by (rule books_free [OF b assms(2)]) (simp_all add: Put_free)
    then show ?thesis using assms(3) ph_free_array [OF a, of Take_lock i] by (simp add: Put_free ph_inv_def)
  qed (use assms(3) in simp_all)
qed

lemma philospher_keeps: "ph_inv A s \<Longrightarrow> philospher DEFAULTP i s = Some t \<Longrightarrow> i < DEFAULTP \<Longrightarrow> ph_inv A t"
  by (auto simp del: insert_iff simp: philospher_def split: option.splits prod.splits bool.splits if_splits
      intro: take_fork_keeps put_fork_keeps testP_keeps)

lemma create_keeps:
  assumes "ph_inv A s" "philos s (int i) = None" "i < DEFAULTP"
  shows "ph_inv A (ph_goes i Take_lock False s)"
proof -
  have b: "ph_books s" and a: "ph_array A s" using assms(1) by (auto simp: ph_inv_def)
  note fin = ph_books_finite(1) [OF b]
  have "ph_books (ph_goes i Take_lock False s)"
    using b assms(2,3) those_new [OF fin assms(2), of lock_wait "(Take_lock, False)"]
      those_new [OF fin assms(2), of fork_wait "(Take_lock, False)"] headcount_new [OF fin assms(2), of inside "(Take_lock, False)"]
    by (simp add: ph_books_def)
  moreover have "ph_array A (ph_goes i Take_lock False s)" by (rule array_goes [OF a, of _ i Take_lock False]) simp_all
  ultimately show ?thesis by (simp add: ph_inv_def)
qed

lemma ph_start_inv:
  assumes "ph_start s" "no_neighbours A (states s)"
  shows "ph_inv A s"
proof -
  have n: "those Q (Map.empty :: ph_place crowd) = {#}" for Q by (simp add: those_def)
  have "sleepers tab = {#}" if "\<forall>m \<in> set tab. sem_ok m \<and> waiting (sem_queue m) = {#}" for tab
    using that by (induction tab) (simp_all add: sleepers_def)
  then show ?thesis using assms
    by (auto simp: ph_start_def ph_inv_def ph_books_def ph_array_def n headcount_def km.avail_def mutex_ok_def)
qed

lemma ph_runs_inv: "ph_runs s0 s \<Longrightarrow> ph_start s0 \<Longrightarrow> no_neighbours A (states s0) \<Longrightarrow> ph_inv A s"
  by (induction rule: ph_runs.induct) (auto intro: ph_start_inv philospher_keeps create_keeps)


section \<open>What the program keeps, and what it does not\<close>

text \<open>A mutex and semaphores that nobody uses.\<close>

definition ph_rest :: "int list \<Rightarrow> 64 word list \<Rightarrow> ph_state" where
  "ph_rest st ptrs = \<lparr>states = st,
     ph_mutex = \<lparr>m_used = True, m_name = 0, m_queue = clearArray MAX_BLOCKED_QUEUE_SIZE NO_BLOCKED_QUEUE_VALUE,
       m_usingPids = [], m_mutex = 0, m_cardinalBlocked = 0, m_cardinalUsing = 0, m_pidCreator = 0\<rparr>,
     ph_table = replicate MAX_SEMAPHORES \<lparr>sem_used = True, sem_name = 0,
       sem_queue = clearArray MAX_BLOCKED_QUEUE_SIZE NO_BLOCKED_QUEUE_VALUE, sem_semaphore = 0, sem_cardinalBlocked = 0,
       sem_mutex = 0, sem_pidCreator = 0\<rparr>,
     ph_sems = ptrs, philos = Map.empty\<rparr>"

lemma ph_rest_sel [simp]:
  "philos (ph_rest st ptrs) = Map.empty" "m_mutex (ph_mutex (ph_rest st ptrs)) = 0" "ph_sems (ph_rest st ptrs) = ptrs"
  "states (ph_rest st ptrs) = st"
  by (simp_all add: ph_rest_def)

lemma ph_rest_start: "length st = DEFAULTP \<Longrightarrow> ph_start (ph_rest st ptrs)"
  by (simp add: ph_rest_def ph_start_def mutex_ok_def sem_ok_alt)

text \<open>A round of \<open>take_fork\<close> while nobody has the mutex, with a semaphore that is behind the table.\<close>

lemma take_fork_unhindered:
  assumes "ph_runs s0 s" "philos s (int i) = Some (Take_lock, False)" "m_mutex (ph_mutex s) = 0"
    and "i < DEFAULTP" "int MAX_SEMAPHORES \<le> sem_arg (ph_sems s) i"
  defines "h \<equiv> (states s)[i := HUNGRY]"
  obtains t where "ph_runs s0 t" "philos t = (philos s)(int i := Some (Put_lock, False))" "m_mutex (ph_mutex t) = 0"
    "ph_sems t = ph_sems s" "states t = (if may_eat i DEFAULTP h then h[i := EATING] else h)"
proof -
  let ?m = "(ph_mutex s)\<lparr>m_mutex := 1, m_cardinalBlocked := 0\<rparr>"
  define s1 where "s1 = ph_goes i Take_hungry False (s\<lparr>ph_mutex := ?m\<rparr>)"
  define s2 where "s2 = ph_goes i (Test i To_take_free) False (s1\<lparr>states := h\<rparr>)"
  define s3 where "s3 = ph_goes i Take_free False (s2\<lparr>states := if may_eat i DEFAULTP h then h[i := EATING] else h\<rparr>)"
  define s4 where "s4 = ph_goes i Take_wait False (s3\<lparr>ph_mutex := ?m\<lparr>m_mutex := 0\<rparr>\<rparr>)"
  note step = ph_runs.step [OF _ assms(4)]
  have "philospher DEFAULTP i s = Some s1" by (simp add: philospher_def ph_lock_def mutex_acquire_def assms(2,3) s1_def)
  note r1 = step [OF assms(1) this]
  have "philospher DEFAULTP i s1 = Some s2" by (simp add: philospher_def s1_def s2_def h_def)
  note r2 = step [OF r1 this]
  have r3: "ph_runs s0 s3"
  proof (cases "may_eat i DEFAULTP h")
    case True
    define u where "u = ph_goes i (Eat i To_take_free) False s2"
    define v where "v = ph_goes i (Tell i To_take_free) False (u\<lparr>states := h[i := EATING]\<rparr>)"
    have "philospher DEFAULTP i s2 = Some u" using True by (simp add: philospher_def s2_def u_def)
    note ru = step [OF r2 this]
    have "philospher DEFAULTP i u = Some v" by (simp add: philospher_def v_def u_def s2_def)
    note rv = step [OF ru this]
    have "sem_arg (ph_sems v) i = sem_arg (ph_sems s) i" by (simp add: v_def u_def s2_def s1_def ph_goes_def)
    then have "philospher DEFAULTP i v = Some s3" using True assms(5)
      by (cases s) (simp add: philospher_def ph_signal_def ph_semaphore_def v_def u_def s3_def s2_def s1_def ph_goes_def)
    then show ?thesis by (rule step [OF rv])
  next
    case False
    then have "philospher DEFAULTP i s2 = Some s3" by (simp add: philospher_def s3_def s2_def ph_goes_def)
    then show ?thesis by (rule step [OF r2])
  qed
  have "philospher DEFAULTP i s3 = Some s4"
    by (simp add: philospher_def ph_free_def mutex_release_def ph_wakes_def s4_def s3_def s2_def s1_def ph_goes_def)
  note r4 = step [OF r3 this]
  have "sem_arg (ph_sems s4) i = sem_arg (ph_sems s) i" by (simp add: s4_def s3_def s2_def s1_def ph_goes_def)
  then have "philospher DEFAULTP i s4 = Some (ph_goes i Put_lock False s4)" using assms(5)
    by (simp add: philospher_def ph_wait_def ph_semaphore_def s4_def)
  note r5 = step [OF r4 this]
  show ?thesis by (rule that [OF r5]) (simp_all add: s4_def s3_def s2_def s1_def ph_goes_def)
qed

lemma neighbours_get_on:
  assumes "int MAX_SEMAPHORES \<le> sem_arg ptrs 0" "int MAX_SEMAPHORES \<le> sem_arg ptrs 4"
  obtains s where "ph_runs (ph_rest (replicate 5 THINKING) ptrs) s" "philos s 0 = Some (Put_lock, False)"
    "philos s 4 = Some (Put_lock, False)" "states s = [EATING, THINKING, THINKING, THINKING, HUNGRY]"
proof -
  let ?s = "ph_rest (replicate 5 THINKING) ptrs"
  let ?u = "ph_goes 0 Take_lock False ?s"
  have "ph_runs ?s ?u" by (rule ph_runs.create [OF ph_runs.here]) (simp_all add: DEFAULTP_def)
  note u = this
  have u': "philos ?u (int 0) = Some (Take_lock, False)" "m_mutex (ph_mutex ?u) = 0" "0 < DEFAULTP"
    "int MAX_SEMAPHORES \<le> sem_arg (ph_sems ?u) 0" using assms(1) by (simp_all add: DEFAULTP_def ph_goes_def)
  obtain t where t: "ph_runs ?s t" "philos t = (philos ?u)(int 0 := Some (Put_lock, False))" "m_mutex (ph_mutex t) = 0"
    "ph_sems t = ph_sems ?u"
    "states t = (if may_eat 0 DEFAULTP ((states ?u)[0 := HUNGRY]) then (states ?u)[0 := HUNGRY, 0 := EATING] else (states ?u)[0 := HUNGRY])"
    by (rule take_fork_unhindered [OF u u'])
  let ?v = "ph_goes 4 Take_lock False t"
  have "ph_runs ?s ?v" by (rule ph_runs.create [OF t(1)]) (simp_all add: t(2) DEFAULTP_def)
  note v = this
  have v': "philos ?v (int 4) = Some (Take_lock, False)" "m_mutex (ph_mutex ?v) = 0" "4 < DEFAULTP"
    "int MAX_SEMAPHORES \<le> sem_arg (ph_sems ?v) 4" using assms(2) t by (simp_all add: DEFAULTP_def ph_goes_def)
  obtain w where w: "ph_runs ?s w" "philos w = (philos ?v)(int 4 := Some (Put_lock, False))"
    "states w = (if may_eat 4 DEFAULTP ((states ?v)[4 := HUNGRY]) then (states ?v)[4 := HUNGRY, 4 := EATING] else (states ?v)[4 := HUNGRY])"
    by (rule take_fork_unhindered [OF v v'])
  have five: "replicate 5 THINKING = [THINKING, THINKING, THINKING, THINKING, THINKING]" by (simp add: numeral_eq_Suc)
  have "states t = [EATING, THINKING, THINKING, THINKING, THINKING]"
    unfolding t(5) ph_goes_sel(1) ph_rest_sel(4) five by (simp add: may_eat_def DEFAULTP_def HUNGRY_def THINKING_def EATING_def)
  then have "states w = [EATING, THINKING, THINKING, THINKING, HUNGRY]"
    unfolding w(3) by (simp add: may_eat_def DEFAULTP_def HUNGRY_def THINKING_def EATING_def)
  then show ?thesis by (intro that [OF w(1)]) (simp_all add: w(2) t(2))
qed

text \<open>
  C39: two neighbours that are not both \<open>EATING\<close> in the array when the philosophers start never are,
  whatever the order in which the five of them run, and whatever the semaphores do that they are
  given. (The array lies on the stack and is not initialised, so that a pair may be \<open>EATING\<close> at the start.)
\<close>

theorem neighbours_never_both_eat:
  assumes "ph_start s0" "ph_runs s0 s" "i < DEFAULTP"
    "\<not> (states s0 ! i = EATING \<and> states s0 ! ((i + 1) mod DEFAULTP) = EATING)"
  shows "\<not> (states s ! i = EATING \<and> states s ! ((i + 1) mod DEFAULTP) = EATING)"
proof -
  have "no_neighbours {i} (states s0)" using assms(4) by (auto simp: no_neighbours_def)
  from ph_runs_inv [OF assms(2,1) this] show ?thesis
    using assms(3) by (simp add: ph_inv_def ph_array_def no_neighbours_def)
qed

theorem neighbours_never_both_eat_witness:
  "\<exists>s. ph_runs (ph_rest (replicate 5 THINKING) [100, 0, 100]) s \<and> states s ! 0 = EATING \<and>
     \<not> (states s ! 0 = EATING \<and> states s ! ((0 + 1) mod DEFAULTP) = EATING)"
proof -
  have arg: "int MAX_SEMAPHORES \<le> sem_arg [100, 0, 100] 0" "int MAX_SEMAPHORES \<le> sem_arg [100, 0, 100] 4"
    by (simp_all add: sem_arg_def MAX_SEMAPHORES_def MAX_MUTEXES_def)
  obtain s where s: "ph_runs (ph_rest (replicate 5 THINKING) [100, 0, 100]) s" "states s = [EATING, THINKING, THINKING, THINKING, HUNGRY]"
    by (rule neighbours_get_on [OF arg]) (rule that, assumption+)
  have five: "length (replicate 5 THINKING) = DEFAULTP" by (simp add: DEFAULTP_def)
  from neighbours_never_both_eat [OF ph_rest_start [OF five] s(1), of 0] s show ?thesis
    by (auto simp: DEFAULTP_def THINKING_def EATING_def)
qed

text \<open>
  The forks are not waited for when the numbers that the cast reads from the array of pointers
  are behind the table of semaphores: philosophers 0 and 4, who share a fork, both get past their
  \<open>wait\<close>, one of them without a fork.
\<close>

theorem neighbours_pass_their_wait:
  assumes "int MAX_SEMAPHORES \<le> sem_arg ptrs 0" "int MAX_SEMAPHORES \<le> sem_arg ptrs 4"
  shows "\<exists>s. ph_runs (ph_rest (replicate 5 THINKING) ptrs) s \<and>
    philos s 0 = Some (Put_lock, False) \<and> philos s 4 = Some (Put_lock, False) \<and> states s ! 4 = HUNGRY"
  by (rule neighbours_get_on [OF assms]) (auto intro!: exI)

theorem neighbours_pass_their_wait_witness:
  "\<exists>s. ph_runs (ph_rest (replicate 5 THINKING) [0x400000, 0x400010, 0x400020, 0x400030, 0x400040]) s \<and>
    philos s 0 = Some (Put_lock, False) \<and> philos s 4 = Some (Put_lock, False) \<and> states s ! 4 = HUNGRY"
  by (rule neighbours_pass_their_wait) (simp_all add: sem_arg_def MAX_SEMAPHORES_def MAX_MUTEXES_def)

end
