(* ===== verification/Userlib.thy ===== *)
theory Userlib
  imports Cstring "HOL-Library.Signed_Division"
begin

text \<open>
  The library of the programs in user space (\<open>stdio.c\<close> of \<open>Userland/SHELL\<close>; the
  copies of other programs are in \<open>Programs\<close> and \<open>Dummy\<close>). A program acts on the system only through system calls, so that what it
  does is the list of its calls; what it reads is a list of the answers to its polls. The
  lemmas show how a line is edited while it is typed.
\<close>

section \<open>System calls\<close>

text \<open>\<open>writeC\<close> and \<open>readC\<close> of one byte, and \<open>sys_call\<close> with its number and arguments.\<close>

datatype ucall = Write byte | Sys nat "int list"

definition u_malloc :: "int \<Rightarrow> ucall list" where "u_malloc bytes = [Sys 13 [bytes, 0]]"

text \<open>A program returns, runs for ever, or reads a string without an end.\<close>

datatype outcome = Returns "ucall list" | Diverges "ucall list" | Bad_read

primrec outcome_then :: "outcome \<Rightarrow> outcome \<Rightarrow> outcome" where
  "outcome_then (Returns xs) o2 = (case o2 of Returns ys \<Rightarrow> Returns (xs @ ys) | Diverges ys \<Rightarrow> Diverges (xs @ ys) | Bad_read \<Rightarrow> Bad_read)"
| "outcome_then (Diverges xs) o2 = Diverges xs"
| "outcome_then Bad_read o2 = Bad_read"

section \<open>Output\<close>

text \<open>The shell allocates a byte for every character and never frees it; the dummy uses its stack.\<close>

definition u_putchar :: "byte \<Rightarrow> ucall list" where
  "u_putchar c = u_malloc 1 @ [Write c]"

definition d_putchar :: "byte \<Rightarrow> ucall list" where
  "d_putchar c = [Write c]"

fun u_print :: "(byte \<Rightarrow> ucall list) \<Rightarrow> cstring \<Rightarrow> ucall list" where
  "u_print put [] = []"
| "u_print put (c # cs) = put c @ u_print put cs"

text \<open>The digits of \<open>putNumber\<close>: its buffer from the last byte written to the first.\<close>

function u_digits :: "int \<Rightarrow> byte list \<Rightarrow> byte list" where
  "u_digits n buffer =
     (if n sdiv 10 \<noteq> 0 then u_digits (n sdiv 10) (word_of_int (n smod 10 + 48) # buffer)
      else word_of_int (n + 48) # buffer)"
  by auto
termination
  by (relation "measure (\<lambda>(n, b). nat \<bar>n\<bar>)") (auto simp: signed_divide_int_def abs_mult sgn_if)

declare u_digits.simps [simp del]

definition u_putNumber :: "(byte \<Rightarrow> ucall list) \<Rightarrow> int \<Rightarrow> ucall list" where
  "u_putNumber put n =
     u_malloc 20 @ (if n < 0 then put 45 else []) @
     u_print put (u_digits (if n < 0 then sint (word_of_int (- n) :: 32 word) else n) [])"

text \<open>\<open>printFF\<close>, over \<open>putchar\<close> and \<open>putNumber\<close>, with null pointers as \<open>None\<close>; it never returns from \<open>%s\<close> without strings.\<close>

fun u_printFF_loop :: "(byte \<Rightarrow> ucall list) \<Rightarrow> (int \<Rightarrow> ucall list) \<Rightarrow> bool \<Rightarrow> cstring \<Rightarrow> cstring list option \<Rightarrow> int list option \<Rightarrow> outcome" where
  "u_printFF_loop put num fmt [] strings ints = Returns []"
| "u_printFF_loop put num False (c # format) strings ints =
     (if c = 37 then u_printFF_loop put num True format strings ints
      else outcome_then (Returns (put c)) (u_printFF_loop put num False format strings ints))"
| "u_printFF_loop put num True (c # format) strings ints =
     (if c = 100 \<and> ints \<noteq> None then
        (case the ints of
           [] \<Rightarrow> Bad_read
         | n # ns \<Rightarrow> outcome_then (Returns (num n)) (u_printFF_loop put num False format strings (Some ns)))
      else if c = 115 then
        (case strings of
           None \<Rightarrow> Diverges []
         | Some [] \<Rightarrow> Bad_read
         | Some (str # strs) \<Rightarrow> outcome_then (Returns (u_print put str)) (u_printFF_loop put num False format (Some strs) ints))
      else outcome_then (Returns (put 37)) (u_printFF_loop put num True format strings ints))"

definition u_printFF :: "(byte \<Rightarrow> ucall list) \<Rightarrow> (int \<Rightarrow> ucall list) \<Rightarrow> cstring \<Rightarrow> cstring list option \<Rightarrow> int list option \<Rightarrow> outcome" where
  "u_printFF put num format strings ints =
     outcome_then (u_printFF_loop put num False format strings ints)
       (if format = [] then Bad_read else Returns (if last format = 37 then put 37 else []))"

section \<open>Input\<close>

text \<open>\<open>getchar\<close> polls until a poll answers something; \<open>None\<close> when the answers end first.\<close>

fun u_getchar :: "byte list \<Rightarrow> (byte \<times> byte list) option" where
  "u_getchar [] = None"
| "u_getchar (b # bs) = (if b = 0 then u_getchar bs else Some (b, bs))"

lemma u_getchar_shorter: "u_getchar bs = Some (c, cs) \<Longrightarrow> length cs < length bs"
  by (induction bs) (auto split: if_splits)

definition U_BUFFERSIZE :: int where "U_BUFFERSIZE = 100"

text \<open>The line that \<open>%s\<close> of \<open>scanFF\<close> reads into memory at \<open>string\<close>.\<close>

function u_scan_line :: "byte list \<Rightarrow> addr \<Rightarrow> int \<Rightarrow> memory \<Rightarrow> (addr \<times> int \<times> memory \<times> byte list) option" where
  "u_scan_line input string bufferindex m =
     (case u_getchar input of
        None \<Rightarrow> None
      | Some (c, rest) \<Rightarrow>
          if c = 10 then Some (string, bufferindex, m, rest)
          else if c = 8 then
            (if bufferindex \<noteq> 0 then u_scan_line rest (string - 1) (bufferindex - 1) m
             else u_scan_line rest string bufferindex m)
          else if bufferindex = U_BUFFERSIZE then Some (string, bufferindex, m, rest)
          else u_scan_line rest (string + 1) (bufferindex + 1) (m(string := c)))"
  by auto
termination
  by (relation "measure (\<lambda>(i, _). length i)") (auto dest: u_getchar_shorter [OF sym] u_getchar_shorter)

declare u_scan_line.simps [simp del]

text \<open>\<open>scanFF("%s", s, NULL)\<close>, the only format that the programs use (\<open>u_scanFF_string\<close>): its answer, memory and the rest.\<close>

definition u_scanFF_s :: "byte list \<Rightarrow> addr \<Rightarrow> memory \<Rightarrow> (bool \<times> memory \<times> byte list) option" where
  "u_scanFF_s input s m =
     map_option (\<lambda>(string, bufferindex, m1, rest). (bufferindex = U_BUFFERSIZE, m1(string := 0), rest))
       (u_scan_line input s 0 m)"

text \<open>
  \<open>scanFF\<close> for any format: the answer, the calls of \<open>putNumber\<close> (\<open>%d\<close> writes a number instead of
  reading one), what is left of the input, and memory. \<open>None\<close>: the input ends, the strings or
  numbers do, or the format has a letter behind \<open>%\<close> on which the loop does not move on.
  \<open>bufferindex\<close> is not initialised: \<open>junk\<close> is what the stack holds there.
\<close>

function u_scan_letter :: "byte \<Rightarrow> byte list \<Rightarrow> byte list option" where
  "u_scan_letter f input =
     (case u_getchar input of None \<Rightarrow> None | Some (c, rest) \<Rightarrow> if c = f then u_scan_letter f rest else Some rest)"
  by auto
termination
  by (relation "measure (\<lambda>(f, i). length i)") (auto dest: u_getchar_shorter [OF sym] u_getchar_shorter)

declare u_scan_letter.simps [simp del]

fun u_scanFF_loop :: "(int \<Rightarrow> ucall list) \<Rightarrow> bool \<Rightarrow> cstring \<Rightarrow> addr list option \<Rightarrow> int list option \<Rightarrow> int \<Rightarrow>
    byte list \<Rightarrow> memory \<Rightarrow> (int \<times> ucall list \<times> byte list \<times> memory) option" where
  "u_scanFF_loop num fmt [] strings ints bufferindex input m = Some (bufferindex, [], input, m)"
| "u_scanFF_loop num False (c # format) strings ints bufferindex input m =
     (if c = 37 then u_scanFF_loop num True format strings ints bufferindex input m
      else Option.bind (u_scan_letter c input) (\<lambda>rest. u_scanFF_loop num False format strings ints bufferindex rest m))"
| "u_scanFF_loop num True (c # format) strings ints bufferindex input m =
     (if c = 100 \<and> ints \<noteq> None then
        (case the ints of
           [] \<Rightarrow> None
         | n # ns \<Rightarrow> map_option (\<lambda>(i, calls, r). (i, num n @ calls, r))
             (u_scanFF_loop num False format strings (Some ns) bufferindex input m))
      else if c = 115 \<and> strings \<noteq> None then
        (case the strings of
           [] \<Rightarrow> None
         | s # strs \<Rightarrow> Option.bind (u_scan_line input s 0 m)
             (\<lambda>(string, i, m1, rest). u_scanFF_loop num False format (Some strs) ints i rest (m1(string := 0))))
      else None)"

definition u_scanFF :: "(int \<Rightarrow> ucall list) \<Rightarrow> int \<Rightarrow> cstring \<Rightarrow> addr list option \<Rightarrow> int list option \<Rightarrow>
    byte list \<Rightarrow> memory \<Rightarrow> (bool \<times> ucall list \<times> byte list \<times> memory) option" where
  "u_scanFF num junk format strings ints input m =
     map_option (\<lambda>(i, r). (i = U_BUFFERSIZE, r)) (u_scanFF_loop num False format strings ints junk input m)"

lemma u_scanFF_string:
  "u_scanFF num junk (lit ''%s'') (Some [s]) ints input m = map_option (\<lambda>(overflow, m1, rest). (overflow, [], rest, m1)) (u_scanFF_s input s m)"
  by (cases "u_scan_line input s 0 m") (auto simp: u_scanFF_def u_scanFF_s_def lit_def)

text \<open>The comparisons are those of the kernel.\<close>

definition u_strcmp :: "cstring \<Rightarrow> cstring \<Rightarrow> int" where [simp]: "u_strcmp = strcmp"
definition u_strcmpN :: "cstring \<Rightarrow> cstring \<Rightarrow> int \<Rightarrow> int" where [simp]: "u_strcmpN = strcmpN"

section \<open>Editing a line\<close>

text \<open>What is left of typed characters when every backspace takes the last one back.\<close>

fun edited :: "byte list \<Rightarrow> byte list \<Rightarrow> byte list" where
  "edited line [] = line"
| "edited line (c # cs) = edited (if c = 8 then butlast line else line @ [c]) cs"

lemma length_edited: "length (edited line cs) \<le> length line + length cs"
proof (induction cs arbitrary: line)
  case (Cons c cs)
  show ?case using Cons.IH [of "butlast line"] Cons.IH [of "line @ [c]"] by auto
qed simp

lemma bytes_at_last: "bytes_at m a (Suc n) = bytes_at m a n @ [m (a + n)]"
  using bytes_at_add [of m a n 1] by (simp add: bytes_at_def)

lemma bytes_at_upd_end: "bytes_at (m(s + n := c)) s n = bytes_at m s n"
  by (rule nth_equalityI) simp_all

lemma u_scan_line_typed:
  assumes "0 \<notin> set typed" "10 \<notin> set typed" "length line + length typed \<le> 100" "bytes_at m s (length line) = line"
  shows "\<exists>m'. u_scan_line (typed @ 10 # rest) (s + length line) (int (length line)) m =
      Some (s + length (edited line typed), int (length (edited line typed)), m', rest) \<and>
    bytes_at m' s (length (edited line typed)) = edited line typed \<and> (\<forall>x. x < s \<or> s + 100 \<le> x \<longrightarrow> m' x = m x)"
  using assms
proof (induction typed arbitrary: line m)
  case Nil
  then show ?case by (subst u_scan_line.simps) simp
next
  case (Cons c typed)
  have c: "c \<noteq> 0" "c \<noteq> 10" "0 \<notin> set typed" "10 \<notin> set typed" using Cons.prems(1,2) by auto
  show ?case
  proof (cases "c = 8")
    case True
    show ?thesis
    proof (cases "line = []")
      case True
      then show ?thesis using Cons.IH [OF c(3,4), of "[]" m] Cons.prems(3) \<open>c = 8\<close>
        by (subst u_scan_line.simps) simp
    next
      case False
      then obtain l k where l: "line = l @ [k]" by (metis rev_exhaust)
      have "bytes_at m s (length l) = l" using Cons.prems(4) unfolding l by (simp add: bytes_at_last)
      with Cons.IH [OF c(3,4), of l m] Cons.prems(3) \<open>c = 8\<close> l show ?thesis
        by (subst u_scan_line.simps) simp
    qed
  next
    case False
    have n: "int (length line) \<noteq> U_BUFFERSIZE" using Cons.prems(3) by (simp add: U_BUFFERSIZE_def)
    let ?m = "m(s + length line := c)"
    have mem: "bytes_at ?m s (length (line @ [c])) = line @ [c]"
      using Cons.prems(4) bytes_at_upd_end [of m s "length line" c] by (simp add: bytes_at_last)
    have len: "length (line @ [c]) + length typed \<le> 100" using Cons.prems(3) by simp
    obtain m' where m':
      "u_scan_line (typed @ 10 # rest) (s + length (line @ [c])) (int (length (line @ [c]))) ?m =
        Some (s + length (edited (line @ [c]) typed), int (length (edited (line @ [c]) typed)), m', rest)"
      "bytes_at m' s (length (edited (line @ [c]) typed)) = edited (line @ [c]) typed"
      "\<forall>x. x < s \<or> s + 100 \<le> x \<longrightarrow> m' x = ?m x"
      using Cons.IH [OF c(3,4) len mem] by (elim exE conjE) (rule that)
    have "u_scan_line ((c # typed) @ 10 # rest) (s + length line) (int (length line)) m =
        u_scan_line (typed @ 10 # rest) (s + length (line @ [c])) (int (length (line @ [c]))) ?m"
      using False c(1,2) n by (subst u_scan_line.simps) (simp add: add.commute)
    moreover have "m' x = m x" if "x < s \<or> s + 100 \<le> x" for x
    proof -
      have "x \<noteq> s + length line" using that Cons.prems(3) by auto
      then show ?thesis using m'(3) that by (metis fun_upd_other)
    qed
    ultimately show ?thesis using m'(1,2) False by (intro exI [of _ m']) simp
  qed
qed

lemma cstr_bytes_at:
  "0 \<notin> set (bytes_at m a n) \<Longrightarrow> m (a + n) = 0 \<Longrightarrow> n < k \<Longrightarrow> cstr k m a = Some (bytes_at m a n)"
proof (induction n arbitrary: a k)
  case 0
  then show ?case by (cases k) auto
next
  case (Suc n)
  then show ?case by (cases k) (auto simp: bytes_at_Suc)
qed

lemma set_edited: "0 \<notin> set line \<Longrightarrow> 0 \<notin> set cs \<Longrightarrow> 0 \<notin> set (edited line cs)"
  by (induction cs arbitrary: line) (auto dest: in_set_butlastD)

lemma scan_typed:
  assumes "0 \<notin> set typed" "10 \<notin> set typed" "length typed \<le> 100"
  shows "\<exists>m'. u_scanFF_s (typed @ 10 # rest) s m = Some (length (edited [] typed) = 100, m', rest) \<and>
    cstr 101 m' s = Some (edited [] typed) \<and> (\<forall>x. x < s \<or> s + 100 < x \<longrightarrow> m' x = m x)"
proof -
  let ?e = "edited [] typed"
  obtain m' where m': "u_scan_line (typed @ 10 # rest) s 0 m = Some (s + length ?e, int (length ?e), m', rest)"
    "bytes_at m' s (length ?e) = ?e" "\<forall>x. x < s \<or> s + 100 \<le> x \<longrightarrow> m' x = m x"
    using u_scan_line_typed [of typed "[]" m s rest] assms by auto
  let ?m = "m'(s + length ?e := 0)"
  have "bytes_at ?m s (length ?e) = ?e" using m'(2) bytes_at_upd_end by simp
  then have "cstr 101 ?m s = Some ?e"
    using cstr_bytes_at [of ?m s "length ?e" 101] set_edited [of "[]" typed] assms(1,3) length_edited [of "[]" typed] by simp
  moreover have "u_scanFF_s (typed @ 10 # rest) s m = Some (length ?e = 100, ?m, rest)"
    by (simp add: u_scanFF_s_def m'(1) U_BUFFERSIZE_def)
  ultimately show ?thesis using m'(3) length_edited [of "[]" typed] assms(3) by (intro exI [of _ ?m]) auto
qed

text \<open>
  C32: a line of at most 100 characters, typed with any corrections, is read as the program
  should see it: the characters that were not taken back, with a terminator, within the 101
  bytes from the buffer on; the answer is that of an overflow when exactly 100 characters are
  left.
\<close>

theorem typed_line_is_read:
  assumes "0 \<notin> set typed" "10 \<notin> set typed" "length typed \<le> 100"
  shows "\<exists>m'. u_scanFF_s (typed @ 10 # rest) s m = Some (length (edited [] typed) = 100, m', rest) \<and>
    cstr 101 m' s = Some (edited [] typed) \<and> (\<forall>x. x < s \<or> s + 100 < x \<longrightarrow> m' x = m x)"
  by (rule scan_typed [OF assms])

theorem typed_line_is_read_witness:
  "\<exists>m'. u_scanFF_s [108, 116, 8, 115, 10, 65] 500 (\<lambda>_. 7) = Some (False, m', [65]) \<and> cstr 101 m' 500 = Some [108, 115]"
  using typed_line_is_read [of "[108, 116, 8, 115]" "[65]" 500 "\<lambda>_. 7"] by auto

end
