(* ===== verification/Dummy.thy ===== *)
theory Dummy
  imports Philosophers ProdCons Userlib Syscalls
begin

text \<open>
  The test programs around the producers, consumers and philosophers of \<open>Userland/dummy/dummy.c\<close>:
  the calls of its library, \<open>control\<close>, which starts and removes producers and consumers from the
  keyboard, and what \<open>philosophers\<close> sets up. The lemmas show that \<open>control\<close> removes what was
  started, in the first run of the program, and what goes wrong in the next ones.
\<close>

section \<open>The calls of the library\<close>

text \<open>A call with three arguments, and a log of calls with their answers.\<close>

type_synonym calls = "(ucall \<times> int) list"

definition call3 :: "nat \<Rightarrow> int \<Rightarrow> int \<Rightarrow> int \<Rightarrow> ucall" where "call3 n a b c = Sys n [a, b, c]"

definition d_printProcesses :: ucall where "d_printProcesses = call3 10 0 0 0"
definition d_removeProcess :: "int \<Rightarrow> ucall" where "d_removeProcess pid = call3 11 pid 0 0"
definition d_lockMutex :: "int \<Rightarrow> ucall" where "d_lockMutex mut = call3 20 mut 0 0"
definition d_freeMutex :: "int \<Rightarrow> ucall" where "d_freeMutex mut = call3 21 mut 0 0"
definition d_getMutex :: "int \<Rightarrow> ucall" where "d_getMutex name = call3 19 name 0 0"
definition d_createProcess :: "int \<Rightarrow> int \<Rightarrow> int \<Rightarrow> ucall" where "d_createProcess entry name args = call3 23 entry name args"
definition d_wait :: "int \<Rightarrow> ucall" where "d_wait semaphore = call3 25 semaphore 0 0"
definition d_signal :: "int \<Rightarrow> ucall" where "d_signal semaphore = call3 15 semaphore 0 0"
definition d_semOpen :: "int \<Rightarrow> ucall" where "d_semOpen name = call3 16 name 0 0"
definition d_semCreate :: "int \<Rightarrow> int \<Rightarrow> ucall" where "d_semCreate name start = call3 17 name start 0"
definition d_semClose :: "int \<Rightarrow> ucall" where "d_semClose index = call3 18 index 0 0"
definition d_sleep :: "int \<Rightarrow> ucall" where "d_sleep time = call3 24 time 0 0"
definition d_malloc :: "int \<Rightarrow> ucall" where "d_malloc bytes = call3 13 bytes 0 0"

text \<open>Input and output: \<open>getchar\<close> polls into a variable, and \<open>putNumber\<close> takes its buffer from the heap.\<close>

definition d_getchar :: "byte list \<Rightarrow> (byte \<times> byte list) option" where "d_getchar = u_getchar"

definition d_putNumber :: "int \<Rightarrow> ucall list" where
  "d_putNumber n = d_malloc 20 # (if n < 0 then d_putchar 45 else []) @
     u_print d_putchar (u_digits (if n < 0 then sint (word_of_int (- n) :: 32 word) else n) [])"

definition d_printFF :: "cstring \<Rightarrow> cstring list option \<Rightarrow> int list option \<Rightarrow> outcome" where
  "d_printFF = u_printFF d_putchar d_putNumber"

definition d_scanFF :: "int \<Rightarrow> cstring \<Rightarrow> addr list option \<Rightarrow> int list option \<Rightarrow> byte list \<Rightarrow> memory \<Rightarrow>
    (bool \<times> ucall list \<times> byte list \<times> memory) option" where
  "d_scanFF = u_scanFF d_putNumber"

definition d_strcmp :: "cstring \<Rightarrow> cstring \<Rightarrow> int" where "d_strcmp = strcmp"
definition d_strcmpN :: "cstring \<Rightarrow> cstring \<Rightarrow> int \<Rightarrow> int" where "d_strcmpN = strcmpN"

text \<open>What a producer and a consumer say of a character, with the number that their argument points to.\<close>

definition producer_says :: "int \<Rightarrow> int \<Rightarrow> outcome" where
  "producer_says ctx item = d_printFF (lit ''Producer %d producing: %d'' @ [10]) None (Some [ctx, item])"

definition consumer_says :: "int \<Rightarrow> int \<Rightarrow> outcome" where
  "consumer_says ctx item = d_printFF (lit ''Consumer %d consuming: %d'' @ [10]) None (Some [ctx, item])"

lemma producer_says_number:
  "producer_says ctx item = Returns (u_print d_putchar (lit ''Producer '') @ d_putNumber ctx @
     u_print d_putchar (lit '' producing: '') @ d_putNumber item @ d_putchar 10)"
  by (simp add: producer_says_def d_printFF_def u_printFF_def lit_def)

lemma consumer_says_number:
  "consumer_says ctx item = Returns (u_print d_putchar (lit ''Consumer '') @ d_putNumber ctx @
     u_print d_putchar (lit '' consuming: '') @ d_putNumber item @ d_putchar 10)"
  by (simp add: consumer_says_def d_printFF_def u_printFF_def lit_def)

text \<open>The function of the kernel behind a call.\<close>

definition reaches :: "ucall \<Rightarrow> sysfun option" where
  "reaches c = (case c of Sys n args \<Rightarrow> map_of sys_table n | Write b \<Rightarrow> Some Sys_writeC)"

lemma calls_reach_their_functions:
  "reaches d_printProcesses = Some Sys_printProcesses" "reaches (d_removeProcess pid) = Some Sys_kill"
  "reaches (d_lockMutex m) = Some Sys_lockMutex" "reaches (d_freeMutex m) = Some Sys_freeMutex"
  "reaches (d_getMutex name) = Some Sys_getMutex" "reaches (d_createProcess e name a) = Some Sys_createProcess"
  "reaches (d_wait k) = Some Sys_wait" "reaches (d_signal k) = Some Sys_signal" "reaches (d_semOpen name) = Some Sys_semOpen"
  "reaches (d_semCreate name n) = Some Sys_semCreate" "reaches (d_semClose k) = Some Sys_semClose"
  "reaches (d_sleep t) = Some Sys_sleep" "reaches (d_malloc n) = Some Sys_mallock"
  by (simp_all add: reaches_def call3_def sys_table_def upt_rec d_printProcesses_def d_removeProcess_def d_lockMutex_def d_freeMutex_def
      d_getMutex_def d_createProcess_def d_wait_def d_signal_def d_semOpen_def d_semCreate_def d_semClose_def d_sleep_def d_malloc_def)

text \<open>\<open>d_intToString\<close> always writes two digits; its argument \<open>digits\<close> is not used.\<close>

definition d_intToString :: "int \<Rightarrow> addr \<Rightarrow> int \<Rightarrow> memory \<Rightarrow> memory" where
  "d_intToString n buffer digits m =
     m(buffer := word_of_int ((n sdiv 10) smod 10 + 48), buffer + 1 := word_of_int (n smod 10 + 48), buffer + 2 := 0)"

section \<open>Starting and removing producers and consumers\<close>

text \<open>
  The symbols whose addresses the program passes on, and its global variables. An index outside
  of an array is \<open>None\<close>.
\<close>

datatype symbol = Fun_producer | Fun_consumer | Fun_philospher | Var_producerID | Var_consumerID | Str string

record crew =
  consumerID :: "int list"
  producerID :: "int list"
  consumerPid :: "int list"
  producerPid :: "int list"
  producers :: int
  consumers :: int
  g_itemMutex :: int
  g_fullCount :: int
  g_emptyCount :: int

definition put_at :: "int \<Rightarrow> int \<Rightarrow> int list \<Rightarrow> int list option" where
  "put_at i x xs = (if 0 \<le> i \<and> i < int (length xs) then Some (xs[nat i := x]) else None)"

definition get_at :: "int \<Rightarrow> int list \<Rightarrow> int option" where
  "get_at i xs = (if 0 \<le> i \<and> i < int (length xs) then Some (xs ! nat i) else None)"

text \<open>The statements that start the last producer and the last consumer, with the answer of the call.\<close>

definition start_producer :: "(symbol \<Rightarrow> int) \<Rightarrow> int \<Rightarrow> crew \<Rightarrow> (calls \<times> crew) option" where
  "start_producer A pid s =
     map_option (\<lambda>pids. ([(d_createProcess (A Fun_producer) (A (Str ''PRODUCER'')) (A Var_producerID + 4 * (producers s - 1)), pid)],
       s\<lparr>producerPid := pids\<rparr>)) (put_at (producers s - 1) pid (producerPid s))"

definition start_consumer :: "(symbol \<Rightarrow> int) \<Rightarrow> int \<Rightarrow> crew \<Rightarrow> (calls \<times> crew) option" where
  "start_consumer A pid s =
     map_option (\<lambda>pids. ([(d_createProcess (A Fun_consumer) (A (Str ''CONSUMER'')) (A Var_consumerID + 4 * (consumers s - 1)), pid)],
       s\<lparr>consumerPid := pids\<rparr>)) (put_at (consumers s - 1) pid (consumerPid s))"

text \<open>One key of \<open>control\<close> other than \<open>q\<close>; \<open>pid\<close> is what \<open>createProcess\<close> answers, if it is called.\<close>

definition control_key :: "(symbol \<Rightarrow> int) \<Rightarrow> byte \<Rightarrow> int \<Rightarrow> crew \<Rightarrow> (calls \<times> crew) option" where
  "control_key A c pid s =
     (if c = 99 then
        (if consumers s + 1 \<le> int MAX_CONSUMER then
           Option.bind (put_at (consumers s) (consumers s) (consumerID s))
             (\<lambda>ids. start_consumer A pid (s\<lparr>consumerID := ids, consumers := consumers s + 1\<rparr>))
         else Some ([], s))
      else if c = 112 then
        (if producers s + 1 \<le> int MAX_PRODUCER then
           Option.bind (put_at (producers s) (producers s) (producerID s))
             (\<lambda>ids. start_producer A pid (s\<lparr>producerID := ids, producers := producers s + 1\<rparr>))
         else Some ([], s))
      else if c = 122 then
        (if producers s - 1 \<ge> 0 then
           map_option (\<lambda>p. ([(d_removeProcess p, 0)], s\<lparr>producers := producers s - 1\<rparr>)) (get_at (producers s - 1) (producerPid s))
         else Some ([], s))
      else if c = 120 then
        (if consumers s - 1 \<ge> 0 then
           map_option (\<lambda>p. ([(d_removeProcess p, 0)], s\<lparr>consumers := consumers s - 1\<rparr>)) (get_at (consumers s - 1) (consumerPid s))
         else Some ([], s))
      else Some ([], s))"

function kill_loop :: "int list \<Rightarrow> int \<Rightarrow> int \<Rightarrow> calls option" where
  "kill_loop pids n i =
     (if i < n then Option.bind (get_at i pids) (\<lambda>p. map_option ((#) (d_removeProcess p, 0)) (kill_loop pids n (i + 1)))
      else Some [])"
  by auto
termination by (relation "measure (\<lambda>(pids, n, i). nat (n - i))") auto

declare kill_loop.simps [simp del]

definition killAllProcesses :: "crew \<Rightarrow> calls option" where
  "killAllProcesses s =
     Option.bind (kill_loop (producerPid s) (producers s) 0)
       (\<lambda>a. map_option (\<lambda>b. a @ b) (kill_loop (consumerPid s) (consumers s) 0))"

definition unanswered :: "ucall list \<Rightarrow> calls" where
  "unanswered cs = map (\<lambda>c. (c, 0)) cs"

definition d_print :: "string \<Rightarrow> calls" where
  "d_print str = unanswered (u_print d_putchar (lit str))"

text \<open>
  \<open>control\<close> on the keys that are typed, each with an answer for \<open>createProcess\<close>; the flag says
  that it has returned.
\<close>

fun control :: "(symbol \<Rightarrow> int) \<Rightarrow> (byte \<times> int) list \<Rightarrow> crew \<Rightarrow> (calls \<times> crew \<times> bool) option" where
  "control A [] s = Some ([], s, False)"
| "control A ((c, pid) # keys) s =
     (if c = 113 then map_option (\<lambda>log. (log @ d_print ''PASOOO'', s, True)) (killAllProcesses s)
      else Option.bind (control_key A c pid s)
        (\<lambda>(log, t). map_option (\<lambda>(log', r). (log @ log', r)) (control A keys t)))"

definition prodCons :: "(symbol \<Rightarrow> int) \<Rightarrow> int \<times> int \<times> int \<Rightarrow> int \<times> int \<Rightarrow> (byte \<times> int) list \<Rightarrow> crew \<Rightarrow> (calls \<times> crew \<times> bool) option" where
  "prodCons A sems pids keys s =
     (let (i, f, e) = sems; (p, c) = pids;
          log0 = [(d_semCreate (A (Str ''itemMutex'')) 1, i), (d_semCreate (A (Str ''fullCount'')) 0, f),
                  (d_semCreate (A (Str ''emptyCount'')) (int pc_bufferSize), e)];
          s0 = s\<lparr>g_itemMutex := i, g_fullCount := f, g_emptyCount := e,
                  consumerID := (consumerID s)[0 := 0], producerID := (producerID s)[0 := 0]\<rparr> in
      Option.bind (start_producer A p s0) (\<lambda>(log1, s1).
      Option.bind (start_consumer A c s1) (\<lambda>(log2, s2).
      map_option (\<lambda>(log3, r). (log0 @ log1 @ log2 @ log3, r)) (control A keys s2))))"

text \<open>
  \<open>_start\<close> clears the variables that have no initial value. The program is in memory only once, so
  that \<open>producers\<close> and \<open>consumers\<close> keep the values of its last run.
\<close>

definition crew_loaded :: crew where
  "crew_loaded = \<lparr>consumerID = replicate (MAX_CONSUMER + 1) 0, producerID = replicate (MAX_PRODUCER + 1) 0,
     consumerPid = replicate (MAX_CONSUMER + 1) 0, producerPid = replicate (MAX_PRODUCER + 1) 0,
     producers = 1, consumers = 1, g_itemMutex = 0, g_fullCount = 0, g_emptyCount = 0\<rparr>"

definition clear_bss :: "crew \<Rightarrow> crew" where
  "clear_bss s = crew_loaded\<lparr>producers := producers s, consumers := consumers s\<rparr>"


section \<open>Who is started and who is removed\<close>

definition hired :: "calls \<Rightarrow> int list" where
  "hired log = map snd (filter (\<lambda>(c, a). reaches c = Some Sys_createProcess) log)"

definition fired :: "calls \<Rightarrow> int list" where
  "fired log = map (\<lambda>(c, a). case c of Sys n args \<Rightarrow> hd args | Write b \<Rightarrow> 0) (filter (\<lambda>(c, a). reaches c = Some Sys_kill) log)"

definition roster :: "crew \<Rightarrow> int list" where
  "roster s = take (nat (producers s)) (producerPid s) @ take (nat (consumers s)) (consumerPid s)"

definition crew_ok :: "crew \<Rightarrow> bool" where
  "crew_ok s \<longleftrightarrow> producers s \<in> {0..int MAX_PRODUCER} \<and> consumers s \<in> {0..int MAX_CONSUMER} \<and>
     length (producerID s) = MAX_PRODUCER + 1 \<and> length (producerPid s) = MAX_PRODUCER + 1 \<and>
     length (consumerID s) = MAX_CONSUMER + 1 \<and> length (consumerPid s) = MAX_CONSUMER + 1"

lemma hired_append [simp]: "hired [] = []" "hired (xs @ ys) = hired xs @ hired ys"
  and fired_append [simp]: "fired [] = []" "fired (xs @ ys) = fired xs @ fired ys"
  by (simp_all add: hired_def fired_def)

lemma hired_create [simp]: "hired ((d_createProcess e n a, pid) # log) = pid # hired log"
  and hired_remove [simp]: "hired ((d_removeProcess p, x) # log) = hired log"
  and hired_sem [simp]: "hired ((d_semCreate k v, x) # log) = hired log"
  and fired_create [simp]: "fired ((d_createProcess e n a, pid) # log) = fired log"
  and fired_remove [simp]: "fired ((d_removeProcess p, x) # log) = p # fired log"
  and fired_sem [simp]: "fired ((d_semCreate k v, x) # log) = fired log"
  by (simp_all add: hired_def fired_def calls_reach_their_functions) (simp add: d_removeProcess_def call3_def)

lemma reaches_print: "(c, a) \<in> set (d_print str) \<Longrightarrow> reaches c = Some Sys_writeC"
proof -
  have "c \<in> set (u_print d_putchar cs) \<Longrightarrow> reaches c = Some Sys_writeC" for cs
    by (induction cs) (auto simp: d_putchar_def reaches_def)
  then show "(c, a) \<in> set (d_print str) \<Longrightarrow> reaches c = Some Sys_writeC" by (auto simp: d_print_def unanswered_def)
qed

lemma hired_print [simp]: "hired (d_print str) = []"
  and fired_print [simp]: "fired (d_print str) = []"
  by (auto simp: hired_def fired_def filter_empty_conv dest: reaches_print)

lemma take_put: "n < length xs \<Longrightarrow> take (Suc n) (xs[n := x]) = take n xs @ [x]"
  by (simp add: take_Suc_conv_app_nth)

text \<open>A key starts what it adds to the roster and removes what it takes from it.\<close>

lemma start_producer_hires:
  assumes "crew_ok s" "0 < producers s"
  obtains log t where "start_producer A pid s = Some (log, t)" "crew_ok t" "hired log = [pid]" "fired log = []"
    "producers t = producers s" "consumers t = consumers s" "consumerPid t = consumerPid s"
    "take (nat (producers t)) (producerPid t) = take (nat (producers s - 1)) (producerPid s) @ [pid]"
proof -
  define n where "n = nat (producers s - 1)"
  have n: "producers s - 1 = int n" "nat (producers s) = Suc n" "n < length (producerPid s)"
    using assms by (auto simp: n_def crew_ok_def)
  show ?thesis
    by (rule that [of _ "s\<lparr>producerPid := (producerPid s)[n := pid]\<rparr>"])
       (use assms(1) n in \<open>simp_all add: start_producer_def put_at_def crew_ok_def take_put\<close>, simp_all)
qed

lemma start_consumer_hires:
  assumes "crew_ok s" "0 < consumers s"
  obtains log t where "start_consumer A pid s = Some (log, t)" "crew_ok t" "hired log = [pid]" "fired log = []"
    "producers t = producers s" "consumers t = consumers s" "producerPid t = producerPid s"
    "take (nat (consumers t)) (consumerPid t) = take (nat (consumers s - 1)) (consumerPid s) @ [pid]"
proof -
  define n where "n = nat (consumers s - 1)"
  have n: "consumers s - 1 = int n" "nat (consumers s) = Suc n" "n < length (consumerPid s)"
    using assms by (auto simp: n_def crew_ok_def)
  show ?thesis
    by (rule that [of _ "s\<lparr>consumerPid := (consumerPid s)[n := pid]\<rparr>"])
       (use assms(1) n in \<open>simp_all add: start_consumer_def put_at_def crew_ok_def take_put\<close>, simp_all)
qed

definition accounted :: "calls \<Rightarrow> crew \<Rightarrow> int list \<Rightarrow> bool" where
  "accounted log s rest \<longleftrightarrow> mset (roster s) + mset (hired log) = mset (fired log) + mset rest"

lemma accounted_append: "accounted xs s (roster t) \<Longrightarrow> accounted ys t rest \<Longrightarrow> accounted (xs @ ys) s rest"
  unfolding accounted_def hired_append fired_append mset_append
  by (metis (no_types, opaque_lifting) add.assoc add.commute)

lemma take_last_off: "0 < n \<Longrightarrow> n \<le> length xs \<Longrightarrow> mset (take n xs) = mset (take (n - 1) xs) + {#xs ! (n - 1)#}"
  by (cases n) (simp_all add: take_Suc_conv_app_nth)

lemma control_key_accounted:
  assumes "crew_ok s"
  obtains log t where "control_key A c pid s = Some (log, t)" "crew_ok t" "accounted log s (roster t)"
proof -
  note ok = assms [unfolded crew_ok_def]
  consider (more_c) "c = 99" "consumers s + 1 \<le> int MAX_CONSUMER" | (more_p) "c = 112" "producers s + 1 \<le> int MAX_PRODUCER"
    | (less_p) "c = 122" "producers s - 1 \<ge> 0" | (less_c) "c = 120" "consumers s - 1 \<ge> 0"
    | (other) "c = 99 \<longrightarrow> \<not> consumers s + 1 \<le> int MAX_CONSUMER" "c = 112 \<longrightarrow> \<not> producers s + 1 \<le> int MAX_PRODUCER"
        "c = 122 \<longrightarrow> \<not> producers s - 1 \<ge> 0" "c = 120 \<longrightarrow> \<not> consumers s - 1 \<ge> 0" by blast
  then show ?thesis
  proof cases
    case more_c
    define u where "u = s\<lparr>consumerID := (consumerID s)[nat (consumers s) := consumers s], consumers := consumers s + 1\<rparr>"
    have "crew_ok u" "0 < consumers u" using ok more_c(2) by (auto simp: u_def crew_ok_def)
    then obtain log t where t: "start_consumer A pid u = Some (log, t)" "crew_ok t" "hired log = [pid]" "fired log = []"
      "producers t = producers u" "consumers t = consumers u" "producerPid t = producerPid u"
      "take (nat (consumers t)) (consumerPid t) = take (nat (consumers u - 1)) (consumerPid u) @ [pid]"
      by (rule start_consumer_hires)
    have "control_key A c pid s = Some (log, t)" using more_c ok t(1) by (simp add: control_key_def put_at_def u_def)
    from this t(2) show ?thesis by (rule that) (use t(3-8) in \<open>simp add: accounted_def roster_def u_def\<close>)
  next
    case more_p
    define u where "u = s\<lparr>producerID := (producerID s)[nat (producers s) := producers s], producers := producers s + 1\<rparr>"
    have "crew_ok u" "0 < producers u" using ok more_p(2) by (auto simp: u_def crew_ok_def)
    then obtain log t where t: "start_producer A pid u = Some (log, t)" "crew_ok t" "hired log = [pid]" "fired log = []"
      "producers t = producers u" "consumers t = consumers u" "consumerPid t = consumerPid u"
      "take (nat (producers t)) (producerPid t) = take (nat (producers u - 1)) (producerPid u) @ [pid]"
      by (rule start_producer_hires)
    have "control_key A c pid s = Some (log, t)" using more_p ok t(1) by (simp add: control_key_def put_at_def u_def)
    from this t(2) show ?thesis by (rule that) (use t(3-8) in \<open>simp add: accounted_def roster_def u_def\<close>)
  next
    case less_p
    let ?n = "nat (producers s)"
    have n: "nat (producers s - 1) = ?n - 1" "0 < ?n" "?n \<le> length (producerPid s)" using less_p(2) ok by auto
    have "control_key A c pid s = Some ([(d_removeProcess (producerPid s ! (?n - 1)), 0)], s\<lparr>producers := producers s - 1\<rparr>)"
      using less_p ok n by (simp add: control_key_def get_at_def)
    moreover have "crew_ok (s\<lparr>producers := producers s - 1\<rparr>)" using ok less_p(2) by (simp add: crew_ok_def)
    ultimately show ?thesis
      by (rule that) (use n(1) take_last_off [OF n(2,3)] in \<open>simp add: accounted_def roster_def ac_simps\<close>)
  next
    case less_c
    let ?n = "nat (consumers s)"
    have n: "nat (consumers s - 1) = ?n - 1" "0 < ?n" "?n \<le> length (consumerPid s)" using less_c(2) ok by auto
    have "control_key A c pid s = Some ([(d_removeProcess (consumerPid s ! (?n - 1)), 0)], s\<lparr>consumers := consumers s - 1\<rparr>)"
      using less_c ok n by (simp add: control_key_def get_at_def)
    moreover have "crew_ok (s\<lparr>consumers := consumers s - 1\<rparr>)" using ok less_c(2) by (simp add: crew_ok_def)
    ultimately show ?thesis
      by (rule that) (use n(1) take_last_off [OF n(2,3)] in \<open>simp add: accounted_def roster_def ac_simps\<close>)
  next
    case other
    then have "control_key A c pid s = Some ([], s)" unfolding control_key_def by simp
    then show ?thesis using assms by (rule that) (simp add: accounted_def)
  qed
qed

lemma kill_loop_all:
  "0 \<le> i \<Longrightarrow> n \<le> int (length pids) \<Longrightarrow>
     kill_loop pids n i = Some (map (\<lambda>p. (d_removeProcess p, 0)) (drop (nat i) (take (nat n) pids)))"
proof (induction pids n i rule: kill_loop.induct)
  case (1 pids n i)
  show ?case
  proof (cases "i < n")
    case True
    then have "nat i < length (take (nat n) pids)" "get_at i pids = Some (pids ! nat i)" using "1.prems" by (auto simp: get_at_def)
    moreover have "nat (i + 1) = Suc (nat i)" using "1.prems" by simp
    ultimately show ?thesis using 1 True by (subst kill_loop.simps) (simp add: Cons_nth_drop_Suc [symmetric])
  next
    case False
    then show ?thesis by (subst kill_loop.simps) simp
  qed
qed

lemma removes_only: "hired (map (\<lambda>p. (d_removeProcess p, 0)) ps) = []" "fired (map (\<lambda>p. (d_removeProcess p, 0)) ps) = ps"
  by (induction ps) simp_all

lemma killAllProcesses_fires:
  assumes "crew_ok s"
  obtains log where "killAllProcesses s = Some log" "hired log = []" "fired log = roster s"
  using assms by (auto simp: killAllProcesses_def kill_loop_all crew_ok_def removes_only roster_def intro: that)

lemma control_accounted:
  assumes "crew_ok s"
  obtains log t fin where "control A keys s = Some (log, t, fin)" "crew_ok t"
    "accounted log s (if fin then [] else roster t)" "fin \<longleftrightarrow> 113 \<in> fst ` set keys"
  using assms
proof (induction A keys s arbitrary: thesis rule: control.induct)
  case (1 A s)
  then show ?case using "1.prems"(1) [of "[]" s False] by (simp add: accounted_def)
next
  case (2 A c pid keys s)
  show ?case
  proof (cases "c = 113")
    case True
    obtain log where "killAllProcesses s = Some log" "hired log = []" "fired log = roster s"
      by (rule killAllProcesses_fires [OF "2.prems"(2)])
    then show ?thesis using True "2.prems" by (simp add: accounted_def)
  next
    case False
    obtain log u where u: "control_key A c pid s = Some (log, u)" "crew_ok u" "accounted log s (roster u)"
      by (rule control_key_accounted [OF "2.prems"(2)])
    obtain log' t don where t: "control A keys u = Some (log', t, don)" "crew_ok t" "accounted log' u (if don then [] else roster t)" "don \<longleftrightarrow> 113 \<in> fst ` set keys"
      by (rule "2.IH" [OF False u(1) refl _ u(2)]) (rule that, assumption+)
    show ?thesis by (rule "2.prems"(1) [of "log @ log'" t don]) (use False u t accounted_append [OF u(3) t(3)] in simp_all)
  qed
qed


text \<open>
  C40: In the first run of the program every key that is typed has a meaning: no index leaves its
  array, and there are never more than ten producers or consumers. Each process that was started
  is removed exactly once or still on the roster, and after \<open>q\<close> none is left.
\<close>

theorem control_removes_what_it_started:
  assumes "producers s = 1" "consumers s = 1"
  shows "\<exists>log t fin. prodCons A sems pids keys (clear_bss s) = Some (log, t, fin) \<and>
    producers t \<in> {0..10} \<and> consumers t \<in> {0..10} \<and> (fin \<longleftrightarrow> 113 \<in> fst ` set keys) \<and>
    mset (hired log) = mset (fired log) + (if fin then {#} else mset (roster t))"
proof -
  obtain i f e p c where w: "sems = (i, f, e)" "pids = (p, c)" by (cases sems, cases pids)
  let ?s = "(clear_bss s)\<lparr>g_itemMutex := i, g_fullCount := f, g_emptyCount := e,
    consumerID := (consumerID (clear_bss s))[0 := 0], producerID := (producerID (clear_bss s))[0 := 0]\<rparr>"
  have ok: "crew_ok ?s" "producers ?s = 1" "consumers ?s = 1"
    using assms by (simp_all add: crew_ok_def clear_bss_def crew_loaded_def MAX_PRODUCER_def MAX_CONSUMER_def)
  obtain log1 t1 where t1: "start_producer A p ?s = Some (log1, t1)" "crew_ok t1" "hired log1 = [p]" "fired log1 = []"
    "producers t1 = producers ?s" "consumers t1 = consumers ?s" "consumerPid t1 = consumerPid ?s"
    "take (nat (producers t1)) (producerPid t1) = take (nat (producers ?s - 1)) (producerPid ?s) @ [p]"
    by (rule start_producer_hires [OF ok(1)]) (use ok(2) in simp, rule that, assumption+)
  obtain log2 t2 where t2: "start_consumer A c t1 = Some (log2, t2)" "crew_ok t2" "hired log2 = [c]" "fired log2 = []"
    "producers t2 = producers t1" "consumers t2 = consumers t1" "producerPid t2 = producerPid t1"
    "take (nat (consumers t2)) (consumerPid t2) = take (nat (consumers t1 - 1)) (consumerPid t1) @ [c]"
    by (rule start_consumer_hires [OF t1(2)]) (use ok(3) t1(6) in simp, rule that, assumption+)
  obtain log3 t fin where t: "control A keys t2 = Some (log3, t, fin)" "crew_ok t"
    "accounted log3 t2 (if fin then [] else roster t)" "fin \<longleftrightarrow> 113 \<in> fst ` set keys"
    by (rule control_accounted [OF t2(2)])
  let ?log = "[(d_semCreate (A (Str ''itemMutex'')) 1, i), (d_semCreate (A (Str ''fullCount'')) 0, f),
    (d_semCreate (A (Str ''emptyCount'')) (int pc_bufferSize), e)] @ log1 @ log2 @ log3"
  have run: "prodCons A sems pids keys (clear_bss s) = Some (?log, t, fin)"
    using t1(1) t2(1) t(1) by (simp add: prodCons_def w)
  have "roster t2 = [p, c]" using t1(5-8) t2(5-8) ok(2,3) by (simp add: roster_def)
  then have "mset (hired ?log) = mset (fired ?log) + (if fin then {#} else mset (roster t))"
    using t(3) t1(3,4) t2(3,4) by (simp add: accounted_def)
  then show ?thesis using run t(2,4) unfolding crew_ok_def MAX_PRODUCER_def MAX_CONSUMER_def by auto
qed

theorem control_removes_what_it_started_witness:
  "\<exists>log t. prodCons (\<lambda>_. 0) (0, 1, 2) (3, 4) [(112, 5), (99, 6), (122, 0), (113, 0)] (clear_bss crew_loaded) = Some (log, t, True) \<and>
    mset (hired log) = mset (fired log)"
  using control_removes_what_it_started [of crew_loaded "\<lambda>_. 0" "(0, 1, 2)" "(3, 4)" "[(112, 5), (99, 6), (122, 0), (113, 0)]"]
  by (auto simp: crew_loaded_def)

text \<open>
  In the next run the number of producers and consumers is still that of the last one, and the
  arrays are cleared: \<open>q\<close> removes process 0 once for each of the others.
\<close>

theorem next_run_removes_process_0:
  assumes "producers s = int n + 1" "consumers s = int m + 1" "n < 10" "m < 10"
  shows "\<exists>log t. prodCons A sems (p, c) [(113, x)] (clear_bss s) = Some (log, t, True) \<and>
    fired log = replicate n 0 @ p # replicate m 0 @ [c]"
proof -
  have up: "take (Suc k) ((replicate 11 (0 :: int))[k := y]) = replicate k 0 @ [y]" if "k < 10" for k y
    using that by (simp add: take_Suc_conv_app_nth)
  have idx: "nat (1 + int k) = Suc k" for k by simp
  obtain i f e where w: "sems = (i, f, e)" by (cases sems)
  define t where "t = (clear_bss s)\<lparr>g_itemMutex := i, g_fullCount := f, g_emptyCount := e,
    consumerID := (consumerID (clear_bss s))[0 := 0], producerID := (producerID (clear_bss s))[0 := 0],
    producerPid := (replicate 11 0)[n := p], consumerPid := (replicate 11 0)[m := c]\<rparr>"
  have ok: "crew_ok t" using assms by (simp add: t_def crew_ok_def clear_bss_def crew_loaded_def MAX_PRODUCER_def MAX_CONSUMER_def)
  have r: "roster t = replicate n 0 @ p # replicate m 0 @ [c]"
    using assms up [OF assms(3)] up [OF assms(4)] by (simp add: roster_def t_def clear_bss_def crew_loaded_def add.commute idx)
  obtain log where log: "killAllProcesses t = Some log" "hired log = []" "fired log = roster t"
    by (rule killAllProcesses_fires [OF ok])
  have "\<exists>log0. prodCons A sems (p, c) [(113, x)] (clear_bss s) = Some (log0 @ log @ d_print ''PASOOO'', t, True) \<and> fired log0 = []"
    using assms log(1) by (simp add: prodCons_def w start_producer_def start_consumer_def put_at_def clear_bss_def crew_loaded_def
        MAX_PRODUCER_def MAX_CONSUMER_def t_def)
  then show ?thesis using log(3) r by auto
qed

theorem next_run_without_producers_is_undefined:
  "producers s = 0 \<Longrightarrow> prodCons A sems pids keys (clear_bss s) = None"
  by (simp add: prodCons_def start_producer_def put_at_def clear_bss_def split: prod.split)

end
