(* ===== verification/Dconsole.thy ===== *)
theory Dconsole
  imports Dummy Console
begin

text \<open>
  The copy of the console that the test program is linked with, \<open>Userland/dummy/naiveConsole.c\<close>.
  The file is that of the kernel (theory \<open>Console\<close>), but \<open>putchar\<close> is a system call here, and the
  functions that write to the screen do so from user space. The lemmas show what the numbers look
  like that the program prints with it.
\<close>

text \<open>Memory of the program, which has the screen at \<open>nc_video\<close>, and \<open>currentVideo\<close>.\<close>

record dconsole =
  dc_mem :: memory
  dc_current :: addr

definition d_ncPrint :: "cstring \<Rightarrow> ucall list" where "d_ncPrint str = u_print d_putchar str"

definition d_ncPrintChar :: "byte \<Rightarrow> dconsole \<Rightarrow> dconsole" where
  "d_ncPrintChar character s = s\<lparr>dc_mem := (dc_mem s)(dc_current s := character), dc_current := dc_current s + 2\<rparr>"

text \<open>Nothing in the loop of \<open>ncNewline\<close> moves \<open>currentVideo\<close>: it ends after the first blank, or never.\<close>

definition d_ncNewline :: "dconsole \<Rightarrow> outcome" where
  "d_ncNewline s = (if (dc_current s - nc_video) mod (nc_width * 2) \<noteq> 0 then Diverges (d_putchar 32) else Returns (d_putchar 32))"

definition d_uintToBase :: "64 word \<Rightarrow> addr \<Rightarrow> 32 word \<Rightarrow> memory \<Rightarrow> (32 word \<times> memory) option" where
  "d_uintToBase = uintToBase"

text \<open>A number of 64 bits has at most 64 digits, so that the terminator is within 65 bytes.\<close>

definition d_ncPrintBase :: "64 word \<Rightarrow> 32 word \<Rightarrow> addr \<Rightarrow> memory \<Rightarrow> (ucall list \<times> memory) option" where
  "d_ncPrintBase val b buf m =
     (case d_uintToBase val buf b m of
        None \<Rightarrow> None
      | Some (digits, m1) \<Rightarrow> map_option (\<lambda>str. (d_ncPrint str, m1)) (cstr 65 m1 buf))"

definition d_ncPrintDec :: "64 word \<Rightarrow> addr \<Rightarrow> memory \<Rightarrow> (ucall list \<times> memory) option" where
  "d_ncPrintDec val = d_ncPrintBase val 10"

definition d_ncPrintHex :: "64 word \<Rightarrow> addr \<Rightarrow> memory \<Rightarrow> (ucall list \<times> memory) option" where
  "d_ncPrintHex val = d_ncPrintBase val 16"

definition d_ncPrintBin :: "64 word \<Rightarrow> addr \<Rightarrow> memory \<Rightarrow> (ucall list \<times> memory) option" where
  "d_ncPrintBin val = d_ncPrintBase val 2"

definition d_ncClear :: "dconsole \<Rightarrow> dconsole" where
  "d_ncClear s = s\<lparr>dc_mem := fold (\<lambda>i m. m(nc_video + i * 2 := 32)) [0..<nc_height * nc_width] (dc_mem s), dc_current := nc_video\<rparr>"


section \<open>Numbers\<close>

text \<open>Between base 2 and 36 every number is printed, digit by digit, from the buffer and at most 64 bytes behind it.\<close>

theorem d_ncPrintBase_prints_numeral:
  assumes "2 \<le> unat b" "unat b \<le> 36"
  shows "\<exists>ds m'. d_ncPrintBase v b buf m = Some (map (\<lambda>d. Write (digit_char (of_nat d))) ds, m') \<and>
    foldl (\<lambda>n d. n * unat b + d) 0 ds = unat v \<and> (\<forall>d \<in> set ds. d < unat b) \<and> (ds = [0] \<or> hd ds \<noteq> 0) \<and>
    (\<forall>x. x < buf \<or> buf + 64 < x \<longrightarrow> m' x = m x)"
proof -
  obtain ds m' where n: "uintToBase v buf b m = Some (of_nat (length ds), m')"
    "cstr 65 m' buf = Some (map (\<lambda>d. digit_char (of_nat d)) ds)" "foldl (\<lambda>n d. n * unat b + d) 0 ds = unat v"
    "\<forall>d \<in> set ds. d < unat b" "ds = [0] \<or> hd ds \<noteq> 0" "length ds \<le> 64" "\<forall>x. x < buf \<or> buf + length ds < x \<longrightarrow> m' x = m x"
    using uintToBase_numeral [OF assms] by blast
  have "u_print d_putchar cs = map Write cs" for cs by (induction cs) (simp_all add: d_putchar_def)
  then have "d_ncPrintBase v b buf m = Some (map (\<lambda>d. Write (digit_char (of_nat d))) ds, m')"
    by (simp add: d_ncPrintBase_def d_uintToBase_def n(1,2) d_ncPrint_def)
  then show ?thesis using n(3-7) by (intro exI [of _ ds] exI [of _ m']) auto
qed

end
