(* ===== verification/Cells.thy ===== *)
theory Cells
  imports Memory
begin

text \<open>
  Cells of eight bytes, the lowest byte first: pointers and 64-bit counters. A store is read
  back, a store elsewhere leaves a cell alone, and an \<open>int\<close> that is read from a cell is one half
  of it.
\<close>

text \<open>A cell of eight bytes, the lowest first.\<close>

definition ld64 :: "memory \<Rightarrow> addr \<Rightarrow> 64 word" where
  "ld64 m a = word_of_nat (unat (m a) + 2 ^ 8 * unat (m (a + 1)) + 2 ^ 16 * unat (m (a + 2)) + 2 ^ 24 * unat (m (a + 3)) +
     2 ^ 32 * unat (m (a + 4)) + 2 ^ 40 * unat (m (a + 5)) + 2 ^ 48 * unat (m (a + 6)) + 2 ^ 56 * unat (m (a + 7)))"

definition st64 :: "addr \<Rightarrow> 64 word \<Rightarrow> memory \<Rightarrow> memory" where
  "st64 a v m = m(a := ucast v, a + 1 := ucast (drop_bit 8 v), a + 2 := ucast (drop_bit 16 v), a + 3 := ucast (drop_bit 24 v),
     a + 4 := ucast (drop_bit 32 v), a + 5 := ucast (drop_bit 40 v), a + 6 := ucast (drop_bit 48 v), a + 7 := ucast (drop_bit 56 v))"

lemma ucast_byte: "unat (ucast (drop_bit k v) :: byte) = unat (v :: 64 word) div 2 ^ k mod 2 ^ 8"
  by (simp add: unsigned_ucast_eq unat_drop_bit_eq unsigned_take_bit_eq) (simp add: take_bit_eq_mod drop_bit_eq_div)

lemma eight_digits:
  fixes q0 :: nat
  assumes "q0 = r0 + 256 * q1" "q1 = r1 + 256 * q2" "q2 = r2 + 256 * q3" "q3 = r3 + 256 * q4"
    "q4 = r4 + 256 * q5" "q5 = r5 + 256 * q6" "q6 = r6 + 256 * q7" "q7 = r7"
  shows "r0 + 2 ^ 8 * r1 + 2 ^ 16 * r2 + 2 ^ 24 * r3 + 2 ^ 32 * r4 + 2 ^ 40 * r5 + 2 ^ 48 * r6 + 2 ^ 56 * r7 = q0"
  using assms by simp

lemma ld64_st64 [simp]: "ld64 (st64 a v m) a = v"
proof -
  let ?q = "\<lambda>k. unat v div 2 ^ k"
  have step: "?q k = ?q k mod 2 ^ 8 + 256 * ?q j" if "j = k + 8" for j k
    using that by (simp add: power_add div_mult2_eq)
  have "unat v < 2 ^ 64" using unsigned_less [of v] by simp
  then have top: "?q 56 = ?q 56 mod 2 ^ 8" by (simp add: less_mult_imp_div_less)
  have first: "unat v = unat v mod 2 ^ 8 + 256 * ?q 8" using step [of 8 0] by simp
  have b: "unat (ucast v :: byte) = unat v mod 2 ^ 8" using ucast_byte [of 0 v] by simp
  have "unat v mod 2 ^ 8 + 2 ^ 8 * (?q 8 mod 2 ^ 8) + 2 ^ 16 * (?q 16 mod 2 ^ 8) + 2 ^ 24 * (?q 24 mod 2 ^ 8) +
      2 ^ 32 * (?q 32 mod 2 ^ 8) + 2 ^ 40 * (?q 40 mod 2 ^ 8) + 2 ^ 48 * (?q 48 mod 2 ^ 8) + 2 ^ 56 * (?q 56 mod 2 ^ 8) = unat v"
    by (rule eight_digits [OF first step [of 16 8] step [of 24 16] step [of 32 24] step [of 40 32] step [of 48 40]
          step [of 56 48] top]) simp_all
  then show ?thesis by (simp add: ld64_def st64_def ucast_byte b)
qed

lemma st64_other [simp]: "c < a \<or> a + 8 \<le> c \<Longrightarrow> st64 a v m c = m c"
  by (auto simp: st64_def)

lemma ld64_cong:
  assumes "\<And>i. i < 8 \<Longrightarrow> m (a + i) = m' (a + i)"
  shows "ld64 m a = ld64 m' a"
  using assms [of 0] assms [of 1] assms [of 2] assms [of 3] assms [of 4] assms [of 5] assms [of 6] assms [of 7]
  by (simp add: ld64_def)

lemma ld64_st64_other [simp]: "a + 8 \<le> c \<or> c + 8 \<le> a \<Longrightarrow> ld64 (st64 a v m) c = ld64 m c"
  by (rule ld64_cong) auto

text \<open>What the \<open>int\<close> cells of the same memory see.\<close>

lemma ld32_sint:
  assumes "unat (m a) + 2 ^ 8 * unat (m (a + 1)) + 2 ^ 16 * unat (m (a + 2)) + 2 ^ 24 * unat (m (a + 3)) = unat w"
  shows "ld32 m a = sint (w :: 32 word)"
proof -
  define u where "u = int (unat w)"
  have u: "0 \<le> u" "u < 2 ^ 32" using unsigned_less [of w, where ?'a = int] by (simp_all add: u_def)
  have "(u + 2 ^ 31) mod 2 ^ 32 = (if 2 ^ 31 \<le> u then u - 2 ^ 31 else u + 2 ^ 31)"
  proof (cases "2 ^ 31 \<le> u")
    case True
    have "(u - 2 ^ 31 + 2 ^ 32) mod 2 ^ 32 = u - 2 ^ 31" unfolding mod_add_self2 using True u(2) by (intro mod_pos_pos_trivial) simp_all
    moreover have "u - 2 ^ 31 + 2 ^ 32 = u + 2 ^ 31" by simp
    ultimately show ?thesis using True by metis
  next
    case False
    then show ?thesis using u(1) by (simp add: mod_pos_pos_trivial)
  qed
  then have s: "sint w = (if 2 ^ 31 \<le> u then u - 2 ^ 32 else u)"
    using u by (simp add: u_def sint_uint signed_take_bit_eq_take_bit_shift take_bit_eq_mod)
  have "u = uint (m a) + 256 * uint (m (a + 1)) + 65536 * uint (m (a + 2)) + 16777216 * uint (m (a + 3))"
    using arg_cong [OF assms, of int] by (simp add: u_def)
  then show ?thesis unfolding s ld32_def Let_def by simp
qed


lemma ld32_low: "ld32 (st64 a v m) a = sint (ucast v :: 32 word)"
proof (rule ld32_sint)
  let ?q = "\<lambda>k. unat v div 2 ^ k"
  have b: "unat (ucast v :: byte) = unat v mod 2 ^ 8" using ucast_byte [of 0 v] by simp
  have w: "unat (ucast v :: 32 word) = unat v mod 2 ^ 32" by (simp add: unsigned_ucast_eq take_bit_eq_mod)
  have s: "?q k mod 2 ^ n = ?q k mod 2 ^ 8 + 2 ^ 8 * (?q (k + 8) mod 2 ^ (n - 8))" if "8 \<le> n" for k n
  proof -
    have "(2 :: nat) ^ n = 2 ^ 8 * 2 ^ (n - 8)" using that by (simp only: power_add [symmetric] le_add_diff_inverse)
    then have "?q k mod 2 ^ n = 2 ^ 8 * (?q k div 2 ^ 8 mod 2 ^ (n - 8)) + ?q k mod 2 ^ 8" by (simp only: mod_mult2_eq)
    moreover have "?q k div 2 ^ 8 = ?q (k + 8)" by (simp only: power_add div_mult2_eq)
    ultimately show ?thesis by simp
  qed
  show "unat (st64 a v m a) + 2 ^ 8 * unat (st64 a v m (a + 1)) + 2 ^ 16 * unat (st64 a v m (a + 2)) +
      2 ^ 24 * unat (st64 a v m (a + 3)) = unat (ucast v :: 32 word)"
    using s [of 32 0] s [of 24 8] s [of 16 16] by (simp add: st64_def ucast_byte b w)
qed

lemma ld32_high: "ld32 (st64 a v m) (a + 4) = sint (ucast (drop_bit 32 v) :: 32 word)"
proof -
  have d: "drop_bit (k + 32) v = drop_bit k (drop_bit 32 v)" for k by simp
  have "st64 a v m (a + 4 + i) = st64 (a + 4) (drop_bit 32 v) m (a + 4 + i)" if "i < 4" for i
  proof -
    from that consider "i = 0" | "i = 1" | "i = 2" | "i = 3" by linarith
    then show ?thesis by cases (simp_all add: st64_def)
  qed
  from this [of 0] this [of 1] this [of 2] this [of 3]
  have "ld32 (st64 a v m) (a + 4) = ld32 (st64 (a + 4) (drop_bit 32 v) m) (a + 4)" by (simp add: ld32_def)
  then show ?thesis by (simp add: ld32_low)
qed

end
