(* ===== verification/Dinner.thy ===== *)
theory Dinner
  imports Dconsole Cells
begin

text \<open>
  How \<open>Userland/dummy/dummy.c\<close> sets the table for the philosophers: it makes the mutex and a
  semaphore for each of them and starts them, each with a block of arguments. The lemmas say
  what the philosophers find in memory, among it the array of pointers that they read as an
  array of numbers.
\<close>

section \<open>Parameters\<close>

text \<open>
  The numbers of the command line. \<open>int\<close> wraps around, as on this machine; no program calls
  \<open>validateParameters\<close>.
\<close>

definition wrap_int :: "int \<Rightarrow> int" where "wrap_int n = sint (word_of_int n :: 32 word)"

definition d_isdigit :: "byte \<Rightarrow> bool" where
  "d_isdigit c = (let ch = sint c - 48 in ch \<le> 9 \<and> ch \<ge> 0)"

fun d_isNotInteger_loop :: "cstring \<Rightarrow> int \<Rightarrow> int" where
  "d_isNotInteger_loop [] integer = integer"
| "d_isNotInteger_loop (c # cs) integer =
     (if \<not> d_isdigit c then -1 else d_isNotInteger_loop cs (wrap_int (integer * 10 + (sint c - 48))))"

definition d_isNotInteger :: "cstring \<Rightarrow> int" where "d_isNotInteger c = d_isNotInteger_loop c 0"

definition d_println :: "string \<Rightarrow> calls" where
  "d_println str = d_print str @ unanswered (d_putchar 10)"

definition validateParameters :: "int \<Rightarrow> cstring list \<Rightarrow> (calls \<times> int \<times> int option) option" where
  "validateParameters cant toValidate =
     (if cant > 2 then Some (d_println ''Cantidad de parametros invalido'', -1, None)
      else map_option (\<lambda>input.
          if input = -1 then (d_println ''Error de parametros'', -1, Some input)
          else if input \<ge> 100 then (d_println ''La cantidad de filosofos no puede ser mayor o igual a 100'', -1, Some input)
          else ([], 0, Some input))
        (if cant = 1 then Some (int DEFAULTP)
         else if length toValidate > 1 then Some (d_isNotInteger (toValidate ! 1)) else None))"

section \<open>The table\<close>

text \<open>The line that announces philosopher \<open>i\<close>.\<close>

definition d_announce :: "nat \<Rightarrow> calls" where
  "d_announce i = d_print ''Philosopher '' @ unanswered (d_putNumber (int i + 1)) @ d_println '' is thinking''"

text \<open>
  Memory and the log of the calls. The arguments are the answers that the calls get, one for
  each round of a loop. \<open>array\<close> and \<open>ptrs\<close> are the address of \<open>semaphores\<close>, the array of pointers on the stack.
\<close>

fun initializeArray :: "addr \<Rightarrow> nat \<Rightarrow> addr list \<Rightarrow> calls \<times> memory \<Rightarrow> calls \<times> memory" where
  "initializeArray array i [] (log, m) = (log, m)"
| "initializeArray array i (a # as) (log, m) =
     initializeArray array (i + 1) as (log @ [(d_malloc 8, int a)], st64 (array + 8 * i) (of_nat a) m)"

text \<open>
  Both branches of the loop make the name of two digits. When the kernel has no semaphore left
  they print which branch it was, and the first one the number, with the buffer of the console at
  \<open>nc_buf\<close>; \<open>ncPrintDec\<close> always has an answer (\<open>d_ncPrintBase_prints_numeral\<close>).
\<close>

definition no_semaphore :: "addr \<Rightarrow> nat \<Rightarrow> memory \<Rightarrow> calls \<times> memory" where
  "no_semaphore nc_buf i m =
     (if i < 10 then
        (case d_ncPrintDec (of_nat i) nc_buf m of
           None \<Rightarrow> (d_print ''AQUI2'', m)
         | Some (shown, m1) \<Rightarrow> (d_print ''AQUI2'' @ unanswered shown, m1))
      else (d_print ''AQUI3'', m))"

fun startSemaphores_loop :: "addr \<Rightarrow> addr \<Rightarrow> nat \<Rightarrow> (addr \<times> int) list \<Rightarrow> calls \<times> memory \<Rightarrow> int \<times> calls \<times> memory" where
  "startSemaphores_loop nc_buf ptrs i [] (log, m) = (0, log, m)"
| "startSemaphores_loop nc_buf ptrs i ((buffer, sem) # answers) (log, m) =
     (let m1 = d_intToString (int i) buffer (if i < 10 then 1 else 2) m;
          m2 = st32 (unat (ld64 m1 (ptrs + 8 * i))) sem m1;
          log1 = log @ [(d_malloc 3, int buffer), (d_semCreate (int buffer) 0, sem)] in
      if sem = -1 then (let (printed, m3) = no_semaphore nc_buf i m2 in (-1, log1 @ printed, m3))
      else startSemaphores_loop nc_buf ptrs (i + 1) answers (log1, m2))"

definition startSemaphores ::
  "(symbol \<Rightarrow> int) \<Rightarrow> addr \<Rightarrow> addr \<Rightarrow> addr \<Rightarrow> int \<Rightarrow> (addr \<times> int) list \<Rightarrow> calls \<times> memory \<Rightarrow> int \<times> calls \<times> memory" where
  "startSemaphores A nc_buf mutex ptrs mtx answers s =
     (let log1 = fst s @ [(d_getMutex (A (Str ''mutexp'')), mtx)]; m1 = st32 mutex mtx (snd s) in
      if mtx = -1 then (-1, log1 @ d_print ''AQUI'', m1)
      else startSemaphores_loop nc_buf ptrs 0 answers (log1, m1))"

text \<open>The arguments of a philosopher: \<open>cant\<close>, \<open>sems\<close>, \<open>mutex\<close> and \<open>value\<close> at offsets 0, 8, 16 and 24.\<close>

definition put_arg :: "addr \<Rightarrow> int \<Rightarrow> addr \<Rightarrow> addr \<Rightarrow> int \<Rightarrow> memory \<Rightarrow> memory" where
  "put_arg a cant sems mutex val m =
     st32 (a + 24) val (st32 a cant (st64 (a + 16) (of_nat mutex) (st64 (a + 8) (of_nat sems) m)))"

fun createThreads ::
  "(symbol \<Rightarrow> int) \<Rightarrow> nat \<Rightarrow> addr \<Rightarrow> addr \<Rightarrow> nat \<Rightarrow> (addr \<times> int) list \<Rightarrow> calls \<times> memory \<Rightarrow> calls \<times> memory" where
  "createThreads A cant ptrs mutex i [] (log, m) = (log, m)"
| "createThreads A cant ptrs mutex i ((a, pid) # answers) (log, m) =
     createThreads A cant ptrs mutex (i + 1) answers
       (log @ [(d_malloc 32, int a), (d_createProcess (A Fun_philospher) (A (Str ''PHILO'')) (int a), pid)] @ d_announce i,
        put_arg a (int cant) ptrs mutex (int i) m)"

text \<open>
  \<open>dPhilosphers\<close>, which does not return once the philosophers run: the flag is set then. The
  answers of the kernel are given for each loop.
\<close>

record dinner =
  cells_at :: "addr list"
  mutex_is :: int
  sems_are :: "(addr \<times> int) list"
  args_at :: "(addr \<times> int) list"

definition dPhilosphers :: "(symbol \<Rightarrow> int) \<Rightarrow> addr \<Rightarrow> addr \<Rightarrow> addr \<Rightarrow> nat \<Rightarrow> dinner \<Rightarrow> memory \<Rightarrow> bool \<times> calls \<times> memory" where
  "dPhilosphers A nc_buf mutex ptrs number d m =
     (let s1 = initializeArray ptrs 0 (take number (cells_at d)) ([], m);
          (res, s2) = startSemaphores A nc_buf mutex ptrs (mutex_is d) (take number (sems_are d)) s1 in
      if res = -1 then (False, fst s2 @ d_print ''FALLO'', snd s2)
      else (True, createThreads A number ptrs mutex 0 (take number (args_at d)) s2))"

text \<open>
  \<open>main\<close>: the calls of the program that its argument names. \<open>philosophers\<close> takes five of them, and
  returns only when they cannot be started.
\<close>

definition philosophers :: "(symbol \<Rightarrow> int) \<Rightarrow> addr \<Rightarrow> addr \<Rightarrow> addr \<Rightarrow> dinner \<Rightarrow> memory \<Rightarrow> bool \<times> calls \<times> memory" where
  "philosophers A nc_buf mutex ptrs d m = dPhilosphers A nc_buf mutex ptrs DEFAULTP d m"

definition dummy_main :: "int \<Rightarrow> calls option \<Rightarrow> calls \<Rightarrow> calls option" where
  "dummy_main program prodcons_calls philosophers_calls =
     (if program = 1 then prodcons_calls else if program = 4 then Some philosophers_calls else Some [])"

section \<open>What the philosophers find\<close>

text \<open>The names differ as long as there are fewer than a hundred of them.\<close>

lemma two_digits:
  assumes "0 \<le> n" "n < 100"
  shows "cstr 3 (d_intToString n b d m) b = Some [word_of_int (n div 10 + 48), word_of_int (n mod 10 + 48)]"
proof -
  have d: "n sdiv 10 = n div 10" "n smod 10 = n mod 10" "(n div 10) smod 10 = n div 10"
    using assms by (auto simp: signed_divide_int_def signed_modulo_int_def sgn_if)
  have nz: "(word_of_int (k + 48) :: byte) \<noteq> 0" if "0 \<le> k" "k < 10" for k
    by (subst word_of_int_eq_0_iff) (use that in \<open>auto dest: zdvd_imp_le\<close>)
  have "(word_of_int (n div 10 + 48) :: byte) \<noteq> 0" "(word_of_int (n mod 10 + 48) :: byte) \<noteq> 0"
    by (rule nz; use assms in simp)+
  then show ?thesis by (simp add: d_intToString_def d numeral_3_eq_3)
qed

definition apart :: "addr \<Rightarrow> nat \<Rightarrow> addr \<Rightarrow> nat \<Rightarrow> bool" where
  "apart a n b k \<longleftrightarrow> a + n \<le> b \<or> b + k \<le> a"

lemma st32_apart: "apart a 4 p n \<Longrightarrow> p \<le> x \<Longrightarrow> x < p + n \<Longrightarrow> st32 a v m x = m x"
  by (rule st32_byte_other) (auto simp: apart_def)

lemma initializeArray_before: "x < array + 8 * i \<Longrightarrow> snd (initializeArray array i as (log, m)) x = m x"
  by (induction as arbitrary: i log m) auto

lemma initializeArray_bytes:
  "k < length as \<Longrightarrow> b < 8 \<Longrightarrow> snd (initializeArray array i as (log, m)) (array + 8 * (i + k) + b) =
     st64 (array + 8 * (i + k)) (of_nat (as ! k)) m' (array + 8 * (i + k) + b)"
proof (induction as arbitrary: i k log m)
  case (Cons a as)
  show ?case
  proof (cases k)
    case 0
    from Cons.prems(2) consider "b = 0" | "b = 1" | "b = 2" | "b = 3" | "b = 4" | "b = 5" | "b = 6" | "b = 7" by linarith
    then have "st64 (array + 8 * i) (of_nat a) m (array + 8 * i + b) = st64 (array + 8 * i) (of_nat a) m' (array + 8 * i + b)"
      by cases (simp_all add: st64_def)
    then show ?thesis using Cons.prems 0 by (simp add: initializeArray_before)
  next
    case (Suc j)
    then show ?thesis using Cons.IH [of j "i + 1"] Cons.prems by simp
  qed
qed simp

lemma startSemaphores_loop_keeps:
  assumes "\<And>k. k < length answers \<Longrightarrow> ld64 m (ptrs + 8 * (i + k)) = of_nat (cells ! (i + k))"
    and "i + length answers \<le> length cells" "length cells \<le> n"
    and "\<forall>c \<in> set cells. c < 2 ^ 64 \<and> apart c 4 ptrs (8 * n)"
    and "\<forall>(b, sem) \<in> set answers. sem \<noteq> -1 \<and> apart b 3 ptrs (8 * n)"
  obtains log' m' where "startSemaphores_loop nc_buf ptrs i answers (log, m) = (0, log', m')"
    "\<And>x. ptrs \<le> x \<Longrightarrow> x < ptrs + 8 * n \<Longrightarrow> m' x = m x"
  using assms
proof (induction answers arbitrary: i log m thesis)
  case Nil
  then show ?case by simp
next
  case (Cons a answers)
  obtain b sem where a: "a = (b, sem)" by (cases a)
  let ?m1 = "d_intToString (int i) b (if i < 10 then 1 else 2) m"
  let ?m2 = "st32 (unat (ld64 ?m1 (ptrs + 8 * i))) sem ?m1"
  let ?log = "log @ [(d_malloc 3, int b), (d_semCreate (int b) 0, sem)]"
  have b: "sem \<noteq> -1" "apart b 3 ptrs (8 * n)" using Cons.prems(6) a by auto
  have one: "?m1 x = m x" if "ptrs \<le> x" "x < ptrs + 8 * n" for x using b(2) that by (auto simp: apart_def d_intToString_def)
  have i: "i < length cells" "i < n" using Cons.prems(3,4) by simp_all
  have "ld64 ?m1 (ptrs + 8 * i) = ld64 m (ptrs + 8 * i)" by (rule ld64_cong, rule one) (use i in auto)
  then have "ld64 ?m1 (ptrs + 8 * i) = of_nat (cells ! i)" using Cons.prems(2) [of 0] by simp
  moreover have c: "cells ! i < 2 ^ 64" "apart (cells ! i) 4 ptrs (8 * n)" using Cons.prems(5) i(1) by auto
  ultimately have "unat (ld64 ?m1 (ptrs + 8 * i)) = cells ! i" by (simp add: unat_of_nat)
  then have two: "?m2 x = m x" if "ptrs \<le> x" "x < ptrs + 8 * n" for x
    using st32_apart [OF c(2) that] one [OF that] by simp
  have cells: "ld64 ?m2 (ptrs + 8 * (i + 1 + k)) = of_nat (cells ! (i + 1 + k))" if "k < length answers" for k
  proof -
    have "ld64 ?m2 (ptrs + 8 * (i + 1 + k)) = ld64 m (ptrs + 8 * (i + 1 + k))"
      by (rule ld64_cong, rule two) (use Cons.prems(3,4) that in auto)
    then show ?thesis using Cons.prems(2) [of "k + 1"] that by (simp add: add.assoc add.commute)
  qed
  obtain log' m' where r: "startSemaphores_loop nc_buf ptrs (i + 1) answers (?log, ?m2) = (0, log', m')"
    "\<And>x. ptrs \<le> x \<Longrightarrow> x < ptrs + 8 * n \<Longrightarrow> m' x = ?m2 x"
    by (rule Cons.IH [OF _ cells _ Cons.prems(4,5), of ?log]) (use Cons.prems(3,6) in auto)
  have "startSemaphores_loop nc_buf ptrs i (a # answers) (log, m) = (0, log', m')" using r(1) b(1) by (simp add: a Let_def)
  moreover have "m' x = m x" if "ptrs \<le> x" "x < ptrs + 8 * n" for x using r(2) [OF that] two [OF that] by simp
  ultimately show ?case by (rule Cons.prems(1))
qed

lemma createThreads_keeps:
  "\<forall>(a, pid) \<in> set answers. apart a 32 ptrs n \<Longrightarrow> ptrs \<le> x \<Longrightarrow> x < ptrs + n \<Longrightarrow>
     snd (createThreads A cant ptrs mutex i answers (log, m)) x = m x"
proof (induction answers arbitrary: i log m)
  case (Cons a answers)
  then show ?case by (cases a) (auto simp: apart_def put_arg_def st32_byte_other)
qed simp

text \<open>
  Once the table is set, the array that the philosophers read as an array of semaphores holds the
  halves of the pointers to them.
\<close>

theorem philosophers_read_half_pointers:
  assumes "length (cells_at d) = n" "length (sems_are d) = n" "length (args_at d) = n" "mutex_is d \<noteq> -1"
    and "\<forall>c \<in> set (cells_at d). c < 2 ^ 64 \<and> apart c 4 ptrs (8 * n)"
    and "\<forall>(b, sem) \<in> set (sems_are d). sem \<noteq> -1 \<and> apart b 3 ptrs (8 * n)"
    and "\<forall>(a, pid) \<in> set (args_at d). apart a 32 ptrs (8 * n)" "apart mutex 4 ptrs (8 * n)" "i < n"
  shows "\<exists>log m'. dPhilosphers A nc_buf mutex ptrs n d m = (True, log, m') \<and>
    ld32 m' (ptrs + 4 * i) = sem_arg (map of_nat (cells_at d)) i"
proof -
  obtain log1 m1 where 1: "initializeArray ptrs 0 (cells_at d) ([], m) = (log1, m1)" by fastforce
  have m1: "m1 (ptrs + 8 * k + b) = st64 (ptrs + 8 * k) (of_nat (cells_at d ! k)) m' (ptrs + 8 * k + b)" if "k < n" "b < 8" for k b m'
    using initializeArray_bytes [of k "cells_at d" b ptrs 0 "[]" m m'] that assms(1) 1 by simp
  let ?m2 = "st32 mutex (mutex_is d) m1"
  have m2: "?m2 x = m1 x" if "ptrs \<le> x" "x < ptrs + 8 * n" for x
    by (rule st32_apart [OF assms(8) that])
  have cells: "ld64 ?m2 (ptrs + 8 * (0 + k)) = of_nat (cells_at d ! (0 + k))" if "k < length (sems_are d)" for k
  proof -
    have "ld64 ?m2 (ptrs + 8 * k) = ld64 m1 (ptrs + 8 * k)" by (rule ld64_cong, rule m2) (use that assms(2) in auto)
    also have "\<dots> = ld64 (st64 (ptrs + 8 * k) (of_nat (cells_at d ! k)) m1) (ptrs + 8 * k)"
      by (rule ld64_cong) (use m1 that assms(2) in simp)
    finally show ?thesis by simp
  qed
  obtain log3 m3 where 3: "startSemaphores_loop nc_buf ptrs 0 (sems_are d) (log1 @ [(d_getMutex (A (Str ''mutexp'')), mutex_is d)], ?m2) = (0, log3, m3)"
    "\<And>x. ptrs \<le> x \<Longrightarrow> x < ptrs + 8 * n \<Longrightarrow> m3 x = ?m2 x"
    by (rule startSemaphores_loop_keeps [where n = n, OF cells _ _ assms(5,6)]) (use assms(1,2) in auto)
  obtain log4 m4 where 4: "createThreads A n ptrs mutex 0 (args_at d) (log3, m3) = (log4, m4)" by fastforce
  have m4: "m4 x = m1 x" if "ptrs \<le> x" "x < ptrs + 8 * n" for x
    using createThreads_keeps [OF assms(7) that, of A n mutex 0 log3 m3] 4 3(2) [OF that] m2 [OF that] by simp
  have "dPhilosphers A nc_buf mutex ptrs n d m = (True, log4, m4)"
    using assms(1-4) 1 3(1) 4 by (simp add: dPhilosphers_def startSemaphores_def)
  moreover have "ld32 m4 (ptrs + 4 * i) = sem_arg (map of_nat (cells_at d)) i"
  proof -
    let ?k = "i div 2" and ?h = "i mod 2"
    have k: "?k < n" "ptrs + 4 * i = ptrs + 8 * ?k + 4 * ?h" "4 * ?h + 4 \<le> 8" using assms(9) by presburger+
    have "m4 (ptrs + 8 * ?k + 4 * ?h + j) = st64 (ptrs + 8 * ?k) (of_nat (cells_at d ! ?k)) m (ptrs + 8 * ?k + (4 * ?h + j))" if "j < 4" for j
      using m4 [of "ptrs + 8 * ?k + 4 * ?h + j"] m1 [of ?k "4 * ?h + j" m] k that by (simp add: add.assoc)
    from this [of 0] this [of 1] this [of 2] this [of 3]
    have "ld32 m4 (ptrs + 8 * ?k + 4 * ?h) = ld32 (st64 (ptrs + 8 * ?k) (of_nat (cells_at d ! ?k)) m) (ptrs + 8 * ?k + 4 * ?h)"
      by (simp add: ld32_def add.assoc)
    also have "\<dots> = sem_arg (map of_nat (cells_at d)) i"
      using k(1) assms(1) by (cases "?h = 0") (simp_all add: sem_arg_def ld32_low ld32_high)
    finally show ?thesis by (simp only: k(2))
  qed
  ultimately show ?thesis by blast
qed

end
