(* ===== verification/Programs.thy ===== *)
theory Programs
  imports Syscalls Userlib
begin

text \<open>
  The remaining programs in user space: \<open>EDITOR/editor.c\<close>, \<open>FORTUNE/fortune.c\<close> and \<open>_loader.c\<close>,
  the code that every program starts with. The lemmas show how the editor is left, and what it
  does to the memory behind its buffer, and which fortune a name has.
\<close>

section \<open>The start of a program\<close>

text \<open>\<open>memset\<close> counts down, so that the last byte is stored first; the argument is an \<open>int\<close>.\<close>

primrec u_memset :: "addr \<Rightarrow> int \<Rightarrow> nat \<Rightarrow> memory \<Rightarrow> memory" where
  "u_memset destiation c 0 m = m"
| "u_memset destiation c (Suc len) m = u_memset destiation c len (m(destiation + len := word_of_int c))"

definition u_start :: "addr \<Rightarrow> addr \<Rightarrow> memory \<Rightarrow> memory" where
  "u_start bss endOfBinary m = u_memset bss 0 (endOfBinary - bss) m"

lemma u_memset_bytes: "u_memset a c n m x = (if a \<le> x \<and> x < a + n then word_of_int c else m x)"
  by (induction n arbitrary: m) auto

lemma u_start_clears: "bss \<le> e \<Longrightarrow> u_start bss e m x = (if bss \<le> x \<and> x < e then 0 else m x)"
  by (simp add: u_start_def u_memset_bytes)

section \<open>The libraries of the two programs\<close>

text \<open>Every program is linked with a copy of \<open>stdio.c\<close> of its own; these two are those of the shell.\<close>

definition e_malloc :: "int \<Rightarrow> ucall list" where "e_malloc = u_malloc"
definition e_putchar :: "byte \<Rightarrow> ucall list" where "e_putchar c = e_malloc 1 @ [Write c]"
definition e_getchar :: "byte list \<Rightarrow> (byte \<times> byte list) option" where "e_getchar = u_getchar"
definition e_print :: "cstring \<Rightarrow> ucall list" where "e_print = u_print e_putchar"
definition e_putNumber :: "int \<Rightarrow> ucall list" where "e_putNumber = u_putNumber e_putchar"
definition e_printFF :: "cstring \<Rightarrow> cstring list option \<Rightarrow> int list option \<Rightarrow> outcome" where
  "e_printFF = u_printFF e_putchar e_putNumber"
definition e_scanFF :: "int \<Rightarrow> cstring \<Rightarrow> addr list option \<Rightarrow> int list option \<Rightarrow> byte list \<Rightarrow> memory \<Rightarrow>
    (bool \<times> ucall list \<times> byte list \<times> memory) option" where
  "e_scanFF = u_scanFF e_putNumber"
definition e_strcmp :: "cstring \<Rightarrow> cstring \<Rightarrow> int" where "e_strcmp = strcmp"
definition e_strcmpN :: "cstring \<Rightarrow> cstring \<Rightarrow> int \<Rightarrow> int" where "e_strcmpN = strcmpN"

definition f_malloc :: "int \<Rightarrow> ucall list" where "f_malloc = u_malloc"
definition f_putchar :: "byte \<Rightarrow> ucall list" where "f_putchar c = f_malloc 1 @ [Write c]"
definition f_getchar :: "byte list \<Rightarrow> (byte \<times> byte list) option" where "f_getchar = u_getchar"
definition f_print :: "cstring \<Rightarrow> ucall list" where "f_print = u_print f_putchar"
definition f_putNumber :: "int \<Rightarrow> ucall list" where "f_putNumber = u_putNumber f_putchar"
definition f_printFF :: "cstring \<Rightarrow> cstring list option \<Rightarrow> int list option \<Rightarrow> outcome" where
  "f_printFF = u_printFF f_putchar f_putNumber"
definition f_scanFF :: "int \<Rightarrow> cstring \<Rightarrow> addr list option \<Rightarrow> int list option \<Rightarrow> byte list \<Rightarrow> memory \<Rightarrow>
    (bool \<times> ucall list \<times> byte list \<times> memory) option" where
  "f_scanFF = u_scanFF f_putNumber"
definition f_strcmp :: "cstring \<Rightarrow> cstring \<Rightarrow> int" where "f_strcmp = strcmp"
definition f_strcmpN :: "cstring \<Rightarrow> cstring \<Rightarrow> int \<Rightarrow> int" where "f_strcmpN = strcmpN"

text \<open>
  A line read with \<open>%s\<close>: \<open>bufferindex\<close> is set then, so that the value it has at first does not matter.
\<close>

definition line_of :: "(bool \<times> ucall list \<times> byte list \<times> memory) option \<Rightarrow> (bool \<times> memory \<times> byte list) option" where
  "line_of = map_option (\<lambda>(overflow, calls, rest, m). (overflow, m, rest))"

lemma line_of_scanFF:
  "line_of (e_scanFF k (lit ''%s'') (Some [s]) None input m) = u_scanFF_s input s m"
  "line_of (f_scanFF k (lit ''%s'') (Some [s]) None input m) = u_scanFF_s input s m"
  unfolding e_scanFF_def f_scanFF_def u_scanFF_string by (cases "u_scanFF_s input s m"; auto simp: line_of_def)+

section \<open>The editor\<close>

definition clearEditor :: "ucall list" where "clearEditor = [Sys 5 [0, 0]]"

text \<open>
  The loop of the editor on the characters that are typed, with its buffer of 30 bytes at \<open>sos\<close>,
  into which \<open>scanFF\<close> puts at most 101 bytes.
  The calls of the loop, memory, and the characters it leaves behind when it ends; \<open>None\<close> when
  the input ends before.
\<close>

lemma u_scan_line_shorter: "u_scan_line bs a i m = Some (a', i', m', rest) \<Longrightarrow> length rest < length bs"
proof (induction bs a i m rule: u_scan_line.induct)
  case (1 input a i m)
  obtain c cs where g: "u_getchar input = Some (c, cs)" using 1(4)
    by (subst (asm) u_scan_line.simps) (auto split: option.splits)
  note l = u_getchar_shorter [OF g]
  show ?case
    using 1(4) l "1.IH" [OF g refl]
    by (subst (asm) u_scan_line.simps) (auto simp: g simp del: fun_upd_apply split: if_splits)
qed

lemma u_scanFF_s_shorter: "u_scanFF_s bs a m = Some (ov, m', rest) \<Longrightarrow> length rest < length bs"
  by (auto simp: u_scanFF_s_def dest: u_scan_line_shorter)

function editor_loop :: "byte list \<Rightarrow> addr \<Rightarrow> memory \<Rightarrow> (ucall list \<times> memory \<times> byte list) option" where
  "editor_loop input sos m =
     (case e_getchar input of
        None \<Rightarrow> None
      | Some (c, rest) \<Rightarrow>
          if c = 37 then
            (case line_of (e_scanFF 0 (lit ''%s'') (Some [sos]) None rest m) of
               None \<Rightarrow> None
             | Some (overflow, m1, rest1) \<Rightarrow>
                 if map_option (\<lambda>str. e_strcmp str (lit ''exit'')) (cstr 101 m1 sos) = Some 0 then Some (clearEditor, m1, rest1)
                 else editor_loop rest1 sos m1)
          else editor_loop rest sos m)"
  by auto
termination
  by (relation "measure (\<lambda>(i, _). length i)")
     (auto simp: e_getchar_def line_of_scanFF dest!: u_getchar_shorter [OF sym] u_scanFF_s_shorter [OF sym] u_getchar_shorter u_scanFF_s_shorter)

declare editor_loop.simps [simp del]

text \<open>\<open>main\<close>: its calls before the loop, and those of the loop and behind it.\<close>

definition editor_main :: "byte list \<Rightarrow> addr \<Rightarrow> memory \<Rightarrow> outcome option" where
  "editor_main input sos m =
     map_option (\<lambda>(calls, m1, rest).
         outcome_then (Returns (clearEditor @ e_malloc 100))
           (outcome_then (e_printFF (lit ''%s'') (Some [lit ''chomp'' @ [10]]) None) (Returns (calls @ [Sys 7 [4, 0]]))))
       (editor_loop input sos m)"

section \<open>Fortunes\<close>

text \<open>For a negative number the variable \<open>fortune\<close> has no value.\<close>

definition magic :: "int \<Rightarrow> cstring option" where
  "magic n =
     (let r = n smod 3 in
      if r = 0 then Some (lit ''TENDRAS MALA SUERTE TODA TU VIDA'')
      else if r = 1 then Some (lit ''TE SACARAS UN 10 EN EL TP DE ARQUI'')
      else if r = 2 then Some (lit ''NUNCA TE VAS A RECIBIR'')
      else None)"

text \<open>\<open>printFF("%s", &str, NULL)\<close>.\<close>

definition f_string :: "cstring \<Rightarrow> outcome" where "f_string str = f_printFF (lit ''%s'') (Some [str]) None"

text \<open>\<open>main\<close> with the block for the name at \<open>str\<close>.\<close>

definition fortune_main :: "byte list \<Rightarrow> addr \<Rightarrow> memory \<Rightarrow> outcome option" where
  "fortune_main input str m =
     map_option (\<lambda>(overflow, m1, rest).
         outcome_then (Returns (f_malloc 8 @ f_malloc 2500))
           (outcome_then (f_string (lit ''Ingrese su nombre:''))
             (if \<not> overflow then
                (case cstr 2500 m1 str of
                   None \<Rightarrow> Bad_read
                 | Some name \<Rightarrow> (case magic (int (length name)) of None \<Rightarrow> Bad_read | Some f \<Rightarrow> f_string f))
              else outcome_then (Returns (f_malloc 8 @ f_putchar 10)) (f_string (lit ''ScanFF Buffer OverFlow'')))))
       (line_of (f_scanFF 0 (lit ''%s'') (Some [str]) None input m))"

section \<open>What the programs do\<close>

lemma editor_loop_skips: "37 \<notin> set keys \<Longrightarrow> 0 \<notin> set keys \<Longrightarrow> editor_loop (keys @ later) sos m = editor_loop later sos m"
proof (induction keys)
  case (Cons k keys)
  then show ?case by (subst append_Cons, subst editor_loop.simps) (simp add: e_getchar_def)
qed simp

lemma editor_leaves:
  assumes "37 \<notin> set keys" "0 \<notin> set keys" "0 \<notin> set typed" "10 \<notin> set typed" "length typed \<le> 100" "edited [] typed = lit ''exit''"
  shows "\<exists>m1. editor_loop (keys @ 37 # typed @ 10 # rest) sos m = Some (clearEditor, m1, rest) \<and>
    (\<forall>x. x < sos \<or> sos + 100 < x \<longrightarrow> m1 x = m x)"
proof -
  obtain m1 where m1: "u_scanFF_s (typed @ 10 # rest) sos m = Some (length (edited [] typed) = 100, m1, rest)"
    "cstr 101 m1 sos = Some (edited [] typed)" "\<forall>x. x < sos \<or> sos + 100 < x \<longrightarrow> m1 x = m x"
    using scan_typed [OF assms(3-5)] by blast
  have "strcmp (lit ''exit'') (lit ''exit'') = 0" by code_simp
  then have "editor_loop (37 # typed @ 10 # rest) sos m = Some (clearEditor, m1, rest)"
    using m1(1,2) assms(6) by (subst editor_loop.simps) (simp add: e_getchar_def line_of_scanFF e_strcmp_def)
  then show ?thesis using m1(3) by (auto simp: editor_loop_skips [OF assms(1,2)])
qed

text \<open>A line of more than 29 characters runs over the end of the buffer of the editor.\<close>

lemma editor_overflows:
  assumes "0 \<notin> set typed" "8 \<notin> set typed" "10 \<notin> set typed" "30 < length typed" "length typed \<le> 100"
  shows "\<exists>ov m1. u_scanFF_s (typed @ 10 # rest) sos m = Some (ov, m1, rest) \<and> m1 (sos + 30) = typed ! 30"
proof -
  have "edited line typed = line @ typed" for line using assms(2) by (induction typed arbitrary: line) auto
  then have e: "edited [] typed = typed" by simp
  obtain m1 where m1: "u_scanFF_s (typed @ 10 # rest) sos m = Some (length (edited [] typed) = 100, m1, rest)"
    "cstr 101 m1 sos = Some (edited [] typed)"
    using scan_typed [OF assms(1,3,5)] by blast
  have "m1 (sos + 30) = typed ! 30" using m1(2) assms(4) cstr_nth [of 101 m1 sos typed 30] e by simp
  then show ?thesis using m1(1) by blast
qed

lemma magic_nat: "magic (int n) = Some ([lit ''TENDRAS MALA SUERTE TODA TU VIDA'', lit ''TE SACARAS UN 10 EN EL TP DE ARQUI'',
    lit ''NUNCA TE VAS A RECIBIR''] ! (n mod 3))"
proof -
  have s: "int n smod 3 = int (n mod 3)" by (simp add: signed_modulo_int_def sgn_if zmod_int)
  have "n mod 3 = 0 \<or> n mod 3 = 1 \<or> n mod 3 = 2" by auto
  then show ?thesis unfolding magic_def s Let_def by (elim disjE) simp_all
qed


text \<open>The fortune is that of the length of the name; a name of 100 characters is refused although it fits.\<close>

theorem fortune_of_name:
  assumes "0 \<notin> set typed" "10 \<notin> set typed" "length typed \<le> 100"
  defines "n \<equiv> length (edited [] typed)"
  shows "fortune_main (typed @ 10 # rest) str m = Some (outcome_then (Returns (f_malloc 8 @ f_malloc 2500))
    (outcome_then (f_string (lit ''Ingrese su nombre:''))
      (if n < 100 then f_string ([lit ''TENDRAS MALA SUERTE TODA TU VIDA'', lit ''TE SACARAS UN 10 EN EL TP DE ARQUI'',
         lit ''NUNCA TE VAS A RECIBIR''] ! (n mod 3))
       else outcome_then (Returns (f_malloc 8 @ f_putchar 10)) (f_string (lit ''ScanFF Buffer OverFlow'')))))"
proof -
  obtain m1 where m1: "u_scanFF_s (typed @ 10 # rest) str m = Some (length (edited [] typed) = 100, m1, rest)"
    "cstr 101 m1 str = Some (edited [] typed)"
    using scan_typed [OF assms(1-3)] by blast
  have "n \<le> 100" using length_edited [of "[]" typed] assms(3) by (simp add: n_def)
  moreover have "cstr 2500 m1 str = Some (edited [] typed)" using m1(2) by (rule cstr_mono) simp
  ultimately show ?thesis using m1(1) by (auto simp: fortune_main_def line_of_scanFF magic_nat n_def)
qed

end
