(* ===== verification/Shell.thy ===== *)
theory Shell
  imports Syscalls Userlib
begin

text \<open>
  The shell, \<open>Userland/SHELL/shell.c\<close>: a loop that reads a line into a buffer and runs the
  command it finds there, at once or, behind an ampersand, in a thread of its own. The lemmas
  follow the commands into the table of system calls of the kernel.
\<close>

section \<open>Commands\<close>

text \<open>The functions of the shell that it starts threads on; \<open>entry\<close> tells their addresses.\<close>

datatype shellfun = F_help | F_clear | F_ps | F_echo_on | F_echo_off | F_kill | F_man | F_ls | F_while1

fun all_of :: "outcome list \<Rightarrow> outcome" where
  "all_of [] = Returns []"
| "all_of (x # xs) = outcome_then x (all_of xs)"

text \<open>\<open>printFF("%s", s, NULL)\<close>, with the block for the array \<open>s\<close> in front, and with a line feed behind.\<close>

definition fs :: "cstring \<Rightarrow> outcome" where
  "fs str = u_printFF u_putchar (u_putNumber u_putchar) (lit ''%s'') (Some [str]) None"

definition put :: "byte \<Rightarrow> outcome" where "put c = Returns (u_putchar c)"

definition new_fs :: "cstring \<Rightarrow> outcome" where
  "new_fs str = outcome_then (Returns (u_malloc 8)) (fs str)"

definition helpShell :: outcome where
  "helpShell = all_of [new_fs (lit ''Help'' @ 10 # lit '' the commands are clear, help, echo, ls , ps, & and man'' @ 10 #
     lit '' write man \"comand\" for more information''), put 10]"

definition ls :: outcome where
  "ls = all_of [new_fs (lit ''Programs: prodCons, philosophers, pipetest, editor, shell, fortune''), put 10]"

definition man_text :: "cstring \<Rightarrow> cstring" where
  "man_text topic =
     (if u_strcmp (lit ''help'') topic = 0 then lit ''HELP'' @ 10 # lit '' use this comand to see all the comands''
      else if u_strcmp (lit ''clear'') topic = 0 then lit ''CLEAR'' @ 10 # lit '' clear the video use by the shell''
      else if u_strcmp (lit ''echo'') topic = 0 then
        lit ''ECHO'' @ 10 # lit '' Use \"echo on\" to turn on the echo and \"echo off\" to turn it off  ''
      else if u_strcmp (lit ''ls'') topic = 0 then lit ''LS'' @ 10 # lit '' display all programs''
      else if u_strcmp (lit ''ps'') topic = 0 then lit ''ps'' @ 10 # lit '' list all current processes''
      else if u_strcmp (lit ''&'') topic = 0 then lit ''&'' @ 10 # lit '' run a command in background. Use: &command''
      else if u_strcmp (lit ''./'') topic = 0 then lit ''./'' @ 10 # lit '' run a program. Use: ./programName''
      else lit ''invalid command for man'')"

definition man :: "cstring \<Rightarrow> outcome" where
  "man topic = all_of [new_fs (man_text topic), put 10]"

definition complaint :: "cstring \<Rightarrow> string \<Rightarrow> outcome" where
  "complaint buffer msg = all_of [new_fs buffer, put 58, put 32, fs (lit msg), put 10]"

definition runError :: "cstring \<Rightarrow> outcome" where "runError buffer = complaint buffer ''is not a valid program''"
definition shell_error :: "cstring \<Rightarrow> outcome" where "shell_error buffer = complaint buffer ''command not found''"
definition asyncError :: "cstring \<Rightarrow> outcome" where "asyncError buffer = complaint buffer ''is not a valid comand for &''"

definition echoShellON :: outcome where "echoShellON = Returns [Sys 6 [1, 0]]"
definition echoShellOFF :: outcome where "echoShellOFF = Returns [Sys 6 [0, 0]]"
definition clearShell :: outcome where "clearShell = Returns [Sys 5 [0, 0]]"
definition undoBackwards :: outcome where "undoBackwards = Returns [Sys 9 [7, 0]]"
definition changeToUserEnvirnment :: outcome where
  "changeToUserEnvirnment = outcome_then (Returns [Sys 8 [6, 4]]) undoBackwards"
definition changeToSehllEnvironment :: outcome where "changeToSehllEnvironment = Returns [Sys 8 [0, 4]]"
definition shell_printProcesses :: outcome where "shell_printProcesses = Returns [Sys 10 [0, 0]]"
definition killProcess :: "int \<Rightarrow> outcome" where "killProcess pid = Returns [Sys 11 [pid, 0]]"
definition while1 :: outcome where "while1 = Diverges []"

definition run :: "cstring \<Rightarrow> outcome" where
  "run c = outcome_then
     (if u_strcmp (lit ''prodCons'') c = 0 then Returns [Sys 7 [1, 1]]
      else if u_strcmp (lit ''pipeTest'') c = 0 then Returns [Sys 7 [1, 2]]
      else if u_strcmp (lit ''philosophers'') c = 0 then Returns [Sys 7 [1, 4]]
      else if u_strcmp (lit ''editor'') c = 0 then Returns [Sys 7 [2, 0]]
      else if u_strcmp (lit ''fortune'') c = 0 then Returns [Sys 7 [3, 0]]
      else if u_strcmp (lit ''pagefault'') c = 0 then Returns [Sys 7 [5, 0]]
      else runError c) echoShellON"

section \<open>The parser\<close>

text \<open>
  The string at an address of the buffer, which has 2500 bytes. Behind the end of the line
  stands what earlier lines have left there.
\<close>

definition str_at :: "memory \<Rightarrow> addr \<Rightarrow> (cstring \<Rightarrow> outcome) \<Rightarrow> outcome" where
  "str_at m a k = (case cstr 2500 m a of None \<Rightarrow> Bad_read | Some str \<Rightarrow> k str)"

definition start_thread :: "(shellfun \<Rightarrow> int) \<Rightarrow> shellfun \<Rightarrow> int \<Rightarrow> outcome" where
  "start_thread entry f arg = Returns [Sys 12 [entry f, arg]]"

definition asyncParser :: "(shellfun \<Rightarrow> int) \<Rightarrow> memory \<Rightarrow> addr \<Rightarrow> outcome" where
  "asyncParser entry m buffer = str_at m buffer (\<lambda>b.
     if u_strcmp (lit ''help'') b = 0 then start_thread entry F_help 0
     else if u_strcmp (lit ''clear'') b = 0 then start_thread entry F_clear 0
     else if u_strcmp (lit ''ps'') b = 0 then start_thread entry F_ps 0
     else if u_strcmpN (lit ''echo'') b 4 = 0 then
       str_at m (buffer + 5) (\<lambda>c. if u_strcmp (lit ''on'') c = 0 then start_thread entry F_echo_on 0 else start_thread entry F_echo_off 0)
     else if u_strcmpN (lit ''kill'') b 4 = 0 then start_thread entry F_kill (sint (m (buffer + 4)) - 48)
     else if m buffer = 46 \<and> m (buffer + 1) = 47 then str_at m (buffer + 2) run
     else if u_strcmpN (lit ''man'') b 3 = 0 then start_thread entry F_man (int (buffer + 4))
     else if u_strcmp (lit ''ls'') b = 0 then start_thread entry F_ls 0
     else if u_strcmp (lit ''while1'') b = 0 then start_thread entry F_while1 0
     else if m buffer = 10 then Returns []
     else asyncError b)"

definition parser :: "(shellfun \<Rightarrow> int) \<Rightarrow> memory \<Rightarrow> addr \<Rightarrow> outcome" where
  "parser entry m buffer =
     (if m buffer = 38 then asyncParser entry m (buffer + 1)
      else str_at m buffer (\<lambda>b.
        if u_strcmp (lit ''help'') b = 0 then helpShell
        else if u_strcmp (lit ''clear'') b = 0 then clearShell
        else if u_strcmp (lit ''ps'') b = 0 then shell_printProcesses
        else if u_strcmpN (lit ''echo'') b 4 = 0 then
          str_at m (buffer + 5) (\<lambda>c. if u_strcmp (lit ''on'') c = 0 then echoShellON else echoShellOFF)
        else if u_strcmpN (lit ''kill'') b 4 = 0 then killProcess (sint (m (buffer + 4)) - 48)
        else if m buffer = 46 \<and> m (buffer + 1) = 47 then str_at m (buffer + 2) run
        else if u_strcmpN (lit ''man'') b 3 = 0 then str_at m (buffer + 4) man
        else if u_strcmp (lit ''while1'') b = 0 then while1
        else if u_strcmp (lit ''ls'') b = 0 then ls
        else if m buffer = 10 then Returns []
        else shell_error b))"

section \<open>The loop\<close>

definition printShellComand :: outcome where "printShellComand = new_fs (lit ''shell>'')"

text \<open>One round of \<open>main\<close>: what it does, the buffer it leaves and the answers that are left.\<close>

definition shell_round :: "(shellfun \<Rightarrow> int) \<Rightarrow> addr \<Rightarrow> byte list \<Rightarrow> memory \<Rightarrow> (outcome \<times> memory \<times> byte list) option" where
  "shell_round entry sos input m =
     (case u_scanFF_s input sos m of
        None \<Rightarrow> None
      | Some (overflow, m1, rest) \<Rightarrow>
          Some (all_of [put 10, changeToSehllEnvironment, printShellComand, changeToUserEnvirnment,
            if \<not> overflow then outcome_then changeToSehllEnvironment (parser entry m1 sos)
            else all_of [Returns (u_malloc 8), put 10, fs (lit ''ScanFF Buffer OverFlow'')]], m1, rest))"

fun shell_rounds :: "nat \<Rightarrow> (shellfun \<Rightarrow> int) \<Rightarrow> addr \<Rightarrow> byte list \<Rightarrow> memory \<Rightarrow> (outcome \<times> memory) option" where
  "shell_rounds 0 entry sos input m = Some (Returns [], m)"
| "shell_rounds (Suc n) entry sos input m =
     (case shell_round entry sos input m of
        None \<Rightarrow> None
      | Some (o1, m1, rest) \<Rightarrow> map_option (\<lambda>(o2, m2). (outcome_then o1 o2, m2)) (shell_rounds n entry sos rest m1))"

text \<open>The first \<open>n\<close> rounds of \<open>main\<close>, which allocates the array and the buffer, at \<open>sos\<close>, before them.\<close>

definition shell_main :: "nat \<Rightarrow> (shellfun \<Rightarrow> int) \<Rightarrow> addr \<Rightarrow> byte list \<Rightarrow> memory \<Rightarrow> (outcome \<times> memory) option" where
  "shell_main n entry sos input m =
     map_option (\<lambda>(o1, m1). (outcome_then (Returns (u_malloc 8 @ u_malloc 2500)) o1, m1)) (shell_rounds n entry sos input m)"

section \<open>What a line means\<close>

text \<open>The programs with their number and the argument that the kernel passes on.\<close>

definition programs :: "(cstring \<times> int list) list" where
  "programs = [(lit ''prodCons'', [1, 1]), (lit ''pipeTest'', [1, 2]), (lit ''philosophers'', [1, 4]),
     (lit ''editor'', [2, 0]), (lit ''fortune'', [3, 0]), (lit ''pagefault'', [5, 0])]"

text \<open>The calls of a command, as a function of the line alone.\<close>

definition command_calls :: "cstring \<Rightarrow> ucall list option" where
  "command_calls b =
     (if b = lit ''clear'' then Some [Sys 5 [0, 0]]
      else if b = lit ''ps'' then Some [Sys 10 [0, 0]]
      else if take 4 b = lit ''echo'' \<and> 5 \<le> length b then Some [Sys 6 [of_bool (drop 5 b = lit ''on''), 0]]
      else if take 4 b = lit ''kill'' \<and> 5 \<le> length b then Some [Sys 11 [sint (b ! 4) - 48, 0]]
      else if take 2 b = lit ''./'' then map_option (\<lambda>args. [Sys 7 args, Sys 6 [1, 0]]) (map_of programs (drop 2 b))
      else None)"

lemma strcmpN_prefix: "strcmpN as b 4 = 0 \<longleftrightarrow> take 4 as = take 4 b" "strcmpN as b 3 = 0 \<longleftrightarrow> take 3 as = take 3 b"
  using strcmpN_take [of as b 4] strcmpN_take [of as b 3] by simp_all

lemma run_program_calls:
  assumes "map_of programs c = Some args"
  shows "run c = Returns [Sys 7 args, Sys 6 [1, 0]]"
  using assms by (auto simp: programs_def run_def echoShellON_def lit_def split: if_splits)

lemma parser_calls:
  assumes "cstr 2500 m a = Some b" "command_calls b = Some cs"
  shows "parser entry m a = Returns cs"
proof -
  have d: "cstr 2500 m (a + k) = Some (drop k b)" if "k \<le> length b" for k by (rule cstr_drop [OF assms(1) that])
  have n: "m (a + i) = b ! i" if "i < length b" for i by (rule cstr_nth [OF assms(1) that])
  have n0: "m a = b ! 0" if "b \<noteq> []" using n [of 0] that by simp
  consider (clear) "b = lit ''clear''" | (ps) "b = lit ''ps''" | (echo) "take 4 b = lit ''echo''" "5 \<le> length b"
    | (kill) "take 4 b = lit ''kill''" "5 \<le> length b" | (run) "take 2 b = lit ''./''" "map_of programs (drop 2 b) \<noteq> None"
    using assms(2) by (auto simp: command_calls_def split: if_splits)
  then show ?thesis
  proof cases
    case clear
    then show ?thesis using assms(2) n0 by (simp add: parser_def str_at_def assms(1) command_calls_def clearShell_def lit_def)
  next
    case ps
    then show ?thesis using assms(2) n0
      by (simp add: parser_def str_at_def assms(1) command_calls_def shell_printProcesses_def lit_def)
  next
    case echo
    have b: "b \<noteq> lit ''help''" "b \<noteq> lit ''clear''" "b \<noteq> lit ''ps''" using echo by (auto simp: lit_def)
    have "b ! 0 = take 4 b ! 0" using echo(2) by simp
    moreover have "b \<noteq> []" using echo(2) by auto
    ultimately have "m a = 101" using n0 echo(1) by (simp add: lit_def)
    then have "parser entry m a = (if lit ''on'' = drop 5 b then echoShellON else echoShellOFF)"
      using b echo(1) d [OF echo(2)] by (simp add: parser_def str_at_def assms(1) strcmpN_prefix) (auto simp: lit_def)
    then show ?thesis using assms(2) b echo by (auto simp: command_calls_def echoShellON_def echoShellOFF_def)
  next
    case kill
    have b: "b \<noteq> lit ''help''" "b \<noteq> lit ''clear''" "b \<noteq> lit ''ps''" "take 4 b \<noteq> lit ''echo''" using kill by (auto simp: lit_def)
    have "b ! 0 = take 4 b ! 0" using kill(2) by simp
    moreover have "b \<noteq> []" using kill(2) by auto
    ultimately have "m a = 107" using n0 kill(1) by (simp add: lit_def)
    then have "parser entry m a = killProcess (sint (b ! 4) - 48)"
      using b kill n [of 4] by (simp add: parser_def str_at_def assms(1) strcmpN_prefix) (auto simp: lit_def)
    then show ?thesis using assms(2) b kill by (auto simp: command_calls_def killProcess_def)
  next
    case run
    obtain r where r: "b = 46 # 47 # r" using run(1) by (cases b; cases "tl b") (auto simp: lit_def)
    obtain args where "map_of programs r = Some args" using run(2) r by auto
    from run_program_calls [OF this] have "run r = Returns [Sys 7 args, Sys 6 [1, 0]]" .
    moreover have "parser entry m a = run r" "command_calls b = Some [Sys 7 args, Sys 6 [1, 0]]"
      using r n0 n [of 1] d [of 2] \<open>map_of programs r = Some args\<close>
      by (simp_all add: parser_def str_at_def assms(1) strcmpN_prefix command_calls_def) (simp_all add: lit_def)
    ultimately show ?thesis using assms(2) by simp
  qed
qed

text \<open>What a line asks of the kernel: the functions behind the system calls, with their arguments.\<close>

definition requested :: "outcome \<Rightarrow> (sysfun \<times> int list) list option" where
  "requested x = (case x of
     Returns cs \<Rightarrow> those (map (\<lambda>c. case c of Sys n args \<Rightarrow> map_option (\<lambda>f. (f, args)) (map_of sys_table n) | Write _ \<Rightarrow> None) cs)
   | _ \<Rightarrow> None)"

definition command_meaning :: "cstring \<Rightarrow> (sysfun \<times> int list) list option" where
  "command_meaning b =
     (if b = lit ''clear'' then Some [(Sys_clearC, [0, 0])]
      else if b = lit ''ps'' then Some [(Sys_printProcesses, [0, 0])]
      else if take 4 b = lit ''echo'' \<and> 5 \<le> length b then Some [(Sys_echoC, [of_bool (drop 5 b = lit ''on''), 0])]
      else if take 4 b = lit ''kill'' \<and> 5 \<le> length b then Some [(Sys_kill, [sint (b ! 4) - 48, 0])]
      else if take 2 b = lit ''./'' then map_option (\<lambda>args. [(Sys_runC, args), (Sys_echoC, [1, 0])]) (map_of programs (drop 2 b))
      else None)"

lemma command_meaning_calls:
  assumes "command_meaning b = Some gs"
  obtains cs where "command_calls b = Some cs" "requested (Returns cs) = Some gs"
  using assms by (auto simp: command_meaning_def command_calls_def requested_def sys_table_def upt_rec split: if_splits)

text \<open>
  C33: a line that names a command or a program makes the shell call exactly the kernel function
  that the command stands for, through the number the kernel has entered that function under:
  \<open>clear\<close>, \<open>ps\<close>, \<open>echo on\<close> and \<open>echo off\<close>, \<open>kill\<close> with the digit that
  follows, and \<open>./\<close> with the name of a program, which also turns the echo on again.
\<close>

theorem parser_runs_command:
  assumes "cstr 2500 m a = Some b" "command_meaning b = Some gs"
  shows "requested (parser entry m a) = Some gs"
proof -
  obtain cs where cs: "command_calls b = Some cs" "requested (Returns cs) = Some gs"
    by (rule command_meaning_calls [OF assms(2)])
  show ?thesis using cs(2) parser_calls [OF assms(1) cs(1)] by simp
qed

definition ex_line :: memory where
  "ex_line = (\<lambda>_. 0)(700 := 46, 701 := 47, 702 := 101, 703 := 100, 704 := 105, 705 := 116, 706 := 111, 707 := 114)"

theorem parser_runs_command_witness:
  "requested (parser (\<lambda>_. 0) ex_line 700) = Some [(Sys_runC, [2, 0]), (Sys_echoC, [1, 0])]"
proof -
  have "cstr 9 ex_line 700 = Some (lit ''./editor'')" by code_simp
  then have "cstr 2500 ex_line 700 = Some (lit ''./editor'')" by (rule cstr_mono) simp
  then show ?thesis by (rule parser_runs_command) (simp add: command_meaning_def programs_def lit_def)
qed

end
