(* ===== verification/Volume.thy ===== *)
theory Volume
  imports BMFS
begin

text \<open>
  What the utility of \<open>Bootloader/BMFS/bmfs.c\<close> guarantees. A volume is well formed when every
  file has an area of its own and the directory on the disk is the one in memory; its meaning
  is a map from names to contents. The lemmas follow the operations of theory \<open>BMFS\<close> on both:
  which area \<open>create\<close> picks, what the other operations leave alone, what a later run finds.
\<close>

section \<open>Cells and entries\<close>

lemma put_cstr_above: "a + length cs < x \<Longrightarrow> put_cstr a cs m x = m x"
  by (induction cs arbitrary: a m) auto

lemma ld64_put_cstr [simp]: "a + length cs < c \<or> c + 8 \<le> a \<Longrightarrow> ld64 (put_cstr a cs m) c = ld64 m c"
  by (rule ld64_cong) (auto simp: put_cstr_above put_cstr_below)

lemma put_cstr_head: "put_cstr a (c # cs) m a = c"
  by (simp add: put_cstr_below)

lemma cstr_cong: "(\<And>i. i < n \<Longrightarrow> m (a + i) = m' (a + i)) \<Longrightarrow> cstr n m a = cstr n m' a"
proof (induction n arbitrary: a)
  case (Suc n)
  have "cstr n m (a + 1) = cstr n m' (a + 1)" using Suc.prems [of "Suc i" for i] by (intro Suc.IH) simp
  then show ?case using Suc.prems [of 0] by simp
qed simp

text \<open>An entry depends on its own 64 bytes only.\<close>

lemma entry_at_cong:
  assumes "\<And>x. slot * 64 \<le> x \<Longrightarrow> x < slot * 64 + 64 \<Longrightarrow> d x = d' x"
  shows "entry_at d slot = entry_at d' slot" "cstr 32 d (slot * 64) = cstr 32 d' (slot * 64)"
  using assms by (auto simp: entry_at_def intro!: bytes_at_cong ld64_cong cstr_cong)

section \<open>Looking through the directory\<close>

text \<open>The number of entries before the end, and the entries among them that are files.\<close>

definition ends :: "memory \<Rightarrow> nat \<Rightarrow> bool" where
  "ends d n \<longleftrightarrow> n \<le> 64 \<and> (\<forall>i < n. d (i * 64) \<noteq> 0) \<and> (n < 64 \<longrightarrow> d (n * 64) = 0)"

definition live :: "memory \<Rightarrow> nat \<Rightarrow> nat \<Rightarrow> bool" where
  "live d n i \<longleftrightarrow> i < n \<and> d (i * 64) \<noteq> 1"

lemma ends_split:
  assumes "ends d n"
  shows "[0..<64] = [0..<n] @ [n..<64]" "[n..<64] = [] \<or> d (hd [n..<64] * 64) = 0"
proof -
  have n: "n \<le> 64" "n < 64 \<longrightarrow> d (n * 64) = 0" using assms by (simp_all add: ends_def)
  show "[0..<64] = [0..<n] @ [n..<64]" using upt_add_eq_append [of 0 n "64 - n"] n(1) by simp
  show "[n..<64] = [] \<or> d (hd [n..<64] * 64) = 0"
  proof (cases "n < 64")
    case True
    then show ?thesis using n(2) by (simp add: upt_conv_Cons del: upt_Suc)
  qed simp
qed

lemma findfile_prefix:
  assumes "\<forall>t \<in> set ts. d (t * 64) \<noteq> 0 \<and> (d (t * 64) = 1 \<or> cstr 64 d (t * 64) \<noteq> None)" "us = [] \<or> d (hd us * 64) = 0"
  shows "findfile_loop d f (ts @ us) = Some (find (\<lambda>t. d (t * 64) \<noteq> 1 \<and> cstr 64 d (t * 64) = Some f) ts)"
  using assms
proof (induction ts)
  case Nil
  then show ?case by (cases us) auto
qed auto

lemma count_prefix:
  assumes "\<forall>t \<in> set ts. d (t * 64) \<noteq> 0" "us = [] \<or> d (hd us * 64) = 0"
  shows "count_entries d (ts @ us) ff =
    (let free = (case ff of None \<Rightarrow> find (\<lambda>t. d (t * 64) = 1) ts | Some t \<Rightarrow> ff)
     in if us = [] then (0, free) else (hd us, case free of None \<Rightarrow> Some (hd us) | Some t \<Rightarrow> free))"
  using assms
proof (induction ts arbitrary: ff)
  case Nil
  then show ?case by (cases us; cases ff) auto
next
  case (Cons t ts)
  then show ?case by (cases ff) (auto simp: Let_def split: option.splits)
qed

section \<open>Areas\<close>

text \<open>The blocks of an entry, from the first to behind the last one.\<close>

definition deleted :: "BMFSEntry \<Rightarrow> bool" where "deleted e \<longleftrightarrow> FileName e ! 0 = 1"
definition lo :: "BMFSEntry \<Rightarrow> nat" where "lo e = unat (StartingBlock e)"
definition hi :: "BMFSEntry \<Rightarrow> nat" where "hi e = lo e + unat (ReservedBlocks e)"
definition apart :: "BMFSEntry \<Rightarrow> BMFSEntry \<Rightarrow> bool" where "apart a b \<longleftrightarrow> hi a \<le> lo b \<or> hi b \<le> lo a"

text \<open>Where \<open>b\<close> blocks fit from block \<open>p\<close> on, below block \<open>L\<close> and between the entries.\<close>

definition fits :: "nat \<Rightarrow> BMFSEntry set \<Rightarrow> nat \<Rightarrow> nat \<Rightarrow> nat \<Rightarrow> bool" where
  "fits p es L b q \<longleftrightarrow> p \<le> q \<and> q + b \<le> L \<and> (\<forall>e \<in> es. q + b \<le> lo e \<or> hi e \<le> q)"

fun chain :: "nat \<Rightarrow> BMFSEntry list \<Rightarrow> nat \<Rightarrow> bool" where
  "chain p [] L \<longleftrightarrow> p \<le> L"
| "chain p (e # es) L \<longleftrightarrow> p \<le> lo e \<and> chain (hi e) es L"

lemma chain_bounds: "chain p es L \<Longrightarrow> p \<le> L \<and> (\<forall>e \<in> set es. p \<le> lo e \<and> hi e \<le> L)"
proof (induction es arbitrary: p)
  case (Cons e es)
  have "lo e \<le> hi e" by (simp add: hi_def)
  with Cons show ?case by fastforce
qed simp

lemma hi_word:
  assumes "hi e \<le> L" "L < 2 ^ 63"
  shows "unat (StartingBlock e + ReservedBlocks e) = hi e"
  using assms by (subst unat_plus_if') (simp add: hi_def lo_def)

lemma gap_word: "unat p \<le> k \<Longrightarrow> k = unat (w :: 64 word) \<Longrightarrow> (b \<le> w - p) = (unat b \<le> k - unat p)"
  by (simp add: word_le_nat_alt unat_sub)

text \<open>The second pass of \<open>create\<close> over files in ascending order and deleted entries behind them.\<close>

lemma find_area_first_fit:
  assumes "chain (unat p) ls L" "unat (N - 1) = L" "L < 2 ^ 63" "\<forall>e \<in> set ls. \<not> deleted e" "\<forall>e \<in> set ds. deleted e" "0 < unat b"
  shows "if \<exists>q. fits (unat p) (set ls) L (unat b) q
    then unat (find_area b N (ls @ ds) p) = (LEAST q. fits (unat p) (set ls) L (unat b) q)
    else find_area b N (ls @ ds) p = (case ds of [] \<Rightarrow> 0 | d # ds' \<Rightarrow> find_area b N ds' (StartingBlock d + ReservedBlocks d))"
  using assms
proof (induction ls arbitrary: p)
  case Nil
  have p: "unat p \<le> L" using Nil.prems(1) by simp
  have last: "(b \<le> N - 1 - p) = (unat b \<le> L - unat p)" by (rule gap_word [OF p Nil.prems(2) [symmetric]])
  have f: "fits (unat p) {} L (unat b) q \<longleftrightarrow> unat p \<le> q \<and> q + unat b \<le> L" for q by (simp add: fits_def)
  have step: "find_area b N ds p = (if b \<le> N - 1 - p then p
      else case ds of [] \<Rightarrow> 0 | d # ds' \<Rightarrow> find_area b N ds' (StartingBlock d + ReservedBlocks d))"
    using Nil.prems(5) by (cases ds) (auto simp: deleted_def)
  show ?case
  proof (cases "unat p + unat b \<le> L")
    case True
    then have "(LEAST q. fits (unat p) {} L (unat b) q) = unat p" unfolding f by (intro Least_equality) auto
    moreover have "\<exists>q. fits (unat p) {} L (unat b) q" using True f by blast
    moreover have "unat b \<le> L - unat p" using True by simp
    ultimately show ?thesis using last step by simp
  next
    case False
    then have "\<nexists>q. fits (unat p) {} L (unat b) q" "\<not> unat b \<le> L - unat p" using f p by auto
    then show ?thesis using last step by simp
  qed
next
  case (Cons e ls)
  have e: "unat p \<le> lo e" "chain (hi e) ls L" "\<not> deleted e" using Cons.prems(1,4) by auto
  have le: "lo e \<le> hi e" "hi e \<le> L" using chain_bounds [OF e(2)] by (simp_all add: hi_def)
  have w: "unat (StartingBlock e + ReservedBlocks e) = hi e" by (rule hi_word [OF le(2) Cons.prems(3)])
  have test: "(b \<le> StartingBlock e - p) = (unat b \<le> lo e - unat p)"
    by (rule gap_word [OF e(1)]) (simp add: lo_def)
  have step: "find_area b N ((e # ls) @ ds) p = (if b \<le> StartingBlock e - p then p
      else find_area b N (ls @ ds) (StartingBlock e + ReservedBlocks e))"
    using e(3) by (simp add: deleted_def Let_def)
  show ?case
  proof (cases "unat p + unat b \<le> lo e")
    case True
    then have "fits (unat p) (set (e # ls)) L (unat b) (unat p)"
      using chain_bounds [OF e(2)] le by (fastforce simp: fits_def)
    moreover from this have "(LEAST q. fits (unat p) (set (e # ls)) L (unat b) q) = unat p"
      by (rule Least_equality) (simp add: fits_def)
    ultimately show ?thesis using True step test by auto
  next
    case False
    have "fits (unat p) (set (e # ls)) L (unat b) q \<longleftrightarrow> fits (hi e) (set ls) L (unat b) q" for q
      using False e(1) le by (auto simp: fits_def)
    then have eq: "fits (unat p) (set (e # ls)) L (unat b) = fits (hi e) (set ls) L (unat b)" by blast
    have r: "find_area b N ((e # ls) @ ds) p = find_area b N (ls @ ds) (StartingBlock e + ReservedBlocks e)"
      using False step test e(1) by auto
    show ?thesis unfolding eq r
      using Cons.IH [of "StartingBlock e + ReservedBlocks e"] e(2) w Cons.prems(2-6) by simp
  qed
qed

text \<open>What \<open>StartingBlockCmp\<close> orders: files by their first block, deleted entries last.\<close>

definition before :: "BMFSEntry \<Rightarrow> BMFSEntry \<Rightarrow> bool" where
  "before a b \<longleftrightarrow> (deleted a \<longrightarrow> deleted b) \<and> (\<not> deleted b \<longrightarrow> lo a \<le> lo b)"

lemma before_trans: "before a b \<Longrightarrow> before b c \<Longrightarrow> before a c"
  by (auto simp: before_def)

lemma cmp_before:
  assumes "\<not> deleted a \<longrightarrow> lo a < 2 ^ 31" "\<not> deleted b \<longrightarrow> lo b < 2 ^ 31"
  shows "if StartingBlockCmp a b \<le> 0 then before a b else before b a"
proof (cases "deleted a \<or> deleted b")
  case True
  then show ?thesis by (auto simp: StartingBlockCmp_def before_def deleted_def)
next
  case False
  have u: "uint (StartingBlock e) = int (lo e)" for e by (simp add: lo_def)
  have n: "uint (StartingBlock a) < 2 ^ 31" "uint (StartingBlock b) < 2 ^ 31"
    unfolding u using assms False by auto
  have "uint (StartingBlock a - StartingBlock b) = (uint (StartingBlock a) - uint (StartingBlock b)) mod 2 ^ 64"
    by (simp add: uint_word_ariths)
  then have "sint (ucast (StartingBlock a - StartingBlock b) :: 32 word) =
      signed_take_bit 31 ((uint (StartingBlock a) - uint (StartingBlock b)) mod 2 ^ 64)"
    by (simp add: sint_uint unsigned_ucast_eq signed_take_bit_take_bit)
  also have "\<dots> = signed_take_bit 31 (uint (StartingBlock a) - uint (StartingBlock b))"
    using signed_take_bit_take_bit [of 31 64 "uint (StartingBlock a) - uint (StartingBlock b)"] by (simp add: take_bit_eq_mod)
  also have "\<dots> = uint (StartingBlock a) - uint (StartingBlock b)"
    by (rule signed_take_bit_int_eq_self) (use n uint_ge_0 [of "StartingBlock a"] uint_ge_0 [of "StartingBlock b"] in linarith)+
  finally have "StartingBlockCmp a b = int (lo a) - int (lo b)"
    using False unfolding u by (simp add: StartingBlockCmp_def deleted_def)
  then show ?thesis using False by (simp add: before_def)
qed

lemma mset_qsort [simp]: "mset (qsort cmp xs) = mset xs"
proof -
  have "mset (qsort_insert cmp x ys) = add_mset x (mset ys)" for x ys by (induction ys) auto
  then show ?thesis unfolding qsort_def by (induction xs) auto
qed

lemma set_qsort: "set (qsort cmp xs) = set xs"
  using mset_qsort by (metis set_mset_mset)

lemma qsort_sorts:
  assumes "\<forall>e \<in> set es. \<not> deleted e \<longrightarrow> lo e < 2 ^ 31"
  shows "sorted_wrt before (qsort StartingBlockCmp es)"
  using assms
proof (induction es)
  case (Cons x es)
  have "sorted_wrt before (qsort_insert StartingBlockCmp x ys)"
    if "sorted_wrt before ys" "\<forall>e \<in> set ys. \<not> deleted e \<longrightarrow> lo e < 2 ^ 31" for ys
    using that
  proof (induction ys)
    case (Cons y ys)
    have c: "if StartingBlockCmp x y \<le> 0 then before x y else before y x"
      using Cons.prems(2) \<open>\<forall>e \<in> set (x # es). _ e\<close> by (intro cmp_before) auto
    have "set (qsort_insert StartingBlockCmp x ys) = insert x (set ys)" by (induction ys) auto
    then show ?case using c Cons before_trans [of x y] by (auto split: if_splits)
  qed simp
  moreover have "qsort StartingBlockCmp (x # es) = qsort_insert StartingBlockCmp x (qsort StartingBlockCmp es)"
    by (simp add: qsort_def)
  ultimately show ?case using Cons by (simp add: set_qsort)
qed (simp add: qsort_def)

lemma sorted_files_first:
  "sorted_wrt before es \<Longrightarrow> es = filter (\<lambda>e. \<not> deleted e) es @ filter deleted es"
proof (induction es)
  case (Cons e es)
  show ?case
  proof (cases "deleted e")
    case True
    then have "\<forall>x \<in> set es. deleted x" using Cons.prems by (auto simp: before_def)
    then show ?thesis using True by (auto simp: filter_empty_conv filter_id_conv)
  qed (use Cons in simp)
qed simp

lemma sorted_chain:
  assumes "sorted_wrt before ls" "\<forall>e \<in> set ls. \<not> deleted e \<and> p \<le> lo e \<and> lo e < hi e \<and> hi e \<le> L" "p \<le> L"
    "distinct ls" "\<forall>a \<in> set ls. \<forall>b \<in> set ls. a \<noteq> b \<longrightarrow> apart a b"
  shows "chain p ls L"
  using assms
proof (induction ls arbitrary: p)
  case (Cons e ls)
  have "hi e \<le> lo b" if "b \<in> set ls" for b
  proof -
    have "e \<noteq> b" "lo e \<le> lo b" using that Cons.prems(1,2,4) by (auto simp: before_def)
    moreover have "apart e b" using that Cons.prems(5) \<open>e \<noteq> b\<close> by simp
    moreover have "lo b < hi b" using that Cons.prems(2) by simp
    ultimately show ?thesis by (auto simp: apart_def)
  qed
  then have "chain (hi e) ls L" using Cons.prems by (intro Cons.IH) auto
  then show ?case using Cons.prems(2) by simp
qed simp

section \<open>Well-formed directories\<close>

text \<open>
  A directory with \<open>n\<close> entries before its end on a disk whose data blocks end at block \<open>L\<close>: the
  names of the files end in their entries and differ, a file lies inside its area, and the
  areas are apart.
\<close>

definition file_ok :: "nat \<Rightarrow> BMFSEntry \<Rightarrow> bool" where
  "file_ok L e \<longleftrightarrow> 1 \<le> lo e \<and> lo e < hi e \<and> hi e \<le> L \<and> unat (FileSize e) \<le> unat (ReservedBlocks e) * 2097152"

definition dir_ok :: "memory \<Rightarrow> nat \<Rightarrow> nat \<Rightarrow> bool" where
  "dir_ok d n L \<longleftrightarrow> ends d n \<and>
     (\<forall>i. live d n i \<longrightarrow> cstr 32 d (i * 64) \<noteq> None \<and> file_ok L (entry_at d i)) \<and>
     (\<forall>i j. live d n i \<longrightarrow> live d n j \<longrightarrow> i \<noteq> j \<longrightarrow>
        apart (entry_at d i) (entry_at d j) \<and> cstr 32 d (i * 64) \<noteq> cstr 32 d (j * 64))"

definition files :: "memory \<Rightarrow> nat \<Rightarrow> BMFSEntry set" where
  "files d n = entry_at d ` {i. live d n i}"

lemma deleted_entry [simp]: "deleted (entry_at d i) \<longleftrightarrow> d (i * 64) = 1"
  by (simp add: deleted_def entry_at_def)

lemma dir_okD:
  assumes "dir_ok d n L"
  shows "ends d n" "live d n i \<Longrightarrow> \<exists>f. cstr 32 d (i * 64) = Some f" "live d n i \<Longrightarrow> file_ok L (entry_at d i)"
    "live d n i \<Longrightarrow> live d n j \<Longrightarrow> i \<noteq> j \<Longrightarrow> apart (entry_at d i) (entry_at d j)"
    "live d n i \<Longrightarrow> live d n j \<Longrightarrow> i \<noteq> j \<Longrightarrow> cstr 32 d (i * 64) \<noteq> cstr 32 d (j * 64)"
  using assms by (auto simp: dir_ok_def)

lemma cstr_64: "cstr 32 d a = Some f \<Longrightarrow> cstr 64 d a = Some g \<longleftrightarrow> g = f"
  using cstr_mono [of 32 d a f 64] by auto

text \<open>\<open>findfile\<close> finds exactly the files.\<close>

lemma findfile_ok:
  assumes "dir_ok d n L"
  shows "(findfile d f = Some (Some i) \<longleftrightarrow> live d n i \<and> cstr 32 d (i * 64) = Some f) \<and>
    (findfile d f = Some None \<longleftrightarrow> (\<forall>i. live d n i \<longrightarrow> cstr 32 d (i * 64) \<noteq> Some f)) \<and> findfile d f \<noteq> None"
proof -
  let ?P = "\<lambda>t. d (t * 64) \<noteq> 1 \<and> cstr 64 d (t * 64) = Some f"
  have n: "\<forall>i < n. d (i * 64) \<noteq> 0" using dir_okD(1) [OF assms] by (simp add: ends_def)
  have c: "cstr 64 d (t * 64) = Some g \<longleftrightarrow> cstr 32 d (t * 64) = Some g" if "live d n t" for t g
    using dir_okD(2) [OF assms that] cstr_64 by metis
  have "\<forall>t \<in> set [0..<n]. d (t * 64) \<noteq> 0 \<and> (d (t * 64) = 1 \<or> cstr 64 d (t * 64) \<noteq> None)"
    using n c dir_okD(2) [OF assms] by (metis atLeastLessThan_iff live_def not_None_eq set_upt)
  then have r: "findfile d f = Some (find ?P [0..<n])"
    unfolding findfile_def ends_split(1) [OF dir_okD(1) [OF assms]]
    by (rule findfile_prefix) (rule ends_split(2) [OF dir_okD(1) [OF assms]])
  have P: "t < n \<and> ?P t \<longleftrightarrow> live d n t \<and> cstr 32 d (t * 64) = Some f" for t
    using c [of t f] by (auto simp: live_def)
  have one: "find ?P [0..<n] = Some t \<longleftrightarrow> live d n t \<and> cstr 32 d (t * 64) = Some f" for t
  proof
    assume "find ?P [0..<n] = Some t"
    then have "t < n \<and> ?P t" by (auto simp: find_Some_iff)
    then show "live d n t \<and> cstr 32 d (t * 64) = Some f" using P by blast
  next
    assume t: "live d n t \<and> cstr 32 d (t * 64) = Some f"
    then obtain u where u: "find ?P [0..<n] = Some u" using P [of t] by (cases "find ?P [0..<n]") (auto simp: find_None_iff)
    then have "u < n \<and> ?P u" by (auto simp: find_Some_iff)
    then have "live d n u \<and> cstr 32 d (u * 64) = Some f" using P by blast
    then have "u = t" using t dir_okD(5) [OF assms, of u t] by auto
    then show "find ?P [0..<n] = Some t" using u by simp
  qed
  have "find ?P [0..<n] = None \<longleftrightarrow> (\<forall>i. live d n i \<longrightarrow> cstr 32 d (i * 64) \<noteq> Some f)"
    unfolding find_None_iff using P by (simp only: set_upt atLeastLessThan_iff) blast
  then show ?thesis using one r by simp
qed

lemma count_ok:
  assumes "ends d n"
  shows "n < 64 \<Longrightarrow> count_entries d [0..<64] None = (n, Some (case find (\<lambda>t. d (t * 64) = 1) [0..<n] of None \<Rightarrow> n | Some t \<Rightarrow> t))"
    "n = 64 \<Longrightarrow> count_entries d [0..<64] None = (0, find (\<lambda>t. d (t * 64) = 1) [0..<64])"
proof -
  have "\<forall>t \<in> set [0..<n]. d (t * 64) \<noteq> 0" using assms by (simp add: ends_def)
  from count_prefix [OF this ends_split(2) [OF assms], of None]
  have r: "count_entries d [0..<64] None = (let free = find (\<lambda>t. d (t * 64) = 1) [0..<n]
      in if [n..<64] = [] then (0, free) else (hd [n..<64], case free of None \<Rightarrow> Some (hd [n..<64]) | Some t \<Rightarrow> free))"
    unfolding ends_split(1) [OF assms] by simp
  show "n < 64 \<Longrightarrow> count_entries d [0..<64] None = (n, Some (case find (\<lambda>t. d (t * 64) = 1) [0..<n] of None \<Rightarrow> n | Some t \<Rightarrow> t))"
    unfolding r by (auto simp: upt_conv_Cons Let_def split: option.splits)
  show "n = 64 \<Longrightarrow> count_entries d [0..<64] None = (0, find (\<lambda>t. d (t * 64) = 1) [0..<64])"
    unfolding r by simp
qed

text \<open>The sorted copy of the directory is a chain of the files, with the deleted entries behind it.\<close>

lemma sorted_directory:
  assumes "dir_ok d n L" "1 \<le> L" "L < 2 ^ 31"
  shows "\<exists>ls ds. qsort StartingBlockCmp (map (entry_at d) [0..<n]) = ls @ ds \<and> chain 1 ls L \<and> set ls = files d n \<and>
    (\<forall>e \<in> set ls. \<not> deleted e) \<and> (\<forall>e \<in> set ds. deleted e) \<and> set ds = entry_at d ` {i. i < n \<and> d (i * 64) = 1}"
proof -
  let ?es = "map (entry_at d) [0..<n]" and ?f = "filter (\<lambda>e. \<not> deleted e)"
  let ?s = "qsort StartingBlockCmp ?es"
  have live: "\<not> deleted e \<Longrightarrow> e \<in> set ?es \<Longrightarrow> \<exists>i. live d n i \<and> e = entry_at d i" for e
    by (auto simp: live_def)
  have ok: "\<not> deleted e \<Longrightarrow> e \<in> set ?es \<Longrightarrow> file_ok L e" for e using live dir_okD(3) [OF assms(1)] by blast
  have s: "sorted_wrt before ?s"
  proof (rule qsort_sorts, intro ballI impI)
    fix e assume "e \<in> set ?es" "\<not> deleted e"
    then have "file_ok L e" using ok by blast
    then show "lo e < 2 ^ 31" using assms(3) by (simp add: file_ok_def)
  qed
  have set: "set (?f ?s) = files d n" "set (filter deleted ?s) = entry_at d ` {i. i < n \<and> d (i * 64) = 1}"
    by (auto simp: set_qsort files_def live_def)
  have two: "apart a b" if "a \<in> files d n" "b \<in> files d n" "a \<noteq> b" for a b
    using that dir_okD(4) [OF assms(1)] by (auto simp: files_def)
  have "inj_on (entry_at d) {i. live d n i}"
  proof (rule inj_onI, rule ccontr)
    fix i j assume ij: "i \<in> {i. live d n i}" "j \<in> {i. live d n i}" "entry_at d i = entry_at d j" "i \<noteq> j"
    then have "apart (entry_at d i) (entry_at d i)" using dir_okD(4) [OF assms(1), of i j] by simp
    moreover have "lo (entry_at d i) < hi (entry_at d i)" using dir_okD(3) [OF assms(1), of i] ij(1) by (simp add: file_ok_def)
    ultimately show False by (simp add: apart_def)
  qed
  then have "distinct (map (entry_at d) (filter (\<lambda>i. d (i * 64) \<noteq> 1) [0..<n]))"
    by (auto simp: distinct_map live_def elim: inj_on_subset)
  then have "distinct (?f ?es)" by (simp add: filter_map comp_def)
  moreover have "mset (?f ?s) = mset (?f ?es)" by (simp add: mset_filter)
  ultimately have "distinct (?f ?s)" by (metis mset_eq_imp_distinct_iff)
  moreover have "\<forall>e \<in> set (?f ?s). \<not> deleted e \<and> 1 \<le> lo e \<and> lo e < hi e \<and> hi e \<le> L"
    using ok by (simp only: set_filter set_qsort file_ok_def) blast
  ultimately have "chain 1 (?f ?s) L"
    using s two assms(2) by (intro sorted_chain sorted_wrt_filter) (simp_all only: set(1), blast)
  then show ?thesis
    using sorted_files_first [OF s] set by (intro exI [of _ "?f ?s"] exI [of _ "filter deleted ?s"]) auto
qed

section \<open>Creating\<close>

lemma area_found:
  assumes "dir_ok d n L" "1 \<le> L" "L < 2 ^ 31" "unat (N - 1) = L" "0 < unat b"
  defines "r \<equiv> find_area b N (qsort StartingBlockCmp (map (entry_at d) [0..<n])) 1"
  shows "\<exists>q. fits 1 (files d n) L (unat b) q \<Longrightarrow> unat r = (LEAST q. fits 1 (files d n) L (unat b) q)"
    "\<nexists>q. fits 1 (files d n) L (unat b) q \<Longrightarrow> \<forall>i < n. d (i * 64) \<noteq> 1 \<Longrightarrow> r = 0"
proof -
  obtain ls ds where s: "qsort StartingBlockCmp (map (entry_at d) [0..<n]) = ls @ ds" "chain 1 ls L" "set ls = files d n"
    "\<forall>e \<in> set ls. \<not> deleted e" "\<forall>e \<in> set ds. deleted e" "set ds = entry_at d ` {i. i < n \<and> d (i * 64) = 1}"
    using sorted_directory [OF assms(1-3)] by (elim exE conjE) (rule that)
  have "L < 2 ^ 63" using assms(3) by simp
  note f = find_area_first_fit [of 1 ls L N ds b, OF _ assms(4) this s(4,5) assms(5)]
  show "\<exists>q. fits 1 (files d n) L (unat b) q \<Longrightarrow> unat r = (LEAST q. fits 1 (files d n) L (unat b) q)"
    using f s(1-3) by (simp add: r_def)
  assume "\<nexists>q. fits 1 (files d n) L (unat b) q" "\<forall>i < n. d (i * 64) \<noteq> 1"
  moreover from this(2) have "set ds = {}" unfolding s(6) by auto
  ultimately show "r = 0" using f s(1-3) by (simp add: r_def)
qed

text \<open>A name that can be stored: it fits into its field and does not look like a mark.\<close>

definition name_ok :: "cstring \<Rightarrow> bool" where
  "name_ok f \<longleftrightarrow> f \<noteq> [] \<and> hd f \<noteq> 1 \<and> 0 \<notin> set f \<and> length f < 32"

lemma add_entry_other:
  assumes "length f < 32" "x < slot * 64 \<or> slot * 64 + 64 \<le> x" "x \<noteq> (n + 1) * 64 \<or> slot \<noteq> n"
  shows "add_entry f start blocks slot n d x = d x"
  using assms by (auto simp: add_entry_def Let_def put_cstr_above put_cstr_below)

lemma add_entry_slot:
  assumes "name_ok f"
  shows "entry_at (add_entry f start blocks slot n d) slot =
      \<lparr>FileName = FileName (entry_at (add_entry f start blocks slot n d) slot), StartingBlock = start, ReservedBlocks = blocks,
       FileSize = 0, Unused = Unused (entry_at (add_entry f start blocks slot n d) slot)\<rparr>"
    "cstr 32 (add_entry f start blocks slot n d) (slot * 64) = Some f"
    "add_entry f start blocks slot n d (slot * 64) = hd f"
proof -
  define d4 where "d4 = put_cstr (slot * 64) f (st64 (slot * 64 + 48) 0 (st64 (slot * 64 + 40) blocks (st64 (slot * 64 + 32) start d)))"
  have a: "add_entry f start blocks slot n d = (if slot = n \<and> n + 1 < 64 then d4((n + 1) * 64 := 0) else d4)"
    by (simp add: add_entry_def d4_def Let_def)
  have same: "add_entry f start blocks slot n d x = d4 x" if "x < slot * 64 + 64" for x
    using that unfolding a by auto
  have len: "length f < 32" "0 \<notin> set f" using assms by (auto simp: name_ok_def)
  have w: "ld64 d4 (slot * 64 + 32) = start" "ld64 d4 (slot * 64 + 40) = blocks" "ld64 d4 (slot * 64 + 48) = 0"
    using len(1) by (simp_all add: d4_def)
  have c: "ld64 (add_entry f start blocks slot n d) (slot * 64 + k) = ld64 d4 (slot * 64 + k)" if "k \<le> 56" for k
    using that by (intro ld64_cong same) simp
  show "entry_at (add_entry f start blocks slot n d) slot =
      \<lparr>FileName = FileName (entry_at (add_entry f start blocks slot n d) slot), StartingBlock = start, ReservedBlocks = blocks,
       FileSize = 0, Unused = Unused (entry_at (add_entry f start blocks slot n d) slot)\<rparr>"
    using w c [of 32] c [of 40] c [of 48] by (simp add: entry_at_def)
  have "cstr 32 (add_entry f start blocks slot n d) (slot * 64) = cstr 32 d4 (slot * 64)"
    by (intro cstr_cong same) simp
  then show "cstr 32 (add_entry f start blocks slot n d) (slot * 64) = Some f"
    using len by (simp add: d4_def cstr_put_cstr)
  have "add_entry f start blocks slot n d (slot * 64) = d4 (slot * 64)" by (rule same) simp
  then show "add_entry f start blocks slot n d (slot * 64) = hd f"
    using assms by (cases f) (simp_all add: d4_def put_cstr_head name_ok_def del: put_cstr.simps)
qed

lemma add_entry_dir:
  assumes d: "dir_ok d n L" and n: "n < 64" and slot: "slot \<le> n" "\<not> live d n slot"
    and f: "name_ok f" "\<forall>i. live d n i \<longrightarrow> cstr 32 d (i * 64) \<noteq> Some f"
    and area: "1 \<le> unat start" "0 < unat blocks" "unat start + unat blocks \<le> L"
      "\<forall>e \<in> files d n. unat start + unat blocks \<le> lo e \<or> hi e \<le> unat start"
  defines "d' \<equiv> add_entry f start blocks slot n d" and "n' \<equiv> max n (Suc slot)"
  shows "dir_ok d' n' L" "live d' n' i \<longleftrightarrow> i = slot \<or> live d n i"
    "live d n i \<Longrightarrow> entry_at d' i = entry_at d i \<and> cstr 32 d' (i * 64) = cstr 32 d (i * 64)"
    "i < n' \<Longrightarrow> d' (i * 64) = 1 \<Longrightarrow> i < n \<and> d (i * 64) = 1"
proof -
  have len: "length f < 32" and hd: "hd f \<noteq> 0" "hd f \<noteq> 1" using f(1) by (cases f; auto simp: name_ok_def)+
  have other: "d' x = d x" if "i * 64 \<le> x" "x < i * 64 + 64" "i \<le> n" "i \<noteq> slot" for x i
    unfolding d'_def by (rule add_entry_other [OF len]) (use that in auto)
  have mark: "d' (i * 64) = d (i * 64)" if "i \<le> n" "i \<noteq> slot" for i using other [of i "i * 64"] that by simp
  have at: "d' (slot * 64) = hd f" "cstr 32 d' (slot * 64) = Some f" using add_entry_slot [OF f(1)] by (simp_all add: d'_def)
  have new: "lo (entry_at d' slot) = unat start" "hi (entry_at d' slot) = unat start + unat blocks" "FileSize (entry_at d' slot) = 0"
    "ReservedBlocks (entry_at d' slot) = blocks"
    by (subst add_entry_slot(1) [OF f(1), of start blocks slot n d, folded d'_def]; simp add: lo_def hi_def)+
  have old: "entry_at d' i = entry_at d i" "cstr 32 d' (i * 64) = cstr 32 d (i * 64)" if "i \<le> n" "i \<noteq> slot" for i
    using entry_at_cong [of i d' d] other [of i] that by blast+
  have lt: "i < n' \<longleftrightarrow> i = slot \<or> i < n" for i using slot(1) by (auto simp: n'_def)
  show lv: "live d' n' i \<longleftrightarrow> i = slot \<or> live d n i" for i
    using mark [of i] at(1) hd slot(2) by (cases "i = slot") (auto simp: live_def lt)
  have sl: "i \<le> n \<and> i \<noteq> slot" if "live d n i" for i using that slot(2) by (auto simp: live_def)
  show keep: "entry_at d' i = entry_at d i \<and> cstr 32 d' (i * 64) = cstr 32 d (i * 64)" if "live d n i" for i
    using old sl [OF that] by blast
  show "i < n \<and> d (i * 64) = 1" if "i < n'" "d' (i * 64) = 1" for i
    using that mark [of i] at(1) hd(2) by (cases "i = slot") (auto simp: lt)
  have ends: "ends d' n'"
  proof -
    have e: "\<forall>i < n. d (i * 64) \<noteq> 0" "d (n * 64) = 0" using dir_okD(1) [OF d] n by (auto simp: ends_def)
    have "d' (i * 64) \<noteq> 0" if "i < n'" for i
      using that e(1) mark [of i] at(1) hd(1) by (cases "i = slot") (auto simp: lt)
    moreover have "d' (n' * 64) = 0" if "n' < 64"
    proof (cases "slot = n")
      case True
      then show ?thesis using that by (simp add: n'_def d'_def add_entry_def Let_def)
    next
      case False
      then have "n' = n" using slot(1) by (simp add: n'_def)
      then show ?thesis using mark [of n] e(2) False by simp
    qed
    ultimately show ?thesis using n slot(1) by (auto simp: ends_def n'_def)
  qed
  have ok: "cstr 32 d' (i * 64) \<noteq> None \<and> file_ok L (entry_at d' i)" if "live d' n' i" for i
  proof (cases "i = slot")
    case True
    then show ?thesis using at(2) new area(1-3) by (simp add: file_ok_def)
  next
    case False
    then have "live d n i" using that lv by blast
    then show ?thesis using keep dir_okD(2,3) [OF d] by (metis option.distinct(1))
  qed
  have apart: "apart (entry_at d' slot) (entry_at d' j) \<and> cstr 32 d' (slot * 64) \<noteq> cstr 32 d' (j * 64)" if "live d n j" for j
  proof -
    have "entry_at d j \<in> files d n" using that by (auto simp: files_def)
    then have "unat start + unat blocks \<le> lo (entry_at d j) \<or> hi (entry_at d j) \<le> unat start" using area(4) by blast
    moreover have "Some f \<noteq> cstr 32 d (j * 64)" using f(2) that by metis
    ultimately show ?thesis using keep [OF that] by (simp add: apart_def new(1,2) at(2))
  qed
  have two: "apart (entry_at d' i) (entry_at d' j) \<and> cstr 32 d' (i * 64) \<noteq> cstr 32 d' (j * 64)"
    if ij: "live d' n' i" "live d' n' j" "i \<noteq> j" for i j
  proof -
    have "i = slot \<or> live d n i" "j = slot \<or> live d n j" using ij(1,2) by (simp_all only: lv)
    then consider "i = slot" "live d n j" | "j = slot" "live d n i" | "live d n i" "live d n j" using ij(3) by blast
    then show ?thesis
    proof cases
      case 1
      show ?thesis unfolding 1(1) by (rule apart [OF 1(2)])
    next
      case 2
      then show ?thesis using apart [of i] by (auto simp: apart_def)
    next
      case 3
      then show ?thesis using keep [OF 3(1)] keep [OF 3(2)] dir_okD(4) [OF d 3 ij(3)] dir_okD(5) [OF d 3 ij(3)] by presburger
    qed
  qed
  show "dir_ok d' n' L" unfolding dir_ok_def using ends ok two by simp
qed

section \<open>The volume\<close>

text \<open>
  A volume with \<open>n\<close> entries: the disk holds the directory that the program has, the size in
  MiB is that of the disk, and the directory is well formed.
\<close>

definition last_block :: "bmfs \<Rightarrow> nat" where
  "last_block s = unat (disksize s div 2) - 1"

definition vol_ok :: "bmfs \<Rightarrow> nat \<Rightarrow> bool" where
  "vol_ok s n \<longleftrightarrow> dir_ok (Directory s) n (last_block s) \<and> (\<forall>x < 4096. disk s (4096 + x) = Directory s x) \<and>
     disk_len s < 2 ^ 52 \<and> disksize s = of_nat (disk_len s div 2 ^ 20) \<and> 6 \<le> unat (disksize s)"

lemma vol_okD:
  assumes "vol_ok s n"
  shows "dir_ok (Directory s) n (last_block s)" "x < 4096 \<Longrightarrow> disk s (4096 + x) = Directory s x"
    "unat (disksize s) = disk_len s div 2 ^ 20" "2 \<le> last_block s" "last_block s < 2 ^ 31"
    "last_block s * 2097152 + 2097152 \<le> disk_len s"
    "unat (ucast (disksize s div 2) - 1 :: 64 word) = last_block s"
proof -
  have v: "dir_ok (Directory s) n (last_block s)" "\<forall>x < 4096. disk s (4096 + x) = Directory s x"
    "disk_len s < 2 ^ 52" "disksize s = of_nat (disk_len s div 2 ^ 20)" "6 \<le> unat (disksize s)"
    using assms by (auto simp: vol_ok_def)
  show "dir_ok (Directory s) n (last_block s)" "x < 4096 \<Longrightarrow> disk s (4096 + x) = Directory s x" using v(1,2) by auto
  have "disk_len s div 2 ^ 20 < 2 ^ 32" using v(3) by (simp add: less_mult_imp_div_less)
  then show d: "unat (disksize s) = disk_len s div 2 ^ 20" unfolding v(4) by (simp add: unat_of_nat)
  have half: "unat (disksize s div 2) = unat (disksize s) div 2" by (simp add: unat_div)
  have "unat (disksize s) < 2 ^ 32" using unsigned_less [of "disksize s"] by simp
  then show "2 \<le> last_block s" "last_block s < 2 ^ 31" using v(5) by (simp_all add: last_block_def half)
  have "(last_block s + 1) * 2 \<le> disk_len s div 2 ^ 20" unfolding d [symmetric] using v(5) by (simp add: last_block_def half)
  then have "(last_block s + 1) * 2 * 2 ^ 20 \<le> disk_len s" by (simp add: less_eq_div_iff_mult_less_eq)
  then show "last_block s * 2097152 + 2097152 \<le> disk_len s" by simp
  have n: "unat (ucast (disksize s div 2) :: 64 word) = unat (disksize s div 2)"
  proof -
    have "unat (disksize s div 2) < 2 ^ 32" using unsigned_less [of "disksize s div 2"] by simp
    then show ?thesis by (simp add: unsigned_ucast_eq take_bit_nat_eq_self)
  qed
  have "(1 :: 64 word) \<le> ucast (disksize s div 2)" using v(5) by (simp add: word_le_nat_alt n half)
  then show "unat (ucast (disksize s div 2) - 1 :: 64 word) = last_block s"
    by (simp add: unat_sub n last_block_def)
qed

lemma put_bytes_out [simp]: "x < a \<or> a + length bs \<le> x \<Longrightarrow> put_bytes a bs m x = m x"
  by (auto simp: put_bytes_def)

lemma put_bytes_in [simp]: "i < length bs \<Longrightarrow> put_bytes a bs m (a + i) = bs ! i"
  by (simp add: put_bytes_def)

lemma disk_write_simps [simp]:
  "Directory (disk_write p bs s) = Directory s" "disksize (disk_write p bs s) = disksize s" "DiskInfo (disk_write p bs s) = DiskInfo s"
  "p + length bs \<le> disk_len s \<Longrightarrow> disk_len (disk_write p bs s) = disk_len s"
  "disk (disk_write p bs s) = put_bytes p bs (disk s)"
  by (auto simp: disk_write_def put_bytes_def fun_eq_iff)

lemma flush_simps [simp]:
  "Directory (flush_directory s) = Directory s" "disksize (flush_directory s) = disksize s" "DiskInfo (flush_directory s) = DiskInfo s"
  "8192 \<le> disk_len s \<Longrightarrow> disk_len (flush_directory s) = disk_len s"
  "x < 4096 \<Longrightarrow> disk (flush_directory s) (4096 + x) = Directory s x"
  "x < 4096 \<or> 8192 \<le> x \<Longrightarrow> disk (flush_directory s) x = disk s x"
  using put_bytes_in [of x "bytes_at (Directory s) 0 4096" 4096 "disk s"] by (auto simp: flush_directory_def)

lemma vol_ok_update:
  assumes "vol_ok s n" "dir_ok d n' (last_block s)" "disk_len t = disk_len s" "disksize t = disksize s"
  shows "vol_ok (flush_directory (t\<lparr>Directory := d\<rparr>)) n'"
proof -
  have "8192 \<le> disk_len s" using vol_okD(4,6) [OF assms(1)] by linarith
  then have "vol_ok (flush_directory (t\<lparr>Directory := d\<rparr>)) n' \<longleftrightarrow> dir_ok d n' (last_block s) \<and> disk_len s < 2 ^ 52 \<and>
      disksize s = of_nat (disk_len s div 2 ^ 20) \<and> 6 \<le> unat (disksize s)"
    by (simp add: vol_ok_def last_block_def assms(3,4))
  then show ?thesis using assms(1,2) unfolding vol_ok_def by blast
qed

text \<open>The blocks that a request in MiB takes.\<close>

lemma blocks_of:
  assumes "0 < maxsize" "maxsize < (2 :: 64 word) ^ 32"
  shows "unat (blocks_requested maxsize) = (unat maxsize + 1) div 2"
proof -
  have s: "unat maxsize < 2 ^ 32" using assms(2) by (simp add: word_less_nat_alt)
  have m: "unat (maxsize mod 2) = unat maxsize mod 2" by (simp add: unat_mod)
  have one: "unat (maxsize + 1) = unat maxsize + 1" using s by (subst unat_plus_if') simp
  show ?thesis
  proof (cases "maxsize mod 2 = 0")
    case True
    then have "unat maxsize mod 2 = 0" using m by simp
    then have "(unat maxsize + 1) div 2 = unat maxsize div 2" by presburger
    with True show ?thesis by (simp add: blocks_requested_def unat_div)
  qed (simp add: blocks_requested_def unat_div one)
qed

text \<open>The name is not in the directory.\<close>

definition new_name :: "bmfs \<Rightarrow> nat \<Rightarrow> cstring \<Rightarrow> bool" where
  "new_name s n f \<longleftrightarrow> name_ok f \<and> (\<forall>i. live (Directory s) n i \<longrightarrow> cstr 32 (Directory s) (i * 64) \<noteq> Some f)"

text \<open>The slot that \<open>create\<close> takes.\<close>

definition free_slot :: "memory \<Rightarrow> nat \<Rightarrow> nat" where
  "free_slot d n = (case find (\<lambda>t. d (t * 64) = 1) [0..<n] of None \<Rightarrow> n | Some t \<Rightarrow> t)"

lemma free_slot: "free_slot d n \<le> n \<and> \<not> live d n (free_slot d n)"
proof (cases "find (\<lambda>t. d (t * 64) = 1) [0..<n]")
  case None
  then show ?thesis by (simp add: free_slot_def live_def)
next
  case (Some t)
  then have "t < n" "d (t * 64) = 1" by (auto simp: find_Some_iff)
  with Some show ?thesis by (simp add: free_slot_def live_def)
qed

lemma create_alt:
  fixes maxsize :: "64 word"
  assumes "vol_ok s n" "n < 64" "new_name s n f"
  defines "b \<equiv> blocks_requested maxsize"
    and "r \<equiv> find_area (blocks_requested maxsize) (ucast (disksize s div 2))
      (qsort StartingBlockCmp (map (entry_at (Directory s)) [0..<n])) 1"
  shows "bm_create f maxsize s = (if r = 0 then Some (Cannot_create, s)
     else Some (Complete, flush_directory (s\<lparr>Directory := add_entry f r b (free_slot (Directory s) n) n (Directory s)\<rparr>)))"
proof -
  have d: "dir_ok (Directory s) n (last_block s)" by (rule vol_okD(1) [OF assms(1)])
  have "findfile (Directory s) f = Some None"
    using findfile_ok [OF d, of f] assms(3) by (simp add: new_name_def)
  moreover have "count_entries (Directory s) [0..<64] None = (n, Some (free_slot (Directory s) n))"
    using count_ok(1) [OF dir_okD(1) [OF d] assms(2)] by (simp add: free_slot_def)
  moreover have "\<not> 4096 \<le> free_slot (Directory s) n * 64 + length f"
    using free_slot [of "Directory s" n] assms(2,3) by (simp add: new_name_def name_ok_def)
  ultimately show ?thesis by (simp add: bm_create_def b_def r_def Let_def)
qed

text \<open>What is free on a volume: \<open>b\<close> blocks from block \<open>q\<close> on.\<close>

definition free_blocks :: "bmfs \<Rightarrow> nat \<Rightarrow> nat \<Rightarrow> nat \<Rightarrow> bool" where
  "free_blocks s n b q \<longleftrightarrow> fits 1 (files (Directory s) n) (last_block s) b q"

lemma create_fit:
  assumes "vol_ok s n" "n < 64" "new_name s n f" "0 < maxsize" "maxsize < 2 ^ 32"
    "\<exists>q. free_blocks s n ((unat maxsize + 1) div 2) q"
  shows "\<exists>s' slot. bm_create f maxsize s = Some (Complete, s') \<and> vol_ok s' (max n (Suc slot)) \<and> slot \<le> n \<and> \<not> live (Directory s) n slot \<and>
    (\<forall>i. live (Directory s') (max n (Suc slot)) i \<longleftrightarrow> i = slot \<or> live (Directory s) n i) \<and>
    (\<forall>i. live (Directory s) n i \<longrightarrow> entry_at (Directory s') i = entry_at (Directory s) i \<and>
       cstr 32 (Directory s') (i * 64) = cstr 32 (Directory s) (i * 64)) \<and>
    cstr 32 (Directory s') (slot * 64) = Some f \<and>
    lo (entry_at (Directory s') slot) = (LEAST q. free_blocks s n ((unat maxsize + 1) div 2) q) \<and>
    unat (ReservedBlocks (entry_at (Directory s') slot)) = (unat maxsize + 1) div 2 \<and> FileSize (entry_at (Directory s') slot) = 0 \<and>
    (\<forall>i < max n (Suc slot). Directory s' (i * 64) = 1 \<longrightarrow> i < n \<and> Directory s (i * 64) = 1) \<and>
    (\<forall>x. x < 4096 \<or> 8192 \<le> x \<longrightarrow> disk s' x = disk s x) \<and> disk_len s' = disk_len s"
proof -
  define b where "b = blocks_requested maxsize"
  define r where "r = find_area b (ucast (disksize s div 2)) (qsort StartingBlockCmp (map (entry_at (Directory s)) [0..<n])) 1"
  define slot where "slot = free_slot (Directory s) n"
  let ?d = "add_entry f r b slot n (Directory s)" and ?L = "last_block s"
  define s' where "s' = flush_directory (s\<lparr>Directory := ?d\<rparr>)"
  note v = vol_okD [OF assms(1)]
  have b: "unat b = (unat maxsize + 1) div 2" unfolding b_def by (rule blocks_of [OF assms(4,5)])
  then have b0: "0 < unat b" using assms(4) by (simp add: word_less_nat_alt)
  have L: "1 \<le> ?L" using v(4) by simp
  have ex: "\<exists>q. fits 1 (files (Directory s) n) ?L (unat b) q" using assms(6) by (simp add: free_blocks_def b)
  have r: "unat r = (LEAST q. fits 1 (files (Directory s) n) ?L (unat b) q)"
    unfolding r_def by (rule area_found(1) [OF v(1) L v(5) v(7) b0 ex])
  have fit: "fits 1 (files (Directory s) n) ?L (unat b) (unat r)" unfolding r using ex by (rule LeastI_ex)
  then have r0: "r \<noteq> 0" by (auto simp: fits_def)
  have nm: "name_ok f" "\<forall>i. live (Directory s) n i \<longrightarrow> cstr 32 (Directory s) (i * 64) \<noteq> Some f"
    using assms(3) by (simp_all add: new_name_def)
  have sl: "slot \<le> n" "\<not> live (Directory s) n slot" using free_slot by (simp_all add: slot_def)
  note d' = add_entry_dir [OF v(1) assms(2) sl nm, of r b]
  have a: "1 \<le> unat r" "0 < unat b" "unat r + unat b \<le> ?L" "\<forall>e \<in> files (Directory s) n. unat r + unat b \<le> lo e \<or> hi e \<le> unat r"
    using fit b0 by (simp_all add: fits_def)
  have "bm_create f maxsize s = Some (Complete, s')"
    using create_alt [OF assms(1-3), of maxsize] r0 by (simp add: s'_def slot_def flip: b_def r_def)
  moreover have "vol_ok s' (max n (Suc slot))"
    unfolding s'_def by (rule vol_ok_update [OF assms(1) d'(1) [OF a]]) simp_all
  moreover have D: "Directory s' = ?d" by (simp add: s'_def)
  moreover have "8192 \<le> disk_len s" using v(6) by linarith
  moreover have "lo (entry_at ?d slot) = unat r" "ReservedBlocks (entry_at ?d slot) = b" "FileSize (entry_at ?d slot) = 0"
    by (subst add_entry_slot(1) [OF nm(1)]; simp add: lo_def)+
  ultimately show ?thesis
    using sl d'(2-4) [OF a] add_entry_slot(2) [OF nm(1)] b r
    by (intro exI [of _ s'] exI [of _ slot]) (simp add: s'_def free_blocks_def)
qed

lemma create_no_fit:
  assumes "vol_ok s n" "n < 64" "new_name s n f" "0 < maxsize" "maxsize < 2 ^ 32"
    "\<nexists>q. free_blocks s n ((unat maxsize + 1) div 2) q" "\<forall>i < n. Directory s (i * 64) \<noteq> 1"
  shows "bm_create f maxsize s = Some (Cannot_create, s)"
proof -
  define b where "b = blocks_requested maxsize"
  note v = vol_okD [OF assms(1)]
  have b: "unat b = (unat maxsize + 1) div 2" unfolding b_def by (rule blocks_of [OF assms(4,5)])
  then have b0: "0 < unat b" using assms(4) by (simp add: word_less_nat_alt)
  have L: "1 \<le> last_block s" using v(4) by simp
  have "\<nexists>q. fits 1 (files (Directory s) n) (last_block s) (unat b) q" using assms(6) by (simp add: free_blocks_def b)
  from area_found(2) [OF v(1) L v(5) v(7) b0 this assms(7)]
  show ?thesis using create_alt [OF assms(1-3), of maxsize] by (simp flip: b_def)
qed

section \<open>A volume as a map of files\<close>

text \<open>The bytes of a file, and what a volume means: the files by their names.\<close>

definition file_bytes :: "bmfs \<Rightarrow> nat \<Rightarrow> byte list" where
  "file_bytes s i = (let e = entry_at (Directory s) i in bytes_at (disk s) (lo e * 2097152) (unat (FileSize e)))"

definition contents :: "bmfs \<Rightarrow> cstring \<Rightarrow> byte list option" where
  "contents s f = (case findfile (Directory s) f of Some (Some i) \<Rightarrow> Some (file_bytes s i) | _ \<Rightarrow> None)"

definition named :: "bmfs \<Rightarrow> nat \<Rightarrow> cstring \<Rightarrow> nat \<Rightarrow> bool" where
  "named s n f i \<longleftrightarrow> live (Directory s) n i \<and> cstr 32 (Directory s) (i * 64) = Some f"

lemma findfile_named:
  assumes "vol_ok s n"
  shows "findfile (Directory s) f = Some (Some i) \<longleftrightarrow> named s n f i"
    "findfile (Directory s) f = Some None \<longleftrightarrow> (\<forall>i. \<not> named s n f i)" "findfile (Directory s) f \<noteq> None"
  using findfile_ok [OF vol_okD(1) [OF assms], of f] by (auto simp: named_def)

lemma findfile_cases:
  assumes "vol_ok s n"
  obtains i where "findfile (Directory s) f = Some (Some i)" "named s n f i" | "findfile (Directory s) f = Some None" "\<forall>i. \<not> named s n f i"
proof (cases "findfile (Directory s) f")
  case None
  then show ?thesis using findfile_named(3) [OF assms] by blast
next
  case (Some r)
  then show ?thesis using findfile_named(1,2) [OF assms] that by (cases r) auto
qed

lemma contents_named: "vol_ok s n \<Longrightarrow> named s n f i \<Longrightarrow> contents s f = Some (file_bytes s i)"
  using findfile_named(1) [of s n f i] by (simp add: contents_def)

lemma contents_none: "vol_ok s n \<Longrightarrow> \<forall>i. \<not> named s n f i \<Longrightarrow> contents s f = None"
  using findfile_named(2) [of s n f] by (simp add: contents_def)

lemma contents_unchanged:
  assumes "vol_ok s n" "vol_ok t k" "\<And>i. named t k g i \<longleftrightarrow> named s n g i" "\<And>i. named s n g i \<Longrightarrow> file_bytes t i = file_bytes s i"
  shows "contents t g = contents s g"
proof (cases rule: findfile_cases [OF assms(1), of g])
  case (1 i)
  then have "named t k g i" using assms(3) by simp
  from contents_named [OF assms(1) 1(2)] contents_named [OF assms(2) this] assms(4) [OF 1(2)] show ?thesis by simp
next
  case 2
  then have "\<forall>i. \<not> named t k g i" using assms(3) by simp
  from contents_none [OF assms(1) 2(2)] contents_none [OF assms(2) this] show ?thesis by simp
qed

text \<open>Where the area of a file lies on the disk.\<close>

lemma area_bytes:
  assumes "vol_ok s n" "live (Directory s) n i"
  defines "e \<equiv> entry_at (Directory s) i"
  shows "2097152 \<le> lo e * 2097152" "lo e * 2097152 + unat (FileSize e) \<le> hi e * 2097152" "hi e * 2097152 \<le> disk_len s"
    "unat (StartingBlock e * 2097152) = lo e * 2097152" "unat (ReservedBlocks e * 2097152) = unat (ReservedBlocks e) * 2097152"
proof -
  note v = vol_okD [OF assms(1)]
  have e: "1 \<le> lo e" "hi e \<le> last_block s" "unat (FileSize e) \<le> unat (ReservedBlocks e) * 2097152"
    using dir_okD(3) [OF v(1) assms(2)] by (simp_all add: file_ok_def e_def)
  have small: "unat (StartingBlock e) < 2 ^ 31" "unat (ReservedBlocks e) < 2 ^ 31" using e(2) v(5) by (simp_all add: hi_def lo_def)
  show "2097152 \<le> lo e * 2097152" using e(1) by simp
  show "lo e * 2097152 + unat (FileSize e) \<le> hi e * 2097152" using e(3) by (simp add: hi_def)
  show "hi e * 2097152 \<le> disk_len s" using e(2) v(6) by linarith
  show "unat (StartingBlock e * 2097152) = lo e * 2097152" using small by (subst unat_mult_lem [THEN iffD1]) (simp_all add: lo_def)
  show "unat (ReservedBlocks e * 2097152) = unat (ReservedBlocks e) * 2097152" using small by (subst unat_mult_lem [THEN iffD1]) simp_all
qed

lemma areas_apart:
  assumes "vol_ok s n" "live (Directory s) n i" "live (Directory s) n j" "i \<noteq> j"
  shows "hi (entry_at (Directory s) i) * 2097152 \<le> lo (entry_at (Directory s) j) * 2097152 \<or>
    hi (entry_at (Directory s) j) * 2097152 \<le> lo (entry_at (Directory s) i) * 2097152"
  using dir_okD(4) [OF vol_okD(1) [OF assms(1)] assms(2-4)] by (auto simp: apart_def)

text \<open>A file is what it was when its entry and the bytes of its area are.\<close>

lemma file_bytes_same:
  assumes "vol_ok s n" "live (Directory s) n i" "entry_at (Directory t) i = entry_at (Directory s) i"
    "\<And>x. lo (entry_at (Directory s) i) * 2097152 \<le> x \<Longrightarrow> x < hi (entry_at (Directory s) i) * 2097152 \<Longrightarrow> disk t x = disk s x"
  shows "file_bytes t i = file_bytes s i"
  unfolding file_bytes_def assms(3) Let_def
  by (intro bytes_at_cong assms(4)) (use area_bytes(2) [OF assms(1,2)] in auto)

section \<open>Writing and deleting\<close>

lemma slots_apart:
  fixes i j x :: nat
  assumes "j \<noteq> i" "j * 64 \<le> x" "x < j * 64 + 64"
  shows "x < i * 64 \<or> i * 64 + 64 \<le> x"
proof (cases "j < i")
  case True
  then have "(j + 1) * 64 \<le> i * 64" by simp
  then show ?thesis using assms(3) by simp
next
  case False
  then have "(i + 1) * 64 \<le> j * 64" using assms(1) by simp
  then show ?thesis using assms(2) by simp
qed

lemma slot_bytes:
  fixes i j x :: nat
  assumes "x < 48"
  shows "j * 64 + x < i * 64 + 48 \<or> i * 64 + 48 + 8 \<le> j * 64 + x"
proof (cases "j \<le> i")
  case True
  then have "j * 64 \<le> i * 64" by simp
  then show ?thesis using assms by simp
next
  case False
  then have "(i + 1) * 64 \<le> j * 64" by simp
  then show ?thesis by simp
qed

lemma resize_dir:
  assumes "dir_ok d n L" "live d n i" "unat v \<le> unat (ReservedBlocks (entry_at d i)) * 2097152"
  defines "d' \<equiv> st64 (i * 64 + 48) v d"
  shows "dir_ok d' n L" "live d' n j \<longleftrightarrow> live d n j" "cstr 32 d' (j * 64) = cstr 32 d (j * 64)"
    "j \<noteq> i \<Longrightarrow> entry_at d' j = entry_at d j" "lo (entry_at d' j) = lo (entry_at d j)" "hi (entry_at d' j) = hi (entry_at d j)"
    "FileSize (entry_at d' i) = v" "d' (j * 64) = d (j * 64)"
proof -
  have b: "d' (j * 64 + x) = d (j * 64 + x)" if "x < 48" for j x
    unfolding d'_def by (rule st64_other) (rule slot_bytes [OF that])
  have w: "ld64 d' (j * 64 + k) = ld64 d (j * 64 + k)" if "k \<le> 40" for j k
  proof (rule ld64_cong)
    fix x :: nat assume "x < 8"
    then show "d' (j * 64 + k + x) = d (j * 64 + k + x)" using b [of "k + x" j] that by (simp add: add.assoc)
  qed
  show m: "d' (j * 64) = d (j * 64)" for j using b [of 0 j] by simp
  show lv: "live d' n j \<longleftrightarrow> live d n j" for j by (simp add: live_def m)
  show c: "cstr 32 d' (j * 64) = cstr 32 d (j * 64)" for j by (rule cstr_cong) (use b in simp)
  show e: "entry_at d' j = entry_at d j" if "j \<noteq> i" for j
  proof (rule entry_at_cong(1))
    fix x assume "j * 64 \<le> x" "x < j * 64 + 64"
    then show "d' x = d x" using slots_apart [OF that] unfolding d'_def by (intro st64_other) fastforce
  qed
  have r: "StartingBlock (entry_at d' j) = StartingBlock (entry_at d j)" "ReservedBlocks (entry_at d' j) = ReservedBlocks (entry_at d j)" for j
    using w [of 32 j] w [of 40 j] by (simp_all add: entry_at_def)
  show lh: "lo (entry_at d' j) = lo (entry_at d j)" "hi (entry_at d' j) = hi (entry_at d j)" for j by (simp_all add: lo_def hi_def r)
  show sz: "FileSize (entry_at d' i) = v" by (simp add: entry_at_def d'_def)
  have "file_ok L (entry_at d' j)" if "live d n j" for j
    using dir_okD(3) [OF assms(1) that] sz assms(3) e [of j] by (cases "j = i") (auto simp: file_ok_def lh r)
  moreover have "ends d' n" using dir_okD(1) [OF assms(1)] by (simp add: ends_def m)
  moreover have "apart (entry_at d' j) (entry_at d' k) \<longleftrightarrow> apart (entry_at d j) (entry_at d k)" for j k by (simp add: apart_def lh)
  ultimately show "dir_ok d' n L" using dir_okD(2,4,5) [OF assms(1)] by (simp add: dir_ok_def lv c)
qed

lemma delete_dir:
  assumes "dir_ok d n L" "live d n i"
  defines "d' \<equiv> d(i * 64 := 1)"
  shows "dir_ok d' n L" "live d' n j \<longleftrightarrow> live d n j \<and> j \<noteq> i"
    "j \<noteq> i \<Longrightarrow> entry_at d' j = entry_at d j" "j \<noteq> i \<Longrightarrow> cstr 32 d' (j * 64) = cstr 32 d (j * 64)"
proof -
  have lt: "i < n" using assms(2) by (simp add: live_def)
  have b: "d' x = d x" if "j * 64 \<le> x" "x < j * 64 + 64" "j \<noteq> i" for x j
    using slots_apart [OF that(3,1,2)] unfolding d'_def by (intro fun_upd_other) auto
  show e: "entry_at d' j = entry_at d j" "cstr 32 d' (j * 64) = cstr 32 d (j * 64)" if "j \<noteq> i" for j
    by (rule entry_at_cong; rule b [OF _ _ that]; assumption)+
  show lv: "live d' n j \<longleftrightarrow> live d n j \<and> j \<noteq> i" for j by (auto simp: live_def d'_def)
  have "ends d' n" using dir_okD(1) [OF assms(1)] lt by (auto simp: ends_def d'_def)
  moreover have "cstr 32 d' (j * 64) \<noteq> None \<and> file_ok L (entry_at d' j)" if "live d' n j" for j
    using that e [of j] dir_okD(2,3) [OF assms(1), of j] by (auto simp: lv)
  moreover have "apart (entry_at d' j) (entry_at d' k) \<and> cstr 32 d' (j * 64) \<noteq> cstr 32 d' (k * 64)"
    if "live d' n j" "live d' n k" "j \<noteq> k" for j k
    using that e [of j] e [of k] dir_okD(4,5) [OF assms(1), of j k] by (simp add: lv)
  ultimately show "dir_ok d' n L" by (simp add: dir_ok_def)
qed

lemma write_file:
  assumes "vol_ok s n" "named s n f i" "fs f = Some (c, k)" "k < 2 ^ 31"
  shows "if unat (ReservedBlocks (entry_at (Directory s) i)) * 2097152 < k then bm_write f fs s = Some (Not_enough_space, s)
    else \<exists>s'. bm_write f fs s = Some (Complete, s') \<and> vol_ok s' n \<and> contents s' = (contents s)(f \<mapsto> bytes_at c 0 k) \<and>
      (\<forall>j < n. Directory s' (j * 64) = Directory s (j * 64))"
proof -
  let ?D = "Directory s" and ?e = "entry_at (Directory s) i"
  have live: "live ?D n i" using assms(2) by (simp add: named_def)
  have find: "findfile ?D f = Some (Some i)" using findfile_named(1) [OF assms(1)] assms(2) by simp
  note a = area_bytes [OF assms(1) live] and v = vol_okD [OF assms(1)]
  have k: "unat (of_nat k :: 64 word) = k" using assms(4) by (simp add: unat_of_nat)
  have test: "ReservedBlocks ?e * 2097152 < of_nat k \<longleftrightarrow> unat (ReservedBlocks ?e) * 2097152 < k"
    by (simp add: word_less_nat_alt a(5) k)
  show ?thesis
  proof (cases "unat (ReservedBlocks ?e) * 2097152 < k")
    case True
    then show ?thesis using find assms(3) test by (simp add: bm_write_def)
  next
    case False
    define D' where "D' = st64 (i * 64 + 48) (of_nat k) ?D"
    define s1 where "s1 = disk_write (lo ?e * 2097152) (bytes_at c 0 k) s"
    define s' where "s' = flush_directory (s1\<lparr>Directory := D'\<rparr>)"
    have "bm_write f fs s = Some (Complete, s')"
      using find assms(3,4) test False a(4) by (simp add: bm_write_def Let_def s'_def s1_def D'_def)
    moreover
    have res: "unat (of_nat k :: 64 word) \<le> unat (ReservedBlocks ?e) * 2097152" using False k by simp
    note d = resize_dir [OF v(1) live res, folded D'_def]
    have room: "lo ?e * 2097152 + k \<le> hi ?e * 2097152" using False by (simp add: hi_def)
    have len: "disk_len s1 = disk_len s" using room a(3) by (simp add: s1_def)
    have ok: "vol_ok s' n" unfolding s'_def by (rule vol_ok_update [OF assms(1) d(1) len]) (simp add: s1_def)
    moreover
    have D: "Directory s' = D'" by (simp add: s'_def)
    have long: "8192 \<le> disk_len s" using v(6) by linarith
    have disk: "disk s' x = (if lo ?e * 2097152 \<le> x \<and> x < lo ?e * 2097152 + k then c (x - lo ?e * 2097152) else disk s x)"
      if "2097152 \<le> x" for x
    proof -
      have "bytes_at c 0 k ! (x - a) = c (x - a)" if "a \<le> x \<and> x < a + k" for a using that by (subst nth_bytes_at) auto
      then show ?thesis using that by (auto simp: s'_def s1_def put_bytes_def)
    qed
    have nm: "named s' n g j \<longleftrightarrow> named s n g j" for g j by (simp add: named_def D d(2,3))
    have other: "contents s' g = contents s g" if "g \<noteq> f" for g
    proof (rule contents_unchanged [OF assms(1) ok nm])
      fix j assume j: "named s n g j"
      then have ne: "j \<noteq> i" "live ?D n j" using assms(2) that by (auto simp: named_def)
      show "file_bytes s' j = file_bytes s j"
      proof (rule file_bytes_same [OF assms(1) ne(2)])
        show "entry_at (Directory s') j = entry_at ?D j" using d(4) [OF ne(1)] D by simp
        fix x assume x: "lo (entry_at ?D j) * 2097152 \<le> x" "x < hi (entry_at ?D j) * 2097152"
        have "2097152 \<le> x" using area_bytes(1) [OF assms(1) ne(2)] x(1) by simp
        moreover have "\<not> (lo ?e * 2097152 \<le> x \<and> x < lo ?e * 2097152 + k)"
          using areas_apart [OF assms(1) ne(2) live ne(1)] x room by linarith
        ultimately show "disk s' x = disk s x" using disk by auto
      qed
    qed
    have "file_bytes s' i = bytes_at c 0 k"
      unfolding file_bytes_def D d(5,7) k Let_def
      by (rule nth_equalityI) (use disk a(1) in simp_all)
    then have this_file: "contents s' f = Some (bytes_at c 0 k)"
      using contents_named [OF ok] nm assms(2) by simp
    have "contents s' = (contents s)(f \<mapsto> bytes_at c 0 k)"
    proof
      fix g show "contents s' g = ((contents s)(f \<mapsto> bytes_at c 0 k)) g" using this_file other [of g] by (cases "g = f") simp_all
    qed
    moreover have "\<forall>j < n. Directory s' (j * 64) = ?D (j * 64)" using D d(8) by simp
    ultimately show ?thesis using False by auto
  qed
qed

lemma delete_file:
  assumes "vol_ok s n" "named s n f i"
  shows "\<exists>s'. bm_delete f s = Some (Complete, s') \<and> vol_ok s' n \<and> contents s' = (contents s)(f := None)"
proof -
  let ?D = "Directory s"
  have live: "live ?D n i" using assms(2) by (simp add: named_def)
  have find: "findfile ?D f = Some (Some i)" using findfile_named(1) [OF assms(1)] assms(2) by simp
  note v = vol_okD [OF assms(1)]
  define D' where "D' = ?D(i * 64 := 1)"
  define s' where "s' = flush_directory (s\<lparr>Directory := D'\<rparr>)"
  have "bm_delete f s = Some (Complete, s')" using find by (simp add: bm_delete_def s'_def D'_def)
  moreover
  note d = delete_dir [OF v(1) live, folded D'_def]
  have ok: "vol_ok s' n" unfolding s'_def by (rule vol_ok_update [OF assms(1) d(1)]) simp_all
  moreover
  have D: "Directory s' = D'" by (simp add: s'_def)
  have nm: "named s' n g j \<longleftrightarrow> named s n g j \<and> j \<noteq> i" for g j
    using d(2,4) [of j] by (auto simp: named_def D)
  have uniq: "j = i" if "named s n f j" for j
    using that assms(2) dir_okD(5) [OF v(1), of j i] by (auto simp: named_def)
  have "contents s' g = ((contents s)(f := None)) g" for g
  proof (cases "g = f")
    case True
    have "\<forall>j. \<not> named s' n f j" using nm uniq by blast
    from contents_none [OF ok this] True show ?thesis by simp
  next
    case False
    have "contents s' g = contents s g"
    proof (rule contents_unchanged [OF assms(1) ok])
      fix j
      have "j \<noteq> i" if "named s n g j" using that assms(2) False by (auto simp: named_def)
      then show "named s' n g j \<longleftrightarrow> named s n g j" using nm by blast
      assume j: "named s n g j"
      then have ne: "j \<noteq> i" "live ?D n j" using assms(2) False by (auto simp: named_def)
      show "file_bytes s' j = file_bytes s j"
      proof (rule file_bytes_same [OF assms(1) ne(2)])
        show "entry_at (Directory s') j = entry_at ?D j" using d(3) [OF ne(1)] D by simp
        fix x assume "lo (entry_at ?D j) * 2097152 \<le> x"
        then have "8192 \<le> x" using area_bytes(1) [OF assms(1) ne(2)] by simp
        then show "disk s' x = disk s x" by (simp add: s'_def)
      qed
    qed
    then show ?thesis using False by simp
  qed
  ultimately show ?thesis by blast
qed

text \<open>\<open>read\<close> writes the bytes of the file into a local file.\<close>

lemma read_file:
  assumes "vol_ok s n" "named s n f i" "creatable f" "unat (FileSize (entry_at (Directory s) i)) < 2 ^ 31"
  shows "\<exists>g k. bm_read creatable f s fs = Some (Complete, fs(f \<mapsto> (g, k))) \<and> contents s f = Some (bytes_at g 0 k)"
proof -
  let ?e = "entry_at (Directory s) i"
  have live: "live (Directory s) n i" using assms(2) by (simp add: named_def)
  note a = area_bytes [OF assms(1) live]
  let ?g = "\<lambda>x. disk_getc s (lo ?e * 2097152 + x)" and ?k = "unat (FileSize ?e)"
  have "bm_read creatable f s fs = Some (Complete, fs(f \<mapsto> (?g, ?k)))"
    using findfile_named(1) [OF assms(1), of f i] assms(2-4) a(4) by (simp add: bm_read_def Let_def)
  moreover have "bytes_at ?g 0 ?k = file_bytes s i"
    unfolding file_bytes_def Let_def by (rule nth_equalityI) (use a(2,3) in \<open>simp_all add: disk_getc_def\<close>)
  ultimately show ?thesis using contents_named [OF assms(1,2)] by (intro exI [of _ ?g] exI [of _ ?k]) simp
qed

section \<open>The operations on the map\<close>

datatype bm_op = Op_create cstring "64 word" | Op_write cstring | Op_delete cstring

fun bm_run_op :: "bmfiles \<Rightarrow> bm_op \<Rightarrow> bmfs \<Rightarrow> (bm_result \<times> bmfs) option" where
  "bm_run_op fs (Op_create f m) s = bm_create f m s"
| "bm_run_op fs (Op_write f) s = bm_write f fs s"
| "bm_run_op fs (Op_delete f) s = bm_delete f s"

text \<open>What an operation that completes means for the files.\<close>

fun map_op :: "bmfiles \<Rightarrow> bm_op \<Rightarrow> (cstring \<Rightarrow> byte list option) \<Rightarrow> cstring \<Rightarrow> byte list option" where
  "map_op fs (Op_create f m) F = F(f \<mapsto> [])"
| "map_op fs (Op_write f) F = F(f := map_option (\<lambda>(c, k). bytes_at c 0 k) (fs f))"
| "map_op fs (Op_delete f) F = F(f := None)"

definition no_deleted :: "bmfs \<Rightarrow> nat \<Rightarrow> bool" where
  "no_deleted s n \<longleftrightarrow> (\<forall>i < n. Directory s (i * 64) \<noteq> 1)"

text \<open>
  The requests that are in order: sizes that an \<open>int\<close> holds, names that fit, and a file is only
  created when nothing has been deleted or there is room for it.
\<close>

fun in_order_op :: "bmfiles \<Rightarrow> bmfs \<Rightarrow> nat \<Rightarrow> bm_op \<Rightarrow> bool" where
  "in_order_op fs s n (Op_create f m) \<longleftrightarrow> name_ok f \<and> 0 < m \<and> m < 2 ^ 32 \<and>
     (no_deleted s n \<or> n < 64 \<and> (\<exists>q. free_blocks s n ((unat m + 1) div 2) q))"
| "in_order_op fs s n (Op_write f) \<longleftrightarrow> (\<forall>c k. fs f = Some (c, k) \<longrightarrow> k < 2 ^ 31)"
| "in_order_op fs s n (Op_delete f) \<longleftrightarrow> True"

lemma create_file:
  assumes "vol_ok s n" "name_ok f" "0 < m" "m < 2 ^ 32" "no_deleted s n \<or> n < 64 \<and> (\<exists>q. free_blocks s n ((unat m + 1) div 2) q)"
  shows "\<exists>r s' n'. bm_create f m s = Some (r, s') \<and> vol_ok s' n' \<and> (no_deleted s n \<longrightarrow> no_deleted s' n') \<and>
    (if contents s f \<noteq> None then r = Already_exists else r \<in> {Complete, Cannot_create, No_free_entries}) \<and>
    (if r = Complete then contents s' = (contents s)(f \<mapsto> []) else s' = s)"
proof (cases rule: findfile_cases [OF assms(1), of f])
  case (1 i)
  then have "bm_create f m s = Some (Already_exists, s)" by (simp add: bm_create_def)
  then show ?thesis using assms(1) contents_named [OF assms(1) 1(2)] by auto
next
  case 2
  then have new: "new_name s n f" using assms(2) by (auto simp: new_name_def named_def)
  have none: "contents s f = None" by (rule contents_none [OF assms(1) 2(2)])
  have e: "ends (Directory s) n" by (rule dir_okD(1) [OF vol_okD(1) [OF assms(1)]])
  consider (fit) "n < 64" "\<exists>q. free_blocks s n ((unat m + 1) div 2) q"
    | (tight) "n < 64" "no_deleted s n" "\<nexists>q. free_blocks s n ((unat m + 1) div 2) q" | (full) "n = 64" "no_deleted s n"
    using assms(5) e by (auto simp: ends_def le_less)
  then show ?thesis
  proof cases
    case fit
    obtain s' slot where s': "bm_create f m s = Some (Complete, s')" "vol_ok s' (max n (Suc slot))" "\<not> live (Directory s) n slot"
      "\<forall>i. live (Directory s') (max n (Suc slot)) i \<longleftrightarrow> i = slot \<or> live (Directory s) n i"
      "\<forall>i. live (Directory s) n i \<longrightarrow> entry_at (Directory s') i = entry_at (Directory s) i \<and>
         cstr 32 (Directory s') (i * 64) = cstr 32 (Directory s) (i * 64)"
      "cstr 32 (Directory s') (slot * 64) = Some f" "FileSize (entry_at (Directory s') slot) = 0"
      "\<forall>i < max n (Suc slot). Directory s' (i * 64) = 1 \<longrightarrow> i < n \<and> Directory s (i * 64) = 1"
      "\<forall>x. x < 4096 \<or> 8192 \<le> x \<longrightarrow> disk s' x = disk s x"
      using create_fit [OF assms(1) fit(1) new assms(3,4) fit(2)] by (elim exE conjE) (rule that)
    have nm: "named s' (max n (Suc slot)) g i \<longleftrightarrow> named s n g i" if "g \<noteq> f" for g i
      using s'(3-6) that by (auto simp: named_def)
    have "contents s' g = contents s g" if "g \<noteq> f" for g
    proof (rule contents_unchanged [OF assms(1) s'(2) nm [OF that]])
      fix i assume i: "named s n g i"
      then have live: "live (Directory s) n i" by (simp add: named_def)
      show "file_bytes s' i = file_bytes s i"
      proof (rule file_bytes_same [OF assms(1) live])
        show "entry_at (Directory s') i = entry_at (Directory s) i" using s'(5) live by blast
        fix x assume "lo (entry_at (Directory s) i) * 2097152 \<le> x"
        then have "8192 \<le> x" using area_bytes(1) [OF assms(1) live] by simp
        then show "disk s' x = disk s x" using s'(9) by simp
      qed
    qed
    moreover have "named s' (max n (Suc slot)) f slot" using s'(4,6) by (simp add: named_def)
    then have "contents s' f = Some []"
      using contents_named [OF s'(2)] s'(7) by (simp add: file_bytes_def)
    ultimately have "contents s' = (contents s)(f \<mapsto> [])" by (auto simp: fun_eq_iff)
    moreover have "no_deleted s n \<longrightarrow> no_deleted s' (max n (Suc slot))" using s'(8) by (auto simp: no_deleted_def)
    ultimately show ?thesis using s'(1,2) none by (intro exI [of _ Complete] exI [of _ s'] exI [of _ "max n (Suc slot)"]) simp
  next
    case tight
    have "bm_create f m s = Some (Cannot_create, s)"
      by (rule create_no_fit [OF assms(1) tight(1) new assms(3,4) tight(3)]) (use tight(2) in \<open>simp add: no_deleted_def\<close>)
    then show ?thesis using assms(1) none by auto
  next
    case full
    have "find (\<lambda>t. Directory s (t * 64) = 1) [0..<64] = None"
      using full by (simp add: find_None_iff no_deleted_def)
    then have "bm_create f m s = Some (No_free_entries, s)"
      using count_ok(2) [OF e full(1)] 2(1) by (simp add: bm_create_def Let_def)
    then show ?thesis using assms(1) none by auto
  qed
qed

text \<open>The message that an operation ends with, as far as the files decide it.\<close>

fun result_fits :: "bmfiles \<Rightarrow> (cstring \<Rightarrow> byte list option) \<Rightarrow> bm_op \<Rightarrow> bm_result \<Rightarrow> bool" where
  "result_fits fs F (Op_create f m) r \<longleftrightarrow>
     (if F f \<noteq> None then r = Already_exists else r \<in> {Complete, Cannot_create, No_free_entries})"
| "result_fits fs F (Op_write f) r \<longleftrightarrow>
     (if F f = None then r = Not_found else if fs f = None then r = Cannot_open else r \<in> {Complete, Not_enough_space})"
| "result_fits fs F (Op_delete f) r \<longleftrightarrow> r = (if F f = None then Not_found else Complete)"

text \<open>One operation.\<close>

lemma op_step:
  assumes "vol_ok s n" "in_order_op fs s n op"
  shows "\<exists>r s' n'. bm_run_op fs op s = Some (r, s') \<and> vol_ok s' n' \<and>
    ((\<forall>f. op \<noteq> Op_delete f) \<longrightarrow> no_deleted s n \<longrightarrow> no_deleted s' n') \<and>
    result_fits fs (contents s) op r \<and> (if r = Complete then contents s' = map_op fs op (contents s) else s' = s)"
proof (cases op)
  case (Op_create f m)
  then have o: "name_ok f" "0 < m" "m < 2 ^ 32" "no_deleted s n \<or> n < 64 \<and> (\<exists>q. free_blocks s n ((unat m + 1) div 2) q)"
    using assms(2) by simp_all
  obtain r s' n' where "bm_create f m s = Some (r, s')" "vol_ok s' n'" "no_deleted s n \<longrightarrow> no_deleted s' n'"
    "if contents s f \<noteq> None then r = Already_exists else r \<in> {Complete, Cannot_create, No_free_entries}"
    "if r = Complete then contents s' = (contents s)(f \<mapsto> []) else s' = s"
    using create_file [OF assms(1) o] by (elim exE conjE) (rule that)
  then show ?thesis using Op_create by (intro exI [of _ r] exI [of _ s'] exI [of _ n']) (auto split: if_splits)
next
  case (Op_write f)
  show ?thesis
  proof (cases rule: findfile_cases [OF assms(1), of f])
    case (1 i)
    have there: "contents s f \<noteq> None" using contents_named [OF assms(1) 1(2)] by simp
    show ?thesis
    proof (cases "fs f")
      case None
      then have "bm_write f fs s = Some (Cannot_open, s)" using 1(1) by (simp add: bm_write_def)
      then show ?thesis using Op_write assms(1) None there by auto
    next
      case (Some ck)
      obtain c k where ck: "fs f = Some (c, k)" using Some by (cases ck) simp
      then have k: "k < 2 ^ 31" using assms(2) Op_write by simp
      note w = write_file [of s n f i fs c k, OF assms(1) 1(2) ck k]
      show ?thesis
      proof (cases "unat (ReservedBlocks (entry_at (Directory s) i)) * 2097152 < k")
        case True
        then have "bm_write f fs s = Some (Not_enough_space, s)" using w by simp
        then show ?thesis using Op_write assms(1) ck there by auto
      next
        case False
        then obtain s' where "bm_write f fs s = Some (Complete, s')" "vol_ok s' n" "contents s' = (contents s)(f \<mapsto> bytes_at c 0 k)"
          "\<forall>j < n. Directory s' (j * 64) = Directory s (j * 64)" using w by auto
        then show ?thesis using Op_write ck there
          by (intro exI [of _ Complete] exI [of _ s'] exI [of _ n]) (simp add: no_deleted_def)
      qed
    qed
  next
    case 2
    then have "bm_write f fs s = Some (Not_found, s)" by (simp add: bm_write_def)
    then show ?thesis using Op_write assms(1) contents_none [OF assms(1) 2(2)] by auto
  qed
next
  case (Op_delete f)
  show ?thesis
  proof (cases rule: findfile_cases [OF assms(1), of f])
    case (1 i)
    then show ?thesis using delete_file [OF assms(1) 1(2)] Op_delete contents_named [OF assms(1) 1(2)] by auto
  next
    case 2
    then have "bm_delete f s = Some (Not_found, s)" by (simp add: bm_delete_def)
    then show ?thesis using Op_delete assms(1) contents_none [OF assms(1) 2(2)] by auto
  qed
qed

section \<open>Later runs\<close>

lemma dir_ok_cong:
  assumes "dir_ok d n L" "\<And>x. x < 4096 \<Longrightarrow> d' x = d x"
  shows "dir_ok d' n L" "live d' n i \<longleftrightarrow> live d n i" "live d n i \<Longrightarrow> entry_at d' i = entry_at d i \<and> cstr 32 d' (i * 64) = cstr 32 d (i * 64)"
proof -
  have n: "n \<le> 64" using dir_okD(1) [OF assms(1)] by (simp add: ends_def)
  have m: "d' (i * 64) = d (i * 64)" if "i < 64" for i using that by (intro assms(2)) simp
  show lv: "live d' n i \<longleftrightarrow> live d n i" for i using n m [of i] by (auto simp: live_def)
  have ends: "ends d' n" using dir_okD(1) [OF assms(1)] m by (auto simp: ends_def)
  show e: "entry_at d' i = entry_at d i \<and> cstr 32 d' (i * 64) = cstr 32 d (i * 64)" if "live d n i" for i
  proof -
    have i: "i \<le> 63" using that n by (simp add: live_def)
    have "d' x = d x" if "i * 64 \<le> x" "x < i * 64 + 64" for x using that i by (intro assms(2)) simp
    then show ?thesis using entry_at_cong [of i d' d] by blast
  qed
  have "cstr 32 d' (i * 64) \<noteq> None \<and> file_ok L (entry_at d' i)" if "live d' n i" for i
    using that e [of i] dir_okD(2,3) [OF assms(1), of i] by (auto simp: lv)
  moreover have "apart (entry_at d' j) (entry_at d' k) \<and> cstr 32 d' (j * 64) \<noteq> cstr 32 d' (k * 64)"
    if "live d' n j" "live d' n k" "j \<noteq> k" for j k
    using that e [of j] e [of k] dir_okD(4,5) [OF assms(1), of j k] by (simp add: lv)
  ultimately show "dir_ok d' n L" using ends by (simp add: dir_ok_def)
qed

text \<open>Opening the disk again gives the volume back.\<close>

lemma reopen:
  assumes "vol_ok s n"
  defines "t \<equiv> bm_open (disk s, disk_len s)"
  shows "vol_ok t n" "contents t = contents s" "named t n f i \<longleftrightarrow> named s n f i"
    "named s n f i \<Longrightarrow> entry_at (Directory t) i = entry_at (Directory s) i"
proof -
  note v = vol_okD [OF assms(1)]
  have long: "8192 \<le> disk_len s" using v(6) by linarith
  have D: "Directory t x = Directory s x" if "x < 4096" for x
    using that v(2) long by (simp add: t_def bm_open_def)
  have size: "disksize t = disksize s" "disk_len t = disk_len s" "disk t = disk s"
    using assms(1) by (simp_all add: t_def bm_open_def vol_ok_def)
  note d = dir_ok_cong [OF v(1) D]
  show ok: "vol_ok t n"
  proof -
    have "vol_ok t n \<longleftrightarrow> dir_ok (Directory t) n (last_block s) \<and> disk_len s < 2 ^ 52 \<and>
        disksize s = of_nat (disk_len s div 2 ^ 20) \<and> 6 \<le> unat (disksize s)"
      using v(2) D by (simp add: vol_ok_def last_block_def size)
    then show ?thesis using assms(1) d(1) unfolding vol_ok_def by blast
  qed
  show nm: "named t n f i \<longleftrightarrow> named s n f i" for f i using d(2,3) [of i] by (auto simp: named_def)
  show e: "entry_at (Directory t) i = entry_at (Directory s) i" if "named s n f i" for f i
    using that d(3) by (simp add: named_def)
  have "contents t g = contents s g" for g
  proof (rule contents_unchanged [OF assms(1) ok nm])
    fix i assume "named s n g i"
    then show "file_bytes t i = file_bytes s i" by (simp add: file_bytes_def e size)
  qed
  then show "contents t = contents s" by blast
qed

section \<open>Formatting\<close>

lemma format_simps:
  "Directory (bm_format s) = put_bytes 0 (replicate 4096 0) (Directory s)" "disksize (bm_format s) = disksize s"
  "DiskInfo (bm_format s) = fs_tag @ replicate 508 0"
  "8192 \<le> disk_len s \<Longrightarrow> disk_len (bm_format s) = disk_len s"
  "x < 1024 \<or> 8192 \<le> x \<Longrightarrow> disk (bm_format s) x = disk s x"
  "i < 512 \<Longrightarrow> disk (bm_format s) (1024 + i) = (fs_tag @ replicate 508 0) ! i"
  using put_bytes_in [of i "fs_tag @ replicate 508 0" 1024 "disk s"]
  by (auto simp: bm_format_def Let_def fs_tag_def lit_def drop_replicate)

lemma empty_dir: "\<forall>x < 4096. d x = 0 \<Longrightarrow> dir_ok d 0 L"
  by (simp add: dir_ok_def ends_def live_def)

lemma format_ok:
  assumes "disk_len s < 2 ^ 52" "disksize s = of_nat (disk_len s div 2 ^ 20)" "6 \<le> unat (disksize s)"
  shows "vol_ok (bm_format s) 0" "no_deleted (bm_format s) 0" "contents (bm_format s) = Map.empty"
proof -
  have "disk_len s div 2 ^ 20 < 2 ^ 32" using assms(1) by (simp add: less_mult_imp_div_less)
  then have "6 \<le> disk_len s div 2 ^ 20" using assms(2,3) by (simp add: unat_of_nat)
  then have long: "8192 \<le> disk_len s" by simp
  have zero: "\<forall>x < 4096. Directory (bm_format s) x = 0" by (simp add: format_simps(1) put_bytes_def)
  have "disk (bm_format s) (4096 + x) = Directory (bm_format s) x" if "x < 4096" for x
    using that flush_simps(5) by (simp add: bm_format_def Let_def)
  then have "vol_ok (bm_format s) 0 \<longleftrightarrow> disk_len s < 2 ^ 52 \<and> disksize s = of_nat (disk_len s div 2 ^ 20) \<and> 6 \<le> unat (disksize s)"
    using empty_dir [OF zero] long by (simp add: vol_ok_def format_simps(2,4))
  then show ok: "vol_ok (bm_format s) 0" using assms by blast
  show "no_deleted (bm_format s) 0" by (simp add: no_deleted_def)
  have "\<forall>i. \<not> named (bm_format s) 0 f i" for f by (simp add: named_def live_def)
  then show "contents (bm_format s) = Map.empty" using contents_none [OF ok] by blast
qed

section \<open>Initializing\<close>

lemma zero_disk: "put_bytes p (replicate k 0) (\<lambda>_. 0) = (\<lambda>_. 0)"
  by (auto simp: put_bytes_def fun_eq_iff)

lemma fill_zeros_all:
  assumes "w \<le> n" "n \<le> room"
  shows "fill_zeros room w n (s\<lparr>disk := (\<lambda>_. 0), disk_len := w\<rparr>) = (True, s\<lparr>disk := (\<lambda>_. 0), disk_len := n\<rparr>)"
  using assms
proof (induction "n - w" arbitrary: w rule: less_induct)
  case less
  show ?case
  proof (cases "w < n")
    case False
    then show ?thesis using less.prems by (subst fill_zeros.simps) simp
  next
    case True
    define k where "k = (if bufferSize > n - w then n - w else bufferSize)"
    have k: "0 < k" "w + k \<le> n" using True by (auto simp: k_def bufferSize_def)
    have "disk_put room w (replicate k 0) (s\<lparr>disk := (\<lambda>_. 0), disk_len := w\<rparr>) = Some (s\<lparr>disk := (\<lambda>_. 0), disk_len := w + k\<rparr>)"
      using k less.prems by (simp add: disk_put_def disk_write_def zero_disk)
    then have "fill_zeros room w n (s\<lparr>disk := (\<lambda>_. 0), disk_len := w\<rparr>) = fill_zeros room (w + k) n (s\<lparr>disk := (\<lambda>_. 0), disk_len := w + k\<rparr>)"
      using True by (subst fill_zeros.simps) (simp add: k_def Let_def)
    then show ?thesis using less.hyps [of "w + k"] k less.prems by simp
  qed
qed

lemma put_bytes_append: "put_bytes (p + length a) b (put_bytes p a m) = put_bytes p (a @ b) m"
  by (auto simp: put_bytes_def nth_append fun_eq_iff)

lemma disk_write_append: "disk_write (p + length a) b (disk_write p a s) = disk_write p (a @ b) s"
  by (auto simp: disk_write_def put_bytes_append)

lemma copy_file_all:
  assumes "pos + length content \<le> room"
  shows "copy_file room content pos ok s = (ok, pos + length content, disk_write pos content s)"
  using assms
proof (induction "length content" arbitrary: content pos s rule: less_induct)
  case less
  show ?case
  proof (cases "content = []")
    case True
    then show ?thesis by (subst copy_file.simps) (simp add: disk_write_def)
  next
    case False
    let ?a = "take bufferSize content" and ?b = "drop bufferSize content"
    have a: "?a \<noteq> []" "length ?b < length content" using False by (auto simp: bufferSize_def)
    have fit: "pos + length ?a \<le> room" using less.prems by simp
    have "copy_file room content pos ok s = copy_file room ?b (pos + length ?a) ok (disk_write pos ?a s)"
      using a(1) fit by (subst copy_file.simps) (simp add: disk_put_def Let_def del: length_take)
    also have "\<dots> = (ok, pos + length ?a + length ?b, disk_write (pos + length ?a) ?b (disk_write pos ?a s))"
      using less.prems by (intro less.hyps [OF a(2)]) simp
    also have "\<dots> = (ok, pos + length content, disk_write pos content s)"
      unfolding disk_write_append by simp
    finally show ?thesis .
  qed
qed

lemma parse_at_least: "parse_disk_size sz = Inr d \<Longrightarrow> 6 * 2 ^ 20 \<le> unat d"
  by (auto simp: parse_disk_size_def minimumDiskSize_def word_le_nat_alt not_less split: sum.splits prod.splits if_splits)

lemma initialize_result:
  assumes "parse_disk_size sz = Inr d" "unat d \<le> room" "can_open fs mbr" "can_open fs boot" "can_open fs kern"
    "mbr \<noteq> None \<longrightarrow> 512 \<le> length (content_of fs mbr)" "boot = None \<longrightarrow> kern = None"
    "8192 + length (content_of fs boot) + length (content_of fs kern) \<le> unat d"
  shows "bm_initialize room True True fs sz mbr boot kern s = (None, Some
    (disk_write 8192 (content_of fs boot @ content_of fs kern) (disk_write 0 (take 512 (content_of fs mbr))
      (bm_format (s\<lparr>disk := (\<lambda>_. 0), disk_len := unat d\<rparr>)))))"
proof -
  define s2 where "s2 = bm_format (s\<lparr>disk := (\<lambda>_. 0), disk_len := unat d\<rparr>)"
  define s3 where "s3 = disk_write 0 (take 512 (content_of fs mbr)) s2"
  let ?b = "content_of fs boot" and ?k = "content_of fs kern"
  have fill: "fill_zeros room 0 (unat d) (s\<lparr>disk := (\<lambda>_. 0), disk_len := 0\<rparr>) = (True, s\<lparr>disk := (\<lambda>_. 0), disk_len := unat d\<rparr>)"
    using fill_zeros_all [of 0 "unat d" room s] assms(2) by simp
  have mbr: "\<exists>p. write_mbr room fs mbr s2 = (None, p, s3) \<and> (boot = None \<longrightarrow> kern = None)"
  proof (cases mbr)
    case None
    then show ?thesis using assms(7) by (simp add: write_mbr_def s3_def content_of_def disk_write_def)
  next
    case (Some f)
    have "512 \<le> room" using assms(2,8) by linarith
    then show ?thesis using Some assms(6,7) by (simp add: write_mbr_def s3_def disk_put_def)
  qed
  have part: "write_part room fs name p t = (None, p + length (content_of fs name), disk_write p (content_of fs name) t)"
    if "p + length (content_of fs name) \<le> room" for name p t
    using copy_file_all [OF that] by (auto simp: write_part_def content_of_def disk_write_def)
  have r1: "8192 + length ?b \<le> room" "8192 + length ?b + length ?k \<le> room" using assms(2,8) by linarith+
  obtain p where m: "write_mbr room fs mbr s2 = (None, p, s3)" using mbr by blast
  have "\<exists>p1. write_part room fs boot (if boot = None then p else 8192) s3 = (None, p1, disk_write 8192 ?b s3) \<and>
      (boot \<noteq> None \<longrightarrow> p1 = 8192 + length ?b)"
    using part [OF r1(1)] by (auto simp: write_part_def content_of_def disk_write_def)
  then obtain p1 where w1: "write_part room fs boot (if boot = None then p else 8192) s3 = (None, p1, disk_write 8192 ?b s3)"
    and p1: "boot \<noteq> None \<longrightarrow> p1 = 8192 + length ?b" by blast
  have "\<exists>p2. write_part room fs kern p1 (disk_write 8192 ?b s3) = (None, p2, disk_write (8192 + length ?b) ?k (disk_write 8192 ?b s3))"
  proof (cases "boot = None")
    case True
    then show ?thesis using assms(7) by (simp add: write_part_def content_of_def disk_write_def)
  next
    case False
    then show ?thesis using p1 part [OF r1(2)] by simp
  qed
  then obtain p2 where w2: "write_part room fs kern p1 (disk_write 8192 ?b s3) = (None, p2, disk_write 8192 (?b @ ?k) s3)"
    unfolding disk_write_append by blast
  show ?thesis
    using assms(1,3-5) by (simp add: bm_initialize_def Let_def fill m w1 w2 flip: s2_def s3_def)
qed

lemma initialize_ok:
  fixes s :: bmfs
  assumes "parse_disk_size sz = Inr d" "unat d < 2 ^ 52" "length b + 8192 \<le> unat d" "length r \<le> 512"
  defines "s1 \<equiv> disk_write 8192 b (disk_write 0 r (bm_format (s\<lparr>disk := (\<lambda>_. 0), disk_len := unat d\<rparr>)))"
  shows "vol_ok (bm_open (disk s1, disk_len s1)) 0" "contents (bm_open (disk s1, disk_len s1)) = Map.empty"
    "strcaseeq (takeWhile (\<lambda>ch. ch \<noteq> 0) (DiskInfo (bm_open (disk s1, disk_len s1)))) fs_tag"
    "disk_len s1 = unat d" "bytes_at (disk s1) 8192 (length b) = b" "bytes_at (disk s1) 0 (length r) = r"
proof -
  define s2 where "s2 = bm_format (s\<lparr>disk := (\<lambda>_. 0), disk_len := unat d\<rparr>)"
  have big: "6 * 2 ^ 20 \<le> unat d" by (rule parse_at_least [OF assms(1)])
  have len2: "disk_len s2 = unat d" using big by (simp add: s2_def format_simps(4))
  then show len: "disk_len s1 = unat d" using assms(3,4) big by (simp add: s1_def flip: s2_def)
  have disk: "disk s1 x = (if 8192 \<le> x \<and> x < 8192 + length b then b ! (x - 8192) else if x < length r then r ! x else disk s2 x)" for x
    using assms(4) by (auto simp: s1_def put_bytes_def simp flip: s2_def)
  show "bytes_at (disk s1) 8192 (length b) = b" "bytes_at (disk s1) 0 (length r) = r"
    using assms(4) by (auto intro!: nth_equalityI simp: disk)
  let ?t = "bm_open (disk s1, disk_len s1)"
  have "disk s2 (4096 + x) = 0" if "x < 4096" for x
    using flush_simps(5) [OF that] that by (simp add: s2_def bm_format_def Let_def put_bytes_def)
  then have D: "Directory ?t x = 0" "disk ?t (4096 + x) = 0" if "x < 4096" for x
    using that assms(4) by (simp_all add: bm_open_def disk)
  have "unat d div 2 ^ 20 < 2 ^ 32" using assms(2) by (simp add: less_mult_imp_div_less)
  then have "unat (of_nat (unat d div 2 ^ 20) :: 32 word) = unat d div 2 ^ 20" by (simp add: unat_of_nat)
  moreover have "6 \<le> unat d div 2 ^ 20" using big by (simp add: less_eq_div_iff_mult_less_eq)
  ultimately show ok: "vol_ok ?t 0"
    using empty_dir D assms(2) by (simp add: vol_ok_def bm_open_def len)
  have "\<forall>i. \<not> named ?t 0 f i" for f by (simp add: named_def live_def)
  then show "contents ?t = Map.empty" using contents_none [OF ok] by blast
  have "DiskInfo ?t = fs_tag @ replicate 508 0"
  proof (rule nth_equalityI)
    fix i assume "i < length (DiskInfo ?t)"
    then have i: "i < 512" by (simp add: bm_open_def)
    then have "disk s2 (1024 + i) = (fs_tag @ replicate 508 0) ! i" unfolding s2_def by (rule format_simps(6))
    then show "DiskInfo ?t ! i = (fs_tag @ replicate 508 0) ! i"
      using i assms(4) big by (simp add: bm_open_def len disk)
  qed (simp add: bm_open_def fs_tag_def lit_def)
  then show "strcaseeq (takeWhile (\<lambda>ch. ch \<noteq> 0) (DiskInfo ?t)) fs_tag" by (simp add: strcaseeq_def fs_tag_def lit_def)
qed

section \<open>Sequences of operations\<close>

fun bm_run :: "bmfiles \<Rightarrow> bm_op list \<Rightarrow> bmfs \<Rightarrow> bmfs option" where
  "bm_run fs [] s = Some s"
| "bm_run fs (op # ops) s = (case bm_run_op fs op s of None \<Rightarrow> None | Some (r, s1) \<Rightarrow> bm_run fs ops s1)"

fun careful :: "bmfiles \<Rightarrow> bm_op \<Rightarrow> bool" where
  "careful fs (Op_create f m) \<longleftrightarrow> name_ok f \<and> 0 < m \<and> m < 2 ^ 32"
| "careful fs (Op_write f) \<longleftrightarrow> (\<forall>c k. fs f = Some (c, k) \<longrightarrow> k < 2 ^ 31)"
| "careful fs (Op_delete f) \<longleftrightarrow> False"

lemma careful_runs:
  "vol_ok s n \<Longrightarrow> no_deleted s n \<Longrightarrow> \<forall>op \<in> set ops. careful fs op \<Longrightarrow>
    \<exists>s' n'. bm_run fs ops s = Some s' \<and> vol_ok s' n' \<and> no_deleted s' n'"
proof (induction ops arbitrary: s n)
  case (Cons op ops)
  have "in_order_op fs s n op" "\<forall>f. op \<noteq> Op_delete f" using Cons.prems(2,3) by (cases op; simp)+
  then obtain r s1 n1 where "bm_run_op fs op s = Some (r, s1)" "vol_ok s1 n1" "no_deleted s1 n1"
    using op_step [OF Cons.prems(1)] Cons.prems(2) by blast
  with Cons.IH [of s1 n1] Cons.prems(3) show ?case by simp
qed auto

section \<open>An example\<close>

text \<open>A disk of 12 MiB with the file \<open>A\<close> of three bytes in the area of block 1.\<close>

definition ex_directory :: memory where
  "ex_directory = (\<lambda>_. 0)(0 := 65, 32 := 1, 40 := 1, 48 := 3)"

definition ex_volume :: bmfs where
  "ex_volume = \<lparr>disk = (\<lambda>x. if 4096 \<le> x \<and> x < 8192 then ex_directory (x - 4096) else 7), disk_len = 12 * 2 ^ 20,
     disksize = 12, Directory = ex_directory, DiskInfo = []\<rparr>"

lemma ex_live: "live ex_directory (Suc 0) i \<longleftrightarrow> i = 0"
  by (auto simp: live_def ex_directory_def)

lemma ex_entry: "lo (entry_at ex_directory 0) = 1" "hi (entry_at ex_directory 0) = 2"
    "ReservedBlocks (entry_at ex_directory 0) = 1" "FileSize (entry_at ex_directory 0) = 3" "cstr 32 ex_directory 0 = Some [65]"
proof -
  show "lo (entry_at ex_directory 0) = 1" "hi (entry_at ex_directory 0) = 2"
    "ReservedBlocks (entry_at ex_directory 0) = 1" "FileSize (entry_at ex_directory 0) = 3"
    by (simp_all add: lo_def hi_def entry_at_def ld64_def ex_directory_def)
  have "cstr 2 ex_directory 0 = Some [65]" by code_simp
  then show "cstr 32 ex_directory 0 = Some [65]" by (rule cstr_mono) simp
qed

lemma ex_volume_ok: "vol_ok ex_volume 1" "last_block ex_volume = 5" "named ex_volume 1 [65] 0"
proof -
  show L: "last_block ex_volume = 5" by (simp add: last_block_def ex_volume_def)
  have "ends ex_directory 1" by (simp add: ends_def ex_directory_def)
  then have "dir_ok (Directory ex_volume) 1 5" by (simp add: dir_ok_def ex_volume_def ex_live ex_entry file_ok_def)
  then show "vol_ok ex_volume 1" unfolding vol_ok_def L by (simp add: ex_volume_def)
  show "named ex_volume 1 [65] 0" by (simp add: named_def ex_volume_def ex_live ex_entry)
qed

text \<open>
  After a deletion \<open>create\<close> may report success where no run of free blocks is long enough:
  it then takes the end of a deleted file for the end of the last one, and the area of the new
  file runs into that of another file or behind the last data block.
\<close>

theorem create_after_delete_overlaps:
  assumes "vol_ok s n" "n < 64" "new_name s n f" "0 < m" "m < 2 ^ 32"
    "\<nexists>q. free_blocks s n ((unat m + 1) div 2) q" "bm_create f m s = Some (Complete, s')"
  shows "\<exists>i. cstr 32 (Directory s') (i * 64) = Some f \<and> (last_block s < hi (entry_at (Directory s') i) \<or>
    (\<exists>j. live (Directory s) n j \<and> \<not> apart (entry_at (Directory s') i) (entry_at (Directory s) j)))"
proof -
  define r where "r = find_area (blocks_requested m) (ucast (disksize s div 2))
    (qsort StartingBlockCmp (map (entry_at (Directory s)) [0..<n])) 1"
  let ?i = "free_slot (Directory s) n" and ?b = "blocks_requested m"
  have c: "r \<noteq> 0 \<and> Directory s' = add_entry f r ?b ?i n (Directory s)"
    using create_alt [OF assms(1-3), of m] assms(7) by (auto simp flip: r_def split: if_splits)
  have nm: "name_ok f" using assms(3) by (simp add: new_name_def)
  have e: "lo (entry_at (Directory s') ?i) = unat r" "hi (entry_at (Directory s') ?i) = unat r + unat ?b"
    unfolding conjunct2 [OF c] by (subst add_entry_slot(1) [OF nm]; simp add: lo_def hi_def)+
  have b: "unat ?b = (unat m + 1) div 2" by (rule blocks_of [OF assms(4,5)])
  have "\<not> fits 1 (files (Directory s) n) (last_block s) (unat ?b) (unat r)" using assms(6) b by (simp add: free_blocks_def)
  moreover have "1 \<le> unat r" using c by (simp add: Suc_le_eq unat_gt_0)
  ultimately have "last_block s < hi (entry_at (Directory s') ?i) \<or>
      (\<exists>j. live (Directory s) n j \<and> \<not> apart (entry_at (Directory s') ?i) (entry_at (Directory s) j))"
    by (auto simp: fits_def files_def apart_def e)
  moreover have "cstr 32 (Directory s') (?i * 64) = Some f" unfolding conjunct2 [OF c] by (rule add_entry_slot(2) [OF nm])
  ultimately show ?thesis by blast
qed

section \<open>Properties\<close>

text \<open>
  C35: in a directory of fewer than 64 entries \<open>create\<close> reserves for a new file, whose name fits and
  whose size is 1 to \<open>2 ^ 32 - 1\<close> MiB, the lowest run of free blocks that is long enough (the size
  is rounded up to blocks of 2 MiB), and leaves a well-formed volume in which the file is found.
  When there is none and nothing has been deleted, it refuses and changes nothing; when something has
  been deleted, it either does so too, or it reports success and the area of the new file runs into
  that of another file or behind the last data block.
\<close>

theorem create_takes_first_fit:
  assumes "vol_ok s n" "n < 64" "new_name s n f" "0 < m" "m < 2 ^ 32"
  shows "if \<exists>q. free_blocks s n ((unat m + 1) div 2) q
    then \<exists>s' n' i. bm_create f m s = Some (Complete, s') \<and> vol_ok s' n' \<and> named s' n' f i \<and>
      lo (entry_at (Directory s') i) = (LEAST q. free_blocks s n ((unat m + 1) div 2) q) \<and>
      unat (ReservedBlocks (entry_at (Directory s') i)) = (unat m + 1) div 2
    else bm_create f m s = Some (Cannot_create, s) \<or> \<not> no_deleted s n \<and>
      (\<exists>s' i. bm_create f m s = Some (Complete, s') \<and> cstr 32 (Directory s') (i * 64) = Some f \<and>
        (last_block s < hi (entry_at (Directory s') i) \<or>
         (\<exists>j. live (Directory s) n j \<and> \<not> apart (entry_at (Directory s') i) (entry_at (Directory s) j))))"
proof (cases "\<exists>q. free_blocks s n ((unat m + 1) div 2) q")
  case True
  obtain s' slot where "bm_create f m s = Some (Complete, s')" "vol_ok s' (max n (Suc slot))"
    "\<forall>i. live (Directory s') (max n (Suc slot)) i \<longleftrightarrow> i = slot \<or> live (Directory s) n i"
    "cstr 32 (Directory s') (slot * 64) = Some f"
    "lo (entry_at (Directory s') slot) = (LEAST q. free_blocks s n ((unat m + 1) div 2) q)"
    "unat (ReservedBlocks (entry_at (Directory s') slot)) = (unat m + 1) div 2"
    using create_fit [OF assms True] by (elim exE conjE) (rule that)
  moreover from this have "named s' (max n (Suc slot)) f slot" by (simp add: named_def)
  ultimately show ?thesis unfolding if_P [OF True] by (intro exI conjI)
next
  case False
  show ?thesis unfolding if_not_P [OF False]
  proof (cases "bm_create f m s = Some (Cannot_create, s)")
    case some: False
    then obtain s' where s': "bm_create f m s = Some (Complete, s')"
      using create_alt [OF assms(1-3), of m] by (auto split: if_splits)
    have "\<not> no_deleted s n" using create_no_fit [OF assms False] some by (auto simp: no_deleted_def)
    then show "bm_create f m s = Some (Cannot_create, s) \<or> \<not> no_deleted s n \<and>
      (\<exists>s' i. bm_create f m s = Some (Complete, s') \<and> cstr 32 (Directory s') (i * 64) = Some f \<and>
        (last_block s < hi (entry_at (Directory s') i) \<or>
         (\<exists>j. live (Directory s) n j \<and> \<not> apart (entry_at (Directory s') i) (entry_at (Directory s) j))))"
      using create_after_delete_overlaps [OF assms False s'] s' by blast
  qed simp
qed

theorem create_takes_first_fit_witness:
  "\<exists>s' n' i. bm_create [66] 3 ex_volume = Some (Complete, s') \<and> vol_ok s' n' \<and> named s' n' [66] i \<and> lo (entry_at (Directory s') i) = 2"
proof -
  have new: "new_name ex_volume 1 [66]" by (simp add: new_name_def name_ok_def ex_volume_def ex_live ex_entry)
  have f: "free_blocks ex_volume 1 2 q \<longleftrightarrow> 2 \<le> q \<and> q \<le> 3" for q
  proof -
    have "files (Directory ex_volume) 1 = {entry_at ex_directory 0}" by (auto simp: files_def ex_volume_def ex_live)
    then show ?thesis by (auto simp: free_blocks_def fits_def ex_volume_ok(2) ex_entry)
  qed
  have L: "(LEAST q. free_blocks ex_volume 1 2 q) = 2" unfolding f by (rule Least_equality) auto
  have b: "(unat (3 :: 64 word) + 1) div 2 = 2" by simp
  have e: "\<exists>q. free_blocks ex_volume 1 ((unat (3 :: 64 word) + 1) div 2) q" unfolding b f by (rule exI [of _ 2]) simp
  have "1 < (64 :: nat)" "(0 :: 64 word) < 3" "(3 :: 64 word) < 2 ^ 32" by simp_all
  from create_takes_first_fit [OF ex_volume_ok(1) this(1) new this(2,3)] show ?thesis
    unfolding b L if_P [OF e [unfolded b]] by blast
qed



text \<open>
  C36: a disk of at least 6 MiB that has just been formatted stays a well-formed volume, with every file
  inside an area of its own and the directory on the disk the one in memory, under every sequence of
  \<open>create\<close> and \<open>write\<close> with names that fit their field (1 to 31 characters, none a mark), sizes of 1 to
  \<open>2 ^ 32 - 1\<close> MiB and local files below 2 GiB, even when the disk or the directory is full; none
  of them leaves what C defines. (A longer name overwrites the numbers behind it, and deletions are
  not among the operations.)
\<close>

theorem formatted_volume_stays_well_formed:
  assumes "disk_len s < 2 ^ 52" "disksize s = of_nat (disk_len s div 2 ^ 20)" "6 \<le> unat (disksize s)"
    "\<forall>op \<in> set ops. careful fs op"
  shows "\<exists>s' n. bm_run fs ops (bm_format s) = Some s' \<and> vol_ok s' n"
  using careful_runs [OF format_ok(1,2) [OF assms(1-3)] assms(4)] by blast

theorem formatted_volume_stays_well_formed_witness:
  "\<exists>s' n. bm_run (\<lambda>_. Some (\<lambda>_. 9, 5)) [Op_create [65] 4, Op_write [65], Op_create [66] 2000] (bm_format ex_volume) = Some s' \<and> vol_ok s' n"
  by (rule formatted_volume_stays_well_formed) (simp_all add: ex_volume_def name_ok_def)

text \<open>
  C37: what \<open>write\<close> has put on the disk a later run of the program reads back: after the disk has
  been closed and opened again, \<open>read\<close> makes a local file with the bytes that were written, and
  every other file reads as before.
\<close>

theorem written_file_is_read_back:
  assumes "vol_ok s n" "named s n f i" "fs f = Some (c, k)" "k < 2 ^ 31"
    "k \<le> unat (ReservedBlocks (entry_at (Directory s) i)) * 2097152" "creatable f"
  shows "\<exists>s' g k'. bm_write f fs s = Some (Complete, s') \<and>
    bm_read creatable f (bm_open (disk s', disk_len s')) gs = Some (Complete, gs(f \<mapsto> (g, k'))) \<and> bytes_at g 0 k' = bytes_at c 0 k \<and>
    (\<forall>h. h \<noteq> f \<longrightarrow> contents (bm_open (disk s', disk_len s')) h = contents s h)"
proof -
  obtain s' where s': "bm_write f fs s = Some (Complete, s')" "vol_ok s' n" "contents s' = (contents s)(f \<mapsto> bytes_at c 0 k)"
    using write_file [of s n f i fs c k, OF assms(1-4)] assms(5) by auto
  let ?t = "bm_open (disk s', disk_len s')"
  note t = reopen [OF s'(2)]
  have c: "contents ?t f = Some (bytes_at c 0 k)" using t(2) s'(3) by simp
  then obtain j where j: "named ?t n f j"
    by (cases rule: findfile_cases [OF t(1), of f]) (auto simp: contents_none [OF t(1)])
  have "file_bytes ?t j = bytes_at c 0 k" using contents_named [OF t(1) j] c by simp
  then have "length (file_bytes ?t j) = k" by simp
  then have "unat (FileSize (entry_at (Directory ?t) j)) < 2 ^ 31" using assms(4) by (simp add: file_bytes_def Let_def)
  from read_file [OF t(1) j, of creatable gs, OF assms(6) this]
  obtain g k' where "bm_read creatable f ?t gs = Some (Complete, gs(f \<mapsto> (g, k')))" "contents ?t f = Some (bytes_at g 0 k')" by blast
  then show ?thesis using s'(1,3) c t(2) by auto
qed

theorem written_file_is_read_back_witness:
  "\<exists>s' g k'. bm_write [65] (\<lambda>_. Some (\<lambda>x. of_nat x, 4)) ex_volume = Some (Complete, s') \<and>
    bm_read (\<lambda>_. True) [65] (bm_open (disk s', disk_len s')) (\<lambda>_. None) = Some (Complete, (\<lambda>_. None)([65] \<mapsto> (g, k'))) \<and>
    bytes_at g 0 k' = bytes_at (\<lambda>x. of_nat x) 0 4"
  using written_file_is_read_back [OF ex_volume_ok(1,3), of "\<lambda>_. Some (\<lambda>x. of_nat x, 4)" "\<lambda>x. of_nat x" 4 "\<lambda>_. True" "\<lambda>_. None"]
  by (auto simp: ex_volume_def ex_entry)

text \<open>
  C38: \<open>initialize\<close> with a valid size and files that fit makes a disk of exactly that size with the
  master boot record in its first 512 bytes and the boot loader followed by the kernel from
  byte 8192 on, and \<open>main\<close> opens it as a formatted volume without files.
\<close>

theorem initialized_disk_is_empty_volume:
  assumes "parse_disk_size sz = Inr d" "unat d < 2 ^ 52" "unat d \<le> room" "can_open fs mbr" "can_open fs boot" "can_open fs kern"
    "mbr \<noteq> None \<longrightarrow> 512 \<le> length (content_of fs mbr)" "boot = None \<longrightarrow> kern = None"
    "8192 + length (content_of fs boot) + length (content_of fs kern) \<le> unat d"
  shows "\<exists>s'. bm_initialize room True True fs sz mbr boot kern s = (None, Some s') \<and> disk_len s' = unat d \<and>
    (let t = bm_open (disk s', disk_len s')
     in vol_ok t 0 \<and> contents t = Map.empty \<and> strcaseeq (takeWhile (\<lambda>ch. ch \<noteq> 0) (DiskInfo t)) fs_tag) \<and>
    bytes_at (disk s') 0 (min 512 (length (content_of fs mbr))) = take 512 (content_of fs mbr) \<and>
    bytes_at (disk s') 8192 (length (content_of fs boot @ content_of fs kern)) = content_of fs boot @ content_of fs kern"
proof -
  let ?b = "content_of fs boot @ content_of fs kern" and ?r = "take 512 (content_of fs mbr)"
  have l: "length ?b + 8192 \<le> unat d" "length ?r \<le> 512" using assms(9) by simp_all
  note r = initialize_result [OF assms(1,3-9), of s] and o = initialize_ok [OF assms(1,2) l, of s]
  show ?thesis using o r by (intro exI [of _ "disk_write 8192 ?b (disk_write 0 ?r (bm_format (s\<lparr>disk := (\<lambda>_. 0), disk_len := unat d\<rparr>)))"])
    (simp add: Let_def min.commute)
qed

theorem initialized_disk_is_empty_volume_witness:
  "\<exists>s'. bm_initialize (2 ^ 30) True True (\<lambda>_. None) (lit ''64m'') None None None ex_volume = (None, Some s') \<and> disk_len s' = 2 ^ 26"
proof -
  have "parse_disk_size (lit ''64m'') = Inr (2 ^ 26)" by code_simp
  then show ?thesis
    using initialized_disk_is_empty_volume [of "lit ''64m''" "2 ^ 26" "2 ^ 30" "\<lambda>_. None" None None None ex_volume]
    by (auto simp: can_open_def content_of_def)
qed

section \<open>Space that was never free\<close>

text \<open>The same disk after \<open>A\<close> has been deleted, with \<open>B\<close> in blocks 2 to 4.\<close>

definition ex_deleted_directory :: memory where
  "ex_deleted_directory = (\<lambda>_. 0)(0 := 1, 32 := 1, 40 := 1, 64 := 66, 96 := 2, 104 := 3)"

definition ex_deleted :: bmfs where
  "ex_deleted = ex_volume\<lparr>disk := (\<lambda>x. if 4096 \<le> x \<and> x < 8192 then ex_deleted_directory (x - 4096) else 7),
     Directory := ex_deleted_directory\<rparr>"

lemma ex_deleted_live: "live ex_deleted_directory 2 i \<longleftrightarrow> i = 1"
  by (auto simp: live_def ex_deleted_directory_def less_2_cases_iff)

lemma ex_deleted_entry: "entry_at ex_deleted_directory 0 =
      \<lparr>FileName = bytes_at ex_deleted_directory 0 32, StartingBlock = 1, ReservedBlocks = 1, FileSize = 0, Unused = 0\<rparr>"
    "entry_at ex_deleted_directory 1 =
      \<lparr>FileName = bytes_at ex_deleted_directory 64 32, StartingBlock = 2, ReservedBlocks = 3, FileSize = 0, Unused = 0\<rparr>"
    "cstr 32 ex_deleted_directory 64 = Some [66]"
proof -
  show "entry_at ex_deleted_directory 0 =
      \<lparr>FileName = bytes_at ex_deleted_directory 0 32, StartingBlock = 1, ReservedBlocks = 1, FileSize = 0, Unused = 0\<rparr>"
    "entry_at ex_deleted_directory 1 =
      \<lparr>FileName = bytes_at ex_deleted_directory 64 32, StartingBlock = 2, ReservedBlocks = 3, FileSize = 0, Unused = 0\<rparr>"
    by (simp_all add: entry_at_def ld64_def ex_deleted_directory_def)
  have "cstr 2 ex_deleted_directory 64 = Some [66]" by code_simp
  then show "cstr 32 ex_deleted_directory 64 = Some [66]" by (rule cstr_mono) simp
qed

lemma ex_deleted_ok: "vol_ok ex_deleted 2" "last_block ex_deleted = 5" "new_name ex_deleted 2 [67]"
proof -
  show L: "last_block ex_deleted = 5" by (simp add: last_block_def ex_deleted_def ex_volume_def)
  have D: "Directory ex_deleted = ex_deleted_directory" by (simp add: ex_deleted_def)
  have "ends ex_deleted_directory 2" by (auto simp: ends_def ex_deleted_directory_def less_2_cases_iff)
  then have "dir_ok ex_deleted_directory 2 5"
    by (simp add: dir_ok_def ex_deleted_live ex_deleted_entry file_ok_def lo_def hi_def del: One_nat_def)
  then show "vol_ok ex_deleted 2" unfolding vol_ok_def L D by (simp add: ex_deleted_def ex_volume_def)
  show "new_name ex_deleted 2 [67]" by (simp add: new_name_def name_ok_def D ex_deleted_live ex_deleted_entry)
qed

theorem create_after_delete_overlaps_witness:
  "\<exists>s' i j. bm_create [67] 4 ex_deleted = Some (Complete, s') \<and> cstr 32 (Directory s') (i * 64) = Some [67] \<and>
    (5 < hi (entry_at (Directory s') i) \<or> \<not> apart (entry_at (Directory s') i) (entry_at (Directory ex_deleted) j))"
proof -
  have D: "Directory ex_deleted = ex_deleted_directory" "disksize ex_deleted = 12" by (simp_all add: ex_deleted_def ex_volume_def)
  have es: "map (entry_at ex_deleted_directory) [0..<2] = [entry_at ex_deleted_directory 0, entry_at ex_deleted_directory 1]"
    by (simp add: upt_rec)
  have d: "ex_deleted_directory 0 = 1" "ex_deleted_directory 64 = 66" by (simp_all add: ex_deleted_directory_def)
  have "find_area (blocks_requested 4) (ucast (disksize ex_deleted div 2))
      (qsort StartingBlockCmp (map (entry_at (Directory ex_deleted)) [0..<2])) 1 = 2"
    unfolding D es by (simp add: qsort_def StartingBlockCmp_def d blocks_requested_def ex_deleted_entry word_le_nat_alt del: One_nat_def)
  then obtain s' where s': "bm_create [67] 4 ex_deleted = Some (Complete, s')"
    using create_alt [OF ex_deleted_ok(1) _ ex_deleted_ok(3), of 4] by simp
  have f: "files (Directory ex_deleted) 2 = {entry_at ex_deleted_directory 1}" by (auto simp: files_def D ex_deleted_live)
  have "\<nexists>q. free_blocks ex_deleted 2 ((unat (4 :: 64 word) + 1) div 2) q"
    by (simp add: free_blocks_def fits_def f ex_deleted_ok(2) ex_deleted_entry lo_def hi_def del: One_nat_def)
  from create_after_delete_overlaps [OF ex_deleted_ok(1) _ ex_deleted_ok(3) _ _ this s'] s' show ?thesis
    unfolding ex_deleted_ok(2) by fastforce
qed

text \<open>The test of \<open>initialize\<close> for an overflow is passed by a size that has overflowed.\<close>

lemma size_overflow_unnoticed: "parse_disk_size (lit ''30000000000000000000'') = Inr 11553255926290448384"
  by code_simp

text \<open>
  A directory of 64 entries has no end mark, so that \<open>create\<close> counts no entries at all. When its
  first entry has been deleted, the new file takes that entry and block 1, and the entry behind
  it is overwritten by an end mark: all other files are lost.
\<close>

lemma full_directory_loses_files:
  assumes "vol_ok s 64" "Directory s 0 = 1" "new_name s 64 f" "0 < m" "m < 2 ^ 32" "(unat m + 1) div 2 < last_block s"
  shows "\<exists>s'. bm_create f m s = Some (Complete, s') \<and> lo (entry_at (Directory s') 0) = 1 \<and> (\<forall>g. g \<noteq> f \<longrightarrow> contents s' g = None)"
proof -
  let ?b = "blocks_requested m" and ?d = "\<lambda>b. add_entry f 1 b 0 0 (Directory s)"
  note v = vol_okD [OF assms(1)]
  have none: "findfile (Directory s) f = Some None" using findfile_ok [OF v(1), of f] assms(3) by (simp add: new_name_def)
  have "find (\<lambda>t. Directory s (t * 64) = 1) [0..<64] = Some 0" using assms(2) by (simp add: upt_rec)
  then have count: "count_entries (Directory s) [0..<64] None = (0, Some 0)"
    using count_ok(2) [OF dir_okD(1) [OF v(1)]] by simp
  have b: "unat ?b = (unat m + 1) div 2" by (rule blocks_of [OF assms(4,5)])
  have "(?b \<le> ucast (disksize s div 2) - 1 - 1) = (unat ?b \<le> last_block s - unat (1 :: 64 word))"
    by (rule gap_word) (use v(4,7) in simp_all)
  then have area: "find_area ?b (ucast (disksize s div 2)) (qsort StartingBlockCmp (map (entry_at (Directory s)) [0..<0])) 1 = 1"
    using assms(6) b by (simp add: qsort_def)
  have nm: "name_ok f" using assms(3) by (simp add: new_name_def)
  define s' where "s' = flush_directory (s\<lparr>Directory := ?d ?b\<rparr>)"
  have "bm_create f m s = Some (Complete, s')"
    using none count area nm by (simp add: bm_create_def Let_def s'_def name_ok_def)
  moreover have D: "Directory s' = ?d ?b" by (simp add: s'_def)
  have "lo (entry_at (Directory s') 0) = 1"
    unfolding D by (subst add_entry_slot(1) [OF nm]) (simp add: lo_def)
  moreover have "contents s' g = None" if "g \<noteq> f" for g
  proof -
    have "hd f \<noteq> 0" "hd f \<noteq> 1" using nm by (cases f; auto simp: name_ok_def)+
    moreover have "?d ?b 0 = hd f" "cstr 32 (?d ?b) 0 = Some f" using add_entry_slot(2,3) [OF nm, of 1 ?b 0 0 "Directory s"] by simp_all
    moreover have "?d ?b 64 = 0" by (simp add: add_entry_def Let_def)
    moreover have "[0..<64] = 0 # 1 # [2..<64]" by (simp add: upt_rec)
    ultimately have "findfile (Directory s') g = Some None"
      using that cstr_64 [of "?d ?b" 0 f f] by (simp add: findfile_def D)
    then show ?thesis by (simp add: contents_def)
  qed
  ultimately show ?thesis by blast
qed

end
