(* ===== verification/Spec2Isabelle.thy ===== *)
theory Spec2Isabelle
  imports Kernel Alive Dinner Programs Shell Volume
begin

text \<open>
  A verified model of this repository: a small operating system for x86-64 in C, with its kernel
  (\<open>src/Kernel\<close>), the programs that run on it (\<open>src/Userland\<close>), the tool that packs both into one
  image (\<open>src/Toolchain/ModulePacker\<close>) and the utility for the disk image it is booted from
  (\<open>src/Bootloader/BMFS\<close>).

  \<^bold>\<open>The program.\<close> The boot loader unpacks the image and calls \<open>initializeKernelBinary\<close>, which loads
  the modules, and \<open>main\<close>, which sets up the tables and creates the process init and the shell. A
  page allocator hands out the memory of the processes; a ring of slots is scheduled round robin by
  the clock; mutexes, semaphores and pipes block and wake processes through the process table. The
  keyboard and the mouse write into the terminal, a ring of characters that the programs poll by
  system call. Programs see the kernel only through the numbers of its table of system calls.

  \<^bold>\<open>Conventions.\<close> Addresses are \<open>nat\<close>, with 0 for the null pointer; bytes, \<open>qword\<close>s and the unsigned
  numbers whose width matters are words; an \<open>int\<close> of C is an \<open>int\<close>, with its wrap-around written
  out where the code can reach it. Memory is a function from addresses to bytes (\<open>Memory\<close>: cells of
  four bytes, \<open>Cells\<close>: of eight), and the structures of the kernel are records in maps from their
  addresses. The globals of a C file are a record that extends the one of the file below it:
  \<open>buddy\<close>, \<open>sched\<close>, \<open>msched\<close>, \<open>ssched\<close>, \<open>isched\<close>, \<open>hsched\<close>, \<open>kstate\<close>, \<open>istate\<close>, \<open>sstate\<close>, \<open>bstate\<close>,
  \<open>mstate\<close> for the kernel and \<open>vstate\<close>, \<open>tstate\<close>, \<open>cstate\<close> for what is on the screen, which the
  field \<open>con\<close> of \<open>kstate\<close> holds. So an operation of a lower layer works on every state above it, and
  what it leaves alone is what the extension says. \<open>None\<close> stands for behaviour that C does not
  define, or a loop that does not end; the type \<open>exec\<close> (\<open>Prelude\<close>) tells a call of the kernel that
  returns (\<open>Done\<close>) from one that gives the processor away and goes on in the state in which it is
  resumed (\<open>Yielded\<close>), and from one that leaves the defined behaviour (\<open>Fault\<close>).

  \<^bold>\<open>The theories and the code.\<close>

  \<^item> \<open>Prelude\<close>, \<open>Memory\<close>, \<open>Cells\<close>, \<open>Cstring\<close>: searches in tables, outcomes, memory, C strings and their
    comparisons (\<open>Kernel/stdio.c\<close>). \<open>Lib\<close>: \<open>lib.c\<close> and \<open>rtc.c\<close>; the two ways in which \<open>memcpy\<close> copies
    equal the plain loop.
  \<^item> \<open>Buddy\<close>: \<open>buddyAllocator.c\<close>, a binary tree in an array. Blocks never overlap, a released block
    restores a fresh heap, and what is lost is stated too.
  \<^item> \<open>Scheduler\<close>, \<open>Process\<close>: \<open>scheduler.c\<close>, \<open>process.c\<close>, \<open>threads.c\<close>. The abstract specification is a
    list of identifiers that is rotated; \<open>schedule\<close> refines it, a ready process runs in time, and
    creation and removal keep the ring and its invariant \<open>kernel_inv\<close>.
  \<^item> \<open>WaitQueue\<close>, \<open>Mutex\<close>, \<open>Semaphores\<close>: \<open>mutex.c\<close> with \<open>asm/lock.asm\<close>, and \<open>semaphores.c\<close>. A locale
    states the queue of blocked processes as a bag, since it is not first come, first served. Mutual
    exclusion is proved for every interleaving with the rest of the kernel, while only who is inside
    releases and no more than twenty processes wait; the theorems also say what the twenty-first meets.
  \<^item> \<open>Ring\<close>, \<open>IPC\<close>, \<open>Malloc\<close>: circular buffers, the pipes of \<open>IPC.c\<close>, the heap of \<open>malloc.c\<close>.
  \<^item> \<open>Video\<close>, \<open>Terminal\<close>, \<open>Console\<close>, \<open>Stdio\<close>: \<open>video.c\<close>, \<open>terminal.c\<close>, \<open>naiveConsole.c\<close>, \<open>stdio.c\<close>. Numerals
    have the right value in every base, the terminal is a bounded queue.
  \<^item> \<open>Loader\<close>: \<open>ModulePacker/main.c\<close> and \<open>moduleLoader.c\<close>; what is packed is what is loaded.
  \<^item> \<open>Interrupts\<close>, \<open>Syscalls\<close>, \<open>Keyboard\<close>, \<open>Mouse\<close>, \<open>Kernel\<close>: \<open>interrupts.c\<close>, \<open>systemCalls.c\<close>,
    \<open>keyboard.c\<close>, \<open>mouse.c\<close>, \<open>kernel.c\<close>. Sleepers that the table has room for wake on time, every
    number reaches its function, the pointer stays on the screen, and \<open>main\<close> leaves a system that
    satisfies \<open>kernel_inv\<close>, with its gates, terminal, heap, mutexes and semaphores set up.
  \<^item> \<open>Crowd\<close>: the locale \<open>counting_semaphore\<close>, the contract that both the semaphores and the mutexes of
    the kernel provide to concurrent programs (interpretations \<open>ks\<close>, \<open>km\<close>), with the books of who
    waits. \<open>ProdCons\<close>, \<open>Alive\<close>, \<open>Philosophers\<close>, \<open>Dummy\<close>, \<open>Dconsole\<close>, \<open>Dinner\<close>: \<open>Userland/dummy\<close>. The producers
    and consumers and the philosophers are step relations, one step for a statement of a process;
    invariants are proved by rule induction over all interleavings, and \<open>Alive\<close> shows that some process
    of the producers and consumers can always go on. \<open>Dummy\<close> follows the keys of \<open>control\<close> and the
    program's copy of \<open>stdio.c\<close>, \<open>Dconsole\<close> its copy of the console, \<open>Dinner\<close> what is in memory when the
    philosophers start.
  \<^item> \<open>Userlib\<close>, \<open>Shell\<close>, \<open>Programs\<close>: \<open>stdio.c\<close> of the programs with all formats of \<open>printFF\<close>
    and \<open>scanFF\<close>, \<open>SHELL/shell.c\<close>, \<open>EDITOR/editor.c\<close>, \<open>FORTUNE/fortune.c\<close> and \<open>_loader.c\<close>. A program is the list of the system calls it makes on what it
    reads; the commands of the shell are followed into the table of the kernel.
  \<^item> \<open>BMFS\<close>, \<open>Volume\<close>: \<open>Bootloader/BMFS/bmfs.c\<close>. The abstract specification of a volume is a map from
    names to contents, which the operations refine while their arguments are in order and, once a file has
    been deleted, there is room for a new one; what \<open>create\<close> does without room is stated too.

  \<^bold>\<open>Error paths.\<close> Many operations do not check what they are given. Where a property holds only on a
  condition, the condition is in its text, and its theorem says, where it can, what happens otherwise:
  \<open>createProcess\<close> without memory, \<open>wait\<close> and \<open>lockMutex\<close> with a full queue, \<open>sleep\<close> with a full table, an
  empty message on an empty pipe, a \<open>read\<close> of no bytes, \<open>kmalloc\<close> of a size that wraps, \<open>create\<close>
  on a disk without room, and the memory that the philosophers start with.

  \<^bold>\<open>Bounds and fuel.\<close> Recursions that count down follow loops with a counter. Where the end of a loop
  depends on the state a number of rounds is given and shown to be enough: the searches through
  the ring take \<open>cardinal_processes\<close> rounds, which visits every slot; \<open>write_loop\<close> takes
  \<open>PIPE_LENGTH\<close> rounds, after which a pipe is full; the numbers of \<open>ncPrintBase\<close> are read back from a
  buffer of 65 bytes, since 64 bits have at most 64 digits; a name of the disk directory lies in an
  entry of 64 bytes; the buffer of the shell has 2500 bytes and a line that \<open>scanFF\<close> reads at most
  101. A program that polls for characters gets a list of answers, and waits for ever when it ends.

  \<^bold>\<open>Parameters.\<close> Hardware and other people's code are arguments: the ports, the answers of the clock,
  \<open>cpuid\<close>, the file system and the command line of the host for the packer and the disk utility, the
  addresses that the linker gives to symbols, the contents of memory and variables that nobody has
  initialised. What the interrupts do between two statements of \<open>getchar\<close> is a list of arbitrary
  changes. In \<open>ProdCons\<close> and \<open>Philosophers\<close> a call of the kernel is one step; \<open>Mutex\<close> and \<open>Semaphores\<close> show
  that the calls have the effect of these steps (\<open>lockMutex_acquires\<close>, \<open>freeMutex_releases\<close>,
  \<open>wait_effect\<close>, \<open>signal_effect\<close>).

  \<^bold>\<open>Not modelled.\<close> The boot loader \<open>Pure64\<close> and the entry and exit sequences of interrupts and system
  calls are assembly; of the assembly only the exchange of \<open>lock.asm\<close>, the ports and the clock are
  modelled, as what their callers rely on. The paging of the processor is the page directory as
  \<open>mapModulesLogical\<close> writes it, without its effect on addresses. Messages that a program prints in
  the middle of a concurrent algorithm, and its sleeps, only take time. \<open>SampleCodeModule\<close> has an empty
  \<open>main\<close>, and \<open>systemTests.c\<close> no code at all. \<open>printrsi\<close> is an endless loop nobody calls.
\<close>

end
